(* ===== verification/Prelude.thy ===== *)
theory Prelude
  imports Complex_Main "HOL-Library.Word"
begin

text \<open>
  Shared vocabulary of the development: the machine types of the Rust code, the Vulkan
  result codes the layer looks at, the saturating operations of the standard library,
  and the contract of a bounded first-in-first-out buffer, which the telemetry ring, the
  HUD ring and the display-timing queue all implement.

  The shipped build profile (\<open>Cargo.toml\<close>, \<open>[profile.release]\<close>) sets
  \<open>overflow-checks = false\<close> and \<open>panic = "abort"\<close>: unsigned arithmetic wraps, and a
  panic ends the process. The models follow that profile: \<open>u64\<close> and \<open>u32\<close> are words,
  whose arithmetic wraps; a panic is the explicit result \<open>Panic\<close>.
\<close>

named_theorems pace_defs \<open>definitions that a component proof unfolds together\<close>
named_theorems pace_inv \<open>preservation lemmas of component invariants\<close>

section \<open>Machine types\<close>

type_synonym u64 = "64 word"
type_synonym u32 = "32 word"

text \<open>\<open>i64\<close> values are \<open>int\<close>s in range; \<open>wrap_i64\<close> is the wrap-around of the release profile.\<close>

type_synonym i64 = int

definition i64_min :: int where "i64_min = - (2 ^ 63)"
definition i64_max :: int where "i64_max = 2 ^ 63 - 1"

definition wrap_i64 :: "int \<Rightarrow> i64" where
  "wrap_i64 x = (x + 2 ^ 63) mod 2 ^ 64 - 2 ^ 63"

definition u64_as_i64 :: "u64 \<Rightarrow> i64" where
  "u64_as_i64 w = wrap_i64 (uint w)"

definition i64_as_u64 :: "i64 \<Rightarrow> u64" where
  "i64_as_u64 x = word_of_int x"

lemma wrap_i64_id: "i64_min \<le> x \<Longrightarrow> x \<le> i64_max \<Longrightarrow> wrap_i64 x = x"
  by (simp add: wrap_i64_def i64_min_def i64_max_def)

lemma wrap_i64_range: "i64_min \<le> wrap_i64 x \<and> wrap_i64 x \<le> i64_max"
proof -
  have "0 \<le> (x + 2 ^ 63) mod 2 ^ 64" and "(x + 2 ^ 63) mod 2 ^ 64 < (2::int) ^ 64"
    by simp_all
  then show ?thesis by (simp add: wrap_i64_def i64_min_def i64_max_def)
qed

lemma u64_as_i64_small: "uint w < 2 ^ 63 \<Longrightarrow> u64_as_i64 w = uint w"
  by (simp add: u64_as_i64_def wrap_i64_id i64_min_def i64_max_def order.trans [OF _ uint_ge_0])

lemma uint_i64_as_u64: "0 \<le> x \<Longrightarrow> x \<le> i64_max \<Longrightarrow> uint (i64_as_u64 x) = x"
  by (simp add: i64_as_u64_def i64_max_def uint_word_of_int)

lemma unat_u64_less: "unat (w :: u64) < 2 ^ 64"
  by (rule order.strict_trans2 [OF unsigned_less]) simp

text \<open>\<open>u64::saturating_sub\<close>, \<open>u64::saturating_mul\<close>.\<close>

definition saturating_sub :: "u64 \<Rightarrow> u64 \<Rightarrow> u64" where
  "saturating_sub a b = (if a < b then 0 else a - b)"

definition saturating_mul :: "u64 \<Rightarrow> u64 \<Rightarrow> u64" where
  "saturating_mul a b = (if uint a * uint b < 2 ^ 64 then a * b else - 1)"

lemma uint_sub_le: "b \<le> a \<Longrightarrow> uint (a - b) = uint a - uint (b :: 'a::len word)"
  by (metis uint_minus_simple_alt word_le_def)

lemma uint_saturating_sub: "uint (saturating_sub a b) = max 0 (uint a - uint b)"
proof (cases "a < b")
  case True
  then have "uint a < uint b" by (simp add: word_less_def)
  with True show ?thesis by (simp add: saturating_sub_def)
next
  case False
  then have "b \<le> a" by simp
  moreover from this have "uint b \<le> uint a" by (simp add: word_le_def)
  ultimately show ?thesis using False by (simp add: saturating_sub_def uint_sub_le)
qed

lemma uint_add_small: "uint a + uint b < 2 ^ 64 \<Longrightarrow> uint (a + b :: u64) = uint a + uint b"
  by (simp add: uint_word_ariths)

lemma uint_saturating_mul: "uint (saturating_mul a b) = min (uint a * uint b) (2 ^ 64 - 1)"
proof (cases "uint a * uint b < 2 ^ 64")
  case True
  then show ?thesis
    by (simp add: saturating_mul_def uint_word_ariths)
next
  case False
  then show ?thesis
    by (simp add: saturating_mul_def unsigned_minus_1_eq_mask mask_eq_exp_minus_1)
qed

lemma saturating_sub_mono: "a \<le> a' \<Longrightarrow> saturating_sub a b \<le> saturating_sub a' b"
  by (simp add: word_le_def uint_saturating_sub)

lemma u64_div_mono: "a \<le> b \<Longrightarrow> a div c \<le> b div (c :: u64)"
  by (simp add: word_le_nat_alt unat_div div_le_mono)

lemma u64_div_mult_le: "unat (a div c) * unat c \<le> unat (a :: u64)"
  by (simp add: unat_div)

section \<open>Results\<close>

text \<open>The result codes the layer distinguishes; any other code of the driver is \<open>VK_OTHER\<close>.\<close>

datatype vk_result =
    SUCCESS | TIMEOUT | INCOMPLETE
  | ERROR_UNKNOWN | ERROR_INITIALIZATION_FAILED | ERROR_EXTENSION_NOT_PRESENT
  | VK_OTHER int

datatype panic = Panic

section \<open>Transition systems\<close>

text \<open>
  What the threads and histories of the layer have in common. An invariant that every step
  keeps holds in every reachable state; a relation that every step extends holds between a
  state and all later ones; and a system in which some step always brings the end nearer
  can be run to its end.
\<close>

locale invariant_system =
  fixes step :: "'s \<Rightarrow> 's \<Rightarrow> bool"
    and inv :: "'s \<Rightarrow> bool"
  assumes step_inv: "step s t \<Longrightarrow> inv s \<Longrightarrow> inv t"
begin

lemma steps_inv: "rtranclp step s t \<Longrightarrow> inv s \<Longrightarrow> inv t"
  by (induction rule: rtranclp_induct) (auto intro: step_inv)

lemma relpowp_inv: "(step ^^ n) s t \<Longrightarrow> inv s \<Longrightarrow> inv t"
  using steps_inv by (blast dest: relpowp_imp_rtranclp)

end

locale kept_relation =
  fixes step :: "'s \<Rightarrow> 's \<Rightarrow> bool"
    and inv :: "'s \<Rightarrow> bool"
    and rel :: "'s \<Rightarrow> 's \<Rightarrow> bool"
  assumes rel_refl: "inv s \<Longrightarrow> rel s s"
    and rel_trans: "rel s t \<Longrightarrow> rel t u \<Longrightarrow> rel s u"
    and rel_inv: "rel s t \<Longrightarrow> inv t"
    and step_rel: "step s t \<Longrightarrow> inv s \<Longrightarrow> rel s t"
begin

lemma steps_rel: "rtranclp step s t \<Longrightarrow> inv s \<Longrightarrow> rel s t"
  by (induction rule: rtranclp_induct) (blast intro: rel_refl, blast intro: rel_trans rel_inv step_rel)

end

sublocale kept_relation \<subseteq> invariant_system step inv
  by unfold_locales (blast intro: rel_inv step_rel)

locale winding_down =
  fixes step :: "'s \<Rightarrow> 's \<Rightarrow> bool"
    and going finished :: "'s \<Rightarrow> bool"
    and left :: "'s \<Rightarrow> nat"
    and kept :: "'s \<Rightarrow> 'k"
  assumes progress: "going s \<Longrightarrow> \<not> finished s \<Longrightarrow>
    \<exists>t. step s t \<and> going t \<and> kept t = kept s \<and> left t < left s"
begin

lemma winds_down: "going s \<Longrightarrow> \<exists>t. rtranclp step s t \<and> finished t \<and> kept t = kept s"
proof (induction "left s" arbitrary: s rule: less_induct)
  case less
  show ?case
  proof (cases "finished s")
    case False
    then obtain t where t: "step s t" "going t" "kept t = kept s" "left t < left s"
      using progress less.prems by blast
    then obtain u where "rtranclp step t u" "finished u" "kept u = kept t" using less.hyps by blast
    then show ?thesis using converse_rtranclp_into_rtranclp [of step, OF t(1)] t(3) by metis
  qed auto
qed

end

section \<open>Bounded first-in-first-out buffers\<close>

locale bounded_fifo =
  fixes push :: "'a \<Rightarrow> 's \<Rightarrow> 's"
    and items :: "'s \<Rightarrow> 'a list"
    and cap :: nat
  assumes cap_pos: "0 < cap"
    and items_push: "length (items s) \<le> cap \<Longrightarrow>
      items (push x s) = drop (length (items s) + 1 - cap) (items s @ [x])"
begin

lemma push_bounded: "length (items s) \<le> cap \<Longrightarrow> length (items (push x s)) \<le> cap"
  by (simp add: items_push)

text \<open>Pushing a batch keeps exactly the newest \<open>cap\<close> elements, in order.\<close>

lemma items_pushes:
  "length (items s) \<le> cap \<Longrightarrow>
    items (fold push xs s) = drop (length (items s) + length xs - cap) (items s @ xs)"
proof (induction xs arbitrary: s)
  case Nil
  then show ?case by simp
next
  case (Cons x xs)
  let ?k = "length (items s) + 1 - cap"
  have len: "length (items (push x s)) = length (items s) + 1 - ?k"
    using Cons.prems by (simp add: items_push)
  have "items (fold push (x # xs) s)
      = drop (length (items (push x s)) + length xs - cap) (items (push x s) @ xs)"
    using Cons.IH [of "push x s"] push_bounded [OF Cons.prems, of x] by simp
  also have "\<dots> = drop (length (items s) + length (x # xs) - cap) (items s @ x # xs)"
  proof (cases "length (items s) < cap")
    case True
    then show ?thesis using Cons.prems by (simp add: items_push)
  next
    case False
    with Cons.prems have full: "length (items s) = cap" by simp
    have "items (push x s) @ xs = drop 1 (items s @ x # xs)"
      using Cons.prems full cap_pos by (simp add: items_push)
    moreover obtain c where "cap = Suc c" using cap_pos by (cases cap) auto
    ultimately show ?thesis using full len by simp
  qed
  finally show ?case .
qed

lemma items_pushes_bounded:
  "length (items s) \<le> cap \<Longrightarrow> length (items (fold push xs s)) \<le> cap"
  by (simp add: items_pushes)

end

text \<open>The capped append all three buffers share: drop the oldest element when full.\<close>

definition ring_append :: "nat \<Rightarrow> 'a \<Rightarrow> 'a list \<Rightarrow> 'a list" where
  "ring_append c x xs = (if length xs = c then tl xs else xs) @ [x]"

lemma ring_append_drop:
  "0 < c \<Longrightarrow> length xs \<le> c \<Longrightarrow> ring_append c x xs = drop (length xs + 1 - c) (xs @ [x])"
  by (cases xs) (auto simp: ring_append_def)

end
