(* ===== verification/F64.thy ===== *)
theory F64
  imports Prelude "HOL-Library.Log_Nat"
begin

text \<open>
  IEEE 754 double precision, as the code's \<open>f64\<close> expressions use it. A finite \<open>f64\<close> is the
  rational number it stands for; every operation computes the exact rational result and
  rounds it to the nearest double, ties to even (\<open>f64_rnd\<close>), with the gradual underflow of
  subnormals. Values above the largest double are not modelled: the code's operands are
  64-bit integers, durations in nanoseconds and small constants, whose results stay far
  below \<open>2 ^ 1024\<close>. The code never produces a NaN on the paths modelled.

  The locale \<open>rounding\<close> is the interface the numeric components rely on: a monotone, odd
  rounding that is exact on integers up to \<open>2 ^ 53\<close>. It is interpreted on \<open>f64_rnd\<close>.
\<close>

section \<open>Rounding to an integer, ties to even\<close>

definition rne :: "rat \<Rightarrow> int" where
  "rne y = (let f = \<lfloor>y\<rfloor>; r = y - of_int f in
     if r < 1 / 2 then f else if r > 1 / 2 then f + 1 else if even f then f else f + 1)"

lemma rne_of_int [simp]: "rne (of_int n) = n"
  by (simp add: rne_def)

lemma rne_bounds: "\<lfloor>y\<rfloor> \<le> rne y \<and> rne y \<le> \<lfloor>y\<rfloor> + 1"
  by (simp add: rne_def Let_def)

lemma rne_mono: "x \<le> y \<Longrightarrow> rne x \<le> rne y"
proof -
  assume xy: "x \<le> y"
  then have "\<lfloor>x\<rfloor> \<le> \<lfloor>y\<rfloor>" by (rule floor_mono)
  then consider "\<lfloor>x\<rfloor> = \<lfloor>y\<rfloor>" | "\<lfloor>x\<rfloor> + 1 \<le> \<lfloor>y\<rfloor>" by linarith
  then show ?thesis
  proof cases
    case 1
    with xy show ?thesis by (auto simp: rne_def Let_def)
  next
    case 2
    then show ?thesis using rne_bounds [of x] rne_bounds [of y] by linarith
  qed
qed

lemma rne_minus: "rne (- y) = - rne y"
proof (cases "y = of_int \<lfloor>y\<rfloor>")
  case True
  then have "- y = of_int (- \<lfloor>y\<rfloor>)" by simp
  then show ?thesis using True by (metis rne_of_int)
next
  case False
  let ?f = "\<lfloor>y\<rfloor>"
  have fl: "\<lfloor>- y\<rfloor> = - ?f - 1"
    using False by (simp add: floor_minus ceiling_altdef)
  have r: "- y - of_int (- ?f - 1) = 1 - (y - of_int ?f)" by simp
  show ?thesis
    unfolding rne_def Let_def fl r by (auto simp: algebra_simps)
qed

lemma rne_near: "\<bar>of_int (rne y) - y\<bar> \<le> 1 / 2"
proof -
  have "of_int \<lfloor>y\<rfloor> \<le> y" and "y < of_int \<lfloor>y\<rfloor> + 1"
    using floor_correct [of y] by simp_all
  then show ?thesis
    unfolding rne_def Let_def by (simp only: abs_le_iff split: if_split) linarith
qed

section \<open>Binary exponents\<close>

text \<open>\<open>ilog2 x\<close> is the exponent \<open>e\<close> with \<open>2 ^ e \<le> \<bar>x\<bar> < 2 ^ (e + 1)\<close>.\<close>

definition ilog2 :: "rat \<Rightarrow> int" where
  "ilog2 x = (let (n, d) = quotient_of \<bar>x\<bar>;
                  e = int (floorlog 2 (nat n)) - int (floorlog 2 (nat d))
              in if 2 powi e \<le> \<bar>x\<bar> then e else e - 1)"

lemma powi_two_pos [simp]: "0 < (2 :: rat) powi e"
  by simp

lemma powi_two_mono: "e \<le> f \<Longrightarrow> (2 :: rat) powi e \<le> 2 powi f"
  by (simp add: power_int_increasing)

lemma powi_two_add: "(2 :: rat) powi (e + f) = 2 powi e * 2 powi f"
  by (simp add: power_int_add)

lemma powi_two_Suc: "(2 :: rat) powi (e + 1) = 2 * 2 powi e"
  by (simp add: powi_two_add)

lemma powi_two_nat: "0 \<le> e \<Longrightarrow> (2 :: rat) powi e = of_int (2 ^ nat e)"
  by (simp add: power_int_def)

lemma ilog2_bounds:
  assumes "x \<noteq> 0"
  shows "2 powi (ilog2 x) \<le> \<bar>x\<bar> \<and> \<bar>x\<bar> < 2 powi (ilog2 x + 1)"
proof -
  obtain n d where q: "quotient_of \<bar>x\<bar> = (n, d)" by (cases "quotient_of \<bar>x\<bar>")
  have d: "0 < d" using q by (rule quotient_of_denom_pos)
  have x: "\<bar>x\<bar> = of_int n / of_int d" using q by (rule quotient_of_div)
  have n: "0 < n"
  proof -
    have "0 < (of_int n :: rat) / of_int d" using assms x by simp
    then show ?thesis using d by (simp add: zero_less_divide_iff)
  qed
  define a where "a = floorlog 2 (nat n)"
  define b where "b = floorlog 2 (nat d)"
  have a0: "0 < a" and b0: "0 < b"
    using n d by (auto simp: a_def b_def floorlog_eq_zero_iff zero_less_iff_neq_zero)
  have na: "2 ^ (a - 1) \<le> nat n" "nat n < 2 ^ a" and db: "2 ^ (b - 1) \<le> nat d" "nat d < 2 ^ b"
    using n d floorlog_bounds [of "nat n" 2] floorlog_bounds [of "nat d" 2]
    by (auto simp: a_def b_def)
  have nr: "(2 :: rat) powi (int a - 1) \<le> of_int n" "of_int n < (2 :: rat) powi int a"
  proof -
    have "(2 :: rat) powi (int a - 1) = of_nat (2 ^ (a - 1))"
      using a0 by (simp add: power_int_def nat_diff_distrib)
    also have "\<dots> \<le> of_nat (nat n)" using na(1) by (simp only: of_nat_le_iff)
    finally show "(2 :: rat) powi (int a - 1) \<le> of_int n" using n by simp
    have "of_nat (nat n) < (of_nat (2 ^ a) :: rat)" using na(2) by (simp only: of_nat_less_iff)
    then show "of_int n < (2 :: rat) powi int a" using n by simp
  qed
  have dr: "(2 :: rat) powi (int b - 1) \<le> of_int d" "of_int d < (2 :: rat) powi int b"
  proof -
    have "(2 :: rat) powi (int b - 1) = of_nat (2 ^ (b - 1))"
      using b0 by (simp add: power_int_def nat_diff_distrib)
    also have "\<dots> \<le> of_nat (nat d)" using db(1) by (simp only: of_nat_le_iff)
    finally show "(2 :: rat) powi (int b - 1) \<le> of_int d" using d by simp
    have "of_nat (nat d) < (of_nat (2 ^ b) :: rat)" using db(2) by (simp only: of_nat_less_iff)
    then show "of_int d < (2 :: rat) powi int b" using d by simp
  qed
  define e where "e = int a - int b"
  have dpos: "(0 :: rat) < of_int d" using d by simp
  have up: "\<bar>x\<bar> < 2 powi (e + 1)"
  proof -
    have "of_int n < (2 :: rat) powi (e + 1) * 2 powi (int b - 1)"
      using nr(2) by (simp add: powi_two_add [symmetric] e_def)
    also have "\<dots> \<le> 2 powi (e + 1) * of_int d" using dr(1) by simp
    finally show ?thesis using dpos by (simp add: x divide_less_eq)
  qed
  have lo: "2 powi (e - 1) \<le> \<bar>x\<bar>"
  proof -
    have "(2 :: rat) powi (e - 1) * of_int d \<le> 2 powi (e - 1) * 2 powi int b"
      using dr(2) by simp
    also have "\<dots> = 2 powi (int a - 1)"
      by (simp only: powi_two_add [symmetric] e_def) simp
    also have "\<dots> \<le> of_int n" by (rule nr(1))
    finally show ?thesis using dpos by (simp add: x le_divide_eq)
  qed
  have il: "ilog2 x = (if 2 powi e \<le> \<bar>x\<bar> then e else e - 1)"
    by (simp add: ilog2_def q a_def b_def e_def)
  show ?thesis using lo up by (auto simp: il)
qed

lemma ilog2_unique:
  assumes "2 powi e \<le> \<bar>x\<bar>" "\<bar>x\<bar> < 2 powi (e + 1)"
  shows "ilog2 x = e"
proof -
  have x0: "x \<noteq> 0" using assms(1) by (metis abs_zero linorder_not_less powi_two_pos)
  note b = ilog2_bounds [OF x0]
  have "\<not> ilog2 x + 1 \<le> e" using b assms(1) powi_two_mono [of "ilog2 x + 1" e] by fastforce
  moreover have "\<not> e + 1 \<le> ilog2 x" using b assms(2) powi_two_mono [of "e + 1" "ilog2 x"] by fastforce
  ultimately show ?thesis by linarith
qed

lemma ilog2_minus [simp]: "ilog2 (- x) = ilog2 x"
  by (simp add: ilog2_def)

section \<open>Rounding to the nearest double\<close>

text \<open>Exponent of the unit in the last place: 53 significant bits, gradual underflow at \<open>2 ^ -1074\<close>.\<close>

definition ulp_exp :: "rat \<Rightarrow> int" where
  "ulp_exp x = max (ilog2 x - 52) (- 1074)"

definition f64_rnd :: "rat \<Rightarrow> rat" where
  "f64_rnd x = (if x = 0 then 0 else 2 powi ulp_exp x * of_int (rne (x / 2 powi ulp_exp x)))"

lemma f64_rnd_0 [simp]: "f64_rnd 0 = 0"
  by (simp add: f64_rnd_def)

lemma f64_rnd_minus: "f64_rnd (- x) = - f64_rnd x"
  by (simp add: f64_rnd_def ulp_exp_def rne_minus)

text \<open>A value on the grid of \<open>x\<close> bounds the rounding of \<open>x\<close>.\<close>

lemma rnd_le_grid:
  assumes "x \<noteq> 0" and "x \<le> 2 powi ulp_exp x * of_int k"
  shows "f64_rnd x \<le> 2 powi ulp_exp x * of_int k"
proof -
  have "x / 2 powi ulp_exp x \<le> of_int k"
    using assms(2) by (simp add: divide_le_eq mult.commute)
  then have "rne (x / 2 powi ulp_exp x) \<le> k" by (metis rne_mono rne_of_int)
  then show ?thesis using assms(1) by (simp add: f64_rnd_def)
qed

lemma rnd_ge_grid:
  assumes "x \<noteq> 0" and "2 powi ulp_exp x * of_int k \<le> x"
  shows "2 powi ulp_exp x * of_int k \<le> f64_rnd x"
proof -
  have "of_int k \<le> x / 2 powi ulp_exp x"
    using assms(2) by (simp add: le_divide_eq mult.commute)
  then have "k \<le> rne (x / 2 powi ulp_exp x)" by (metis rne_mono rne_of_int)
  then show ?thesis using assms(1) by (simp add: f64_rnd_def)
qed

lemma f64_rnd_nonneg: "0 \<le> x \<Longrightarrow> 0 \<le> f64_rnd x"
  using rnd_ge_grid [of x 0] by (cases "x = 0") auto

lemma powi_grid: "q \<le> e \<Longrightarrow> (2 :: rat) powi e = 2 powi q * of_int (2 ^ nat (e - q))"
  using powi_two_add [of q "e - q"] by (simp add: powi_two_nat)

lemma ilog2_mono: "0 < x \<Longrightarrow> x \<le> y \<Longrightarrow> ilog2 x \<le> ilog2 y"
proof (rule ccontr)
  assume "0 < x" "x \<le> y" "\<not> ilog2 x \<le> ilog2 y"
  then have "(2 :: rat) powi (ilog2 y + 1) \<le> 2 powi ilog2 x" by (intro powi_two_mono) simp
  then show False
    using \<open>0 < x\<close> \<open>x \<le> y\<close> ilog2_bounds [of x] ilog2_bounds [of y] by simp
qed

lemma f64_rnd_mono_pos:
  assumes "0 < x" and "x \<le> y"
  shows "f64_rnd x \<le> f64_rnd y"
proof (cases "ulp_exp x = ulp_exp y")
  case True
  have "x / 2 powi ulp_exp x \<le> y / 2 powi ulp_exp x"
    using assms(2) by (simp add: divide_right_mono)
  then show ?thesis
    using assms rne_mono by (simp add: f64_rnd_def True)
next
  case False
  have le: "ilog2 x \<le> ilog2 y" using assms by (rule ilog2_mono)
  have uy: "ulp_exp y = ilog2 y - 52" and ux: "ulp_exp x < ulp_exp y" and lt: "ilog2 x < ilog2 y"
    using le False by (auto simp: ulp_exp_def max_def split: if_splits)
  have "x \<le> 2 powi ilog2 y"
    using ilog2_bounds [of x] assms(1) powi_two_mono [of "ilog2 x + 1" "ilog2 y"] lt by simp
  then have "f64_rnd x \<le> 2 powi ilog2 y"
    using rnd_le_grid [of x "2 ^ nat (ilog2 y - ulp_exp x)"] assms(1) ux uy
      powi_grid [of "ulp_exp x" "ilog2 y"] by simp
  also have "2 powi ilog2 y \<le> f64_rnd y"
    using rnd_ge_grid [of y "2 ^ nat (ilog2 y - ulp_exp y)"] assms ilog2_bounds [of y] uy
      powi_grid [of "ulp_exp y" "ilog2 y"] by simp
  finally show ?thesis .
qed

lemma f64_rnd_mono: "x \<le> y \<Longrightarrow> f64_rnd x \<le> f64_rnd y"
proof -
  assume xy: "x \<le> y"
  consider "0 < x" | "x \<le> 0" "0 \<le> y" | "y < 0" by linarith
  then show ?thesis
  proof cases
    case 1
    then show ?thesis using xy by (rule f64_rnd_mono_pos)
  next
    case 2
    have "f64_rnd x \<le> 0" using f64_rnd_nonneg [of "- x"] 2(1) by (simp add: f64_rnd_minus)
    also have "0 \<le> f64_rnd y" using 2(2) by (rule f64_rnd_nonneg)
    finally show ?thesis .
  next
    case 3
    then show ?thesis using f64_rnd_mono_pos [of "- y" "- x"] xy by (simp add: f64_rnd_minus)
  qed
qed

text \<open>Numbers with at most 53 significant bits in the normal range are doubles.\<close>

lemma f64_rnd_on_grid:
  assumes "x / 2 powi ulp_exp x = of_int m"
  shows "f64_rnd x = x"
proof -
  have "x = 2 powi ulp_exp x * (x / 2 powi ulp_exp x)" by simp
  then have "2 powi ulp_exp x * of_int m = x" unfolding assms by (rule sym)
  then show ?thesis by (simp only: f64_rnd_def assms rne_of_int if_cancel) simp
qed

lemma f64_rnd_grid:
  assumes "x = 2 powi q * of_int k" and "\<bar>k\<bar> \<le> 2 ^ 53" and "- 1074 \<le> q"
  shows "f64_rnd x = x"
proof (cases "x = 0")
  case False
  have k0: "k \<noteq> 0" using False assms(1) by auto
  have bnd: "\<bar>x\<bar> \<le> 2 powi (q + 53)"
  proof -
    have "\<bar>of_int k\<bar> \<le> (2 :: rat) ^ 53" using assms(2) by (metis of_int_abs of_int_le_iff of_int_numeral of_int_power)
    then show ?thesis by (simp add: assms(1) abs_mult powi_two_add)
  qed
  show ?thesis
  proof (cases "\<bar>x\<bar> = 2 powi (q + 53)")
    case True
    then have il: "ilog2 x = q + 53" by (intro ilog2_unique) (simp_all add: powi_two_add)
    then have u: "ulp_exp x = q + 1" using assms(3) by (simp add: ulp_exp_def)
    have "of_int \<bar>k\<bar> = (of_int (2 ^ 53) :: rat)"
      using True by (simp add: assms(1) abs_mult powi_two_add)
    then have "\<bar>k\<bar> = 2 ^ 53" by (simp only: of_int_eq_iff)
    then consider "k = 2 ^ 53" | "k = - (2 ^ 53)" by linarith
    then obtain m where "x / 2 powi ulp_exp x = of_int m"
    proof cases
      case 1
      then have "x / 2 powi ulp_exp x = of_int (2 ^ 52)" by (simp only: u) (simp add: assms(1) powi_two_Suc)
      then show ?thesis by (rule that)
    next
      case 2
      then have "x / 2 powi ulp_exp x = of_int (- (2 ^ 52))" by (simp only: u) (simp add: assms(1) powi_two_Suc)
      then show ?thesis by (rule that)
    qed
    then show ?thesis by (rule f64_rnd_on_grid)
  next
    case neq: False
    have "ilog2 x < q + 53"
    proof (rule ccontr)
      assume "\<not> ilog2 x < q + 53"
      then have "(2 :: rat) powi (q + 53) \<le> 2 powi ilog2 x" by (intro powi_two_mono) simp
      then show False using ilog2_bounds [OF False] bnd neq by simp
    qed
    then have u: "ulp_exp x \<le> q" using assms(3) by (simp add: ulp_exp_def)
    have "x = 2 powi ulp_exp x * of_int (2 ^ nat (q - ulp_exp x) * k)"
      using powi_grid [OF u] by (simp add: assms(1))
    then have "x / 2 powi ulp_exp x = of_int (2 ^ nat (q - ulp_exp x) * k)"
      by (simp add: field_simps)
    then show ?thesis by (rule f64_rnd_on_grid)
  qed
qed simp

lemma f64_rnd_int: "\<bar>n\<bar> \<le> 2 ^ 53 \<Longrightarrow> f64_rnd (of_int n) = of_int n"
  by (rule f64_rnd_grid [of _ 0 n]) auto

section \<open>Operations and casts\<close>

definition f64_lit :: "rat \<Rightarrow> rat" where "f64_lit r = f64_rnd r"
definition f64_of_int :: "int \<Rightarrow> rat" where "f64_of_int n = f64_rnd (of_int n)"
definition f64_add :: "rat \<Rightarrow> rat \<Rightarrow> rat" where "f64_add x y = f64_rnd (x + y)"
definition f64_sub :: "rat \<Rightarrow> rat \<Rightarrow> rat" where "f64_sub x y = f64_rnd (x - y)"
definition f64_mul :: "rat \<Rightarrow> rat \<Rightarrow> rat" where "f64_mul x y = f64_rnd (x * y)"
definition f64_div :: "rat \<Rightarrow> rat \<Rightarrow> rat" where "f64_div x y = f64_rnd (x / y)"

definition f64_clamp :: "rat \<Rightarrow> rat \<Rightarrow> rat \<Rightarrow> rat" where
  "f64_clamp x lo hi = (if x < lo then lo else if hi < x then hi else x)"

text \<open>\<open>f64::round\<close> rounds half away from zero; the casts truncate towards zero and saturate.\<close>

definition f64_round :: "rat \<Rightarrow> int" where
  "f64_round x = (if 0 \<le> x then \<lfloor>x + 1 / 2\<rfloor> else - \<lfloor>- x + 1 / 2\<rfloor>)"

definition f64_trunc :: "rat \<Rightarrow> int" where
  "f64_trunc x = (if 0 \<le> x then \<lfloor>x\<rfloor> else - \<lfloor>- x\<rfloor>)"

definition f64_as_i64 :: "rat \<Rightarrow> i64" where
  "f64_as_i64 x = max i64_min (min i64_max (f64_trunc x))"

definition f64_as_i128 :: "rat \<Rightarrow> int" where
  "f64_as_i128 x = max (- (2 ^ 127)) (min (2 ^ 127 - 1) (f64_trunc x))"

definition f64_as_usize :: "rat \<Rightarrow> nat" where
  "f64_as_usize x = nat (min (2 ^ 64 - 1) (f64_trunc x))"

lemma f64_round_mono: "x \<le> y \<Longrightarrow> f64_round x \<le> f64_round y"
proof -
  assume xy: "x \<le> y"
  consider "0 \<le> x" | "x < 0" "0 \<le> y" | "y < 0" by linarith
  then show ?thesis
  proof cases
    case 1
    then show ?thesis using xy by (simp add: f64_round_def floor_mono)
  next
    case 2
    have "f64_round x \<le> 0" "0 \<le> f64_round y" using 2 by (simp_all add: f64_round_def)
    then show ?thesis by simp
  next
    case 3
    then show ?thesis using xy by (simp add: f64_round_def floor_mono)
  qed
qed

lemma f64_round_int [simp]: "f64_round (of_int n) = n"
proof -
  have "\<lfloor>(of_int m :: rat) + 1 / 2\<rfloor> = m" for m by (simp add: floor_eq_iff)
  from this [of n] this [of "- n"] show ?thesis by (simp add: f64_round_def)
qed

lemma f64_trunc_int [simp]: "f64_trunc (of_int n) = n"
  by (simp add: f64_trunc_def)

lemma f64_trunc_nat [simp]: "f64_trunc (of_nat n) = int n"
  by (metis f64_trunc_int of_int_of_nat_eq)

lemma f64_trunc_mono: "x \<le> y \<Longrightarrow> f64_trunc x \<le> f64_trunc y"
proof -
  assume xy: "x \<le> y"
  consider "0 \<le> x" | "x < 0" "0 \<le> y" | "y < 0" by linarith
  then show ?thesis
  proof cases
    case 1
    then show ?thesis using xy by (simp add: f64_trunc_def floor_mono)
  next
    case 2
    have "f64_trunc x \<le> 0" "0 \<le> f64_trunc y" using 2 by (simp_all add: f64_trunc_def)
    then show ?thesis by simp
  next
    case 3
    then show ?thesis using xy by (simp add: f64_trunc_def floor_mono)
  qed
qed

lemma f64_trunc_abs: "\<bar>of_int (f64_trunc x)\<bar> \<le> \<bar>x\<bar>"
proof (cases "0 \<le> x")
  case True
  then have "(0 :: rat) \<le> of_int \<lfloor>x\<rfloor>" by simp
  with True show ?thesis using of_int_floor_le [of x] by (simp add: f64_trunc_def)
next
  case False
  then have "(0 :: rat) \<le> of_int \<lfloor>- x\<rfloor>" by simp
  with False show ?thesis using of_int_floor_le [of "- x"] by (simp add: f64_trunc_def)
qed

section \<open>The rounding interface\<close>

locale rounding =
  fixes rnd :: "rat \<Rightarrow> rat"
  assumes rnd_mono: "x \<le> y \<Longrightarrow> rnd x \<le> rnd y"
    and rnd_odd: "rnd (- x) = - rnd x"
    and rnd_int: "\<bar>n\<bar> \<le> 2 ^ 53 \<Longrightarrow> rnd (of_int n) = of_int n"
begin

lemma rnd_0: "rnd 0 = 0"
  using rnd_int [of 0] by simp

lemma rnd_1: "rnd 1 = 1"
  using rnd_int [of 1] by simp

lemma rnd_nonneg: "0 \<le> x \<Longrightarrow> 0 \<le> rnd x"
  using rnd_mono [of 0 x] by (simp add: rnd_0)

lemma rnd_nonpos: "x \<le> 0 \<Longrightarrow> rnd x \<le> 0"
  using rnd_mono [of x 0] by (simp add: rnd_0)

lemma rnd_le_int: "x \<le> of_int n \<Longrightarrow> \<bar>n\<bar> \<le> 2 ^ 53 \<Longrightarrow> rnd x \<le> of_int n"
  using rnd_mono [of x "of_int n"] by (simp add: rnd_int)

lemma rnd_ge_int: "of_int n \<le> x \<Longrightarrow> \<bar>n\<bar> \<le> 2 ^ 53 \<Longrightarrow> of_int n \<le> rnd x"
  using rnd_mono [of "of_int n" x] by (simp add: rnd_int)

lemma rnd_abs_mono: "\<bar>x\<bar> \<le> y \<Longrightarrow> \<bar>rnd x\<bar> \<le> rnd y"
  using rnd_mono [of x y] rnd_mono [of "- x" y] by (simp add: rnd_odd abs_if split: if_splits)

text \<open>Rank of a quantile in a sample of \<open>n\<close>: in range, and monotone in the quantile.\<close>

lemma rank_in_range:
  assumes "0 \<le> q" "q \<le> 1" "0 < n" "n \<le> 2 ^ 53"
  shows "0 \<le> f64_round (rnd (rnd (rnd (of_int n) - 1) * q))"
    and "f64_round (rnd (rnd (rnd (of_int n) - 1) * q)) \<le> n - 1"
proof -
  have "rnd (of_int n) - 1 = of_int (n - 1)" using assms by (simp add: rnd_int)
  then have e: "rnd (rnd (of_int n) - 1) = of_int (n - 1)"
    using assms by (simp only: rnd_int)
  have "of_int 0 \<le> rnd (of_int (n - 1) * q)" using assms by (intro rnd_ge_int) auto
  then have "f64_round (of_int 0) \<le> f64_round (rnd (of_int (n - 1) * q))" by (rule f64_round_mono)
  then show "0 \<le> f64_round (rnd (rnd (rnd (of_int n) - 1) * q))" by (simp only: e f64_round_int)
  have "of_int (n - 1) * q \<le> of_int (n - 1) * 1" using assms by (intro mult_left_mono) auto
  then have "rnd (of_int (n - 1) * q) \<le> of_int (n - 1)" using assms by (intro rnd_le_int) auto
  then have "f64_round (rnd (of_int (n - 1) * q)) \<le> f64_round (of_int (n - 1))"
    by (rule f64_round_mono)
  then show "f64_round (rnd (rnd (rnd (of_int n) - 1) * q)) \<le> n - 1"
    by (simp only: e f64_round_int)
qed

lemma rank_mono:
  assumes "q \<le> q'" "0 < n" "n \<le> 2 ^ 53"
  shows "f64_round (rnd (rnd (rnd (of_int n) - 1) * q)) \<le> f64_round (rnd (rnd (rnd (of_int n) - 1) * q'))"
proof -
  have "0 \<le> rnd (rnd (of_int n) - 1)" using assms by (intro rnd_nonneg) (simp add: rnd_int)
  then show ?thesis using assms(1) by (intro f64_round_mono rnd_mono mult_left_mono)
qed

end

interpretation f64: rounding f64_rnd
  by unfold_locales (simp_all add: f64_rnd_mono f64_rnd_minus f64_rnd_int)

end
