(* ===== verification/Text.thy ===== *)
theory Text
  imports Prelude
begin

text \<open>
  Rust strings and the \<open>str\<close> methods the configuration reader (\<open>config.rs\<close>), the telemetry
  formatter (\<open>telemetry.rs\<close>) and the HUD's parser (\<open>parse.rs\<close>) call. A string is the list of
  its Unicode scalar values; \<open>lit\<close> turns an ASCII literal into one. Byte lengths
  (\<open>str::len\<close>) are computed from the UTF-8 encoding.
\<close>

type_synonym ustr = "nat list"

definition lit :: "string \<Rightarrow> ustr" where
  "lit s = map of_char s"

lemma lit_eq_iff [simp]: "lit a = lit b \<longleftrightarrow> a = b"
  by (simp add: lit_def inj_map_eq_map inj_def)

section \<open>Character classes and lengths\<close>

text \<open>\<open>char::is_whitespace\<close>: the code points with the Unicode property White_Space.\<close>

definition is_ws :: "nat \<Rightarrow> bool" where
  "is_ws c \<longleftrightarrow> (9 \<le> c \<and> c \<le> 13) \<or> c = 32 \<or> c = 0x85 \<or> c = 0xA0 \<or> c = 0x1680
     \<or> (0x2000 \<le> c \<and> c \<le> 0x200A) \<or> c = 0x2028 \<or> c = 0x2029 \<or> c = 0x202F \<or> c = 0x205F
     \<or> c = 0x3000"

definition utf8_width :: "nat \<Rightarrow> nat" where
  "utf8_width c = (if c < 0x80 then 1 else if c < 0x800 then 2 else if c < 0x10000 then 3 else 4)"

definition byte_len :: "ustr \<Rightarrow> nat" where
  "byte_len s = sum_list (map utf8_width s)"

lemma byte_len_ascii: "\<forall>c\<in>set s. c < 128 \<Longrightarrow> byte_len s = length s"
  by (induction s) (auto simp: byte_len_def utf8_width_def)

lemma byte_len_simps [simp]:
  "byte_len [] = 0" "byte_len (xs @ ys) = byte_len xs + byte_len ys"
  by (simp_all add: byte_len_def)

section \<open>Trimming, prefixes, splitting\<close>

definition trim_end_matches :: "(nat \<Rightarrow> bool) \<Rightarrow> ustr \<Rightarrow> ustr" where
  "trim_end_matches p s = rev (dropWhile p (rev s))"

definition trim_matches :: "(nat \<Rightarrow> bool) \<Rightarrow> ustr \<Rightarrow> ustr" where
  "trim_matches p s = trim_end_matches p (dropWhile p s)"

definition trim :: "ustr \<Rightarrow> ustr" where
  "trim s = trim_matches is_ws s"

definition strip_prefix :: "ustr \<Rightarrow> ustr \<Rightarrow> ustr option" where
  "strip_prefix p s = (if take (length p) s = p then Some (drop (length p) s) else None)"

definition strip_suffix :: "ustr \<Rightarrow> ustr \<Rightarrow> ustr option" where
  "strip_suffix p s = map_option rev (strip_prefix (rev p) (rev s))"

fun split_on :: "nat \<Rightarrow> ustr \<Rightarrow> ustr list" where
  "split_on c [] = [[]]"
| "split_on c (x # xs) =
     (if x = c then [] # split_on c xs
      else (case split_on c xs of [] \<Rightarrow> [[x]] | y # ys \<Rightarrow> (x # y) # ys))"

definition split_once :: "nat \<Rightarrow> ustr \<Rightarrow> (ustr \<times> ustr) option" where
  "split_once c s = (if c \<in> set s then Some (takeWhile (\<lambda>x. x \<noteq> c) s, tl (dropWhile (\<lambda>x. x \<noteq> c) s)) else None)"

lemma split_on_nonempty: "split_on c s \<noteq> []"
  by (induction s) (auto split: list.splits)

lemma split_on_last: "c \<notin> set s \<Longrightarrow> split_on c s = [s]"
  by (induction s) auto

lemma split_on_append: "c \<notin> set s \<Longrightarrow> split_on c (s @ c # t) = s # split_on c t"
  by (induction s) auto

lemma split_once_append: "c \<notin> set s \<Longrightarrow> split_once c (s @ c # t) = Some (s, t)"
  by (simp add: split_once_def takeWhile_append dropWhile_append)

lemma dropWhile_hd: "s \<noteq> [] \<Longrightarrow> \<not> p (hd s) \<Longrightarrow> dropWhile p s = s"
  by (cases s) auto

lemma trim_end_matches_id: "s \<noteq> [] \<Longrightarrow> \<not> p (last s) \<Longrightarrow> trim_end_matches p s = s"
  by (simp add: trim_end_matches_def dropWhile_hd hd_rev)

lemma trim_matches_id:
  "s \<noteq> [] \<Longrightarrow> \<not> p (hd s) \<Longrightarrow> \<not> p (last s) \<Longrightarrow> trim_matches p s = s"
  by (simp add: trim_matches_def trim_end_matches_id dropWhile_hd)

lemma trim_matches_none: "\<forall>c\<in>set s. \<not> p c \<Longrightarrow> trim_matches p s = s"
proof (cases "s = []")
  case True
  then show ?thesis by (simp add: trim_matches_def trim_end_matches_def)
next
  case False
  assume "\<forall>c\<in>set s. \<not> p c"
  with False show ?thesis by (intro trim_matches_id) auto
qed

lemma trim_none: "\<forall>c\<in>set s. \<not> is_ws c \<Longrightarrow> trim s = s"
  by (simp add: trim_def trim_matches_none)

lemma strip_prefix_append [simp]: "strip_prefix p (p @ s) = Some s"
  by (simp add: strip_prefix_def)

lemma strip_suffix_append [simp]: "strip_suffix p (s @ p) = Some s"
  by (simp add: strip_suffix_def strip_prefix_def)

section \<open>Numbers\<close>

definition digit_of :: "nat \<Rightarrow> nat \<Rightarrow> nat option" where
  "digit_of r c =
     (let d = (if 48 \<le> c \<and> c \<le> 57 then c - 48
               else if 97 \<le> c \<and> c \<le> 122 then c - 87
               else if 65 \<le> c \<and> c \<le> 90 then c - 55 else 36)
      in if d < r then Some d else None)"

text \<open>
  \<open>from_str_radix\<close> for an unsigned type of the given width: an optional \<open>+\<close>, then at least
  one digit, with checked multiplication and addition.
\<close>

fun parse_digits :: "nat \<Rightarrow> nat \<Rightarrow> nat \<Rightarrow> ustr \<Rightarrow> nat option" where
  "parse_digits r bits acc [] = Some acc"
| "parse_digits r bits acc (c # cs) =
     (if 2 ^ bits \<le> acc * r then None
      else (case digit_of r c of
              None \<Rightarrow> None
            | Some d \<Rightarrow> if 2 ^ bits \<le> acc * r + d then None else parse_digits r bits (acc * r + d) cs))"

definition parse_uint :: "nat \<Rightarrow> nat \<Rightarrow> ustr \<Rightarrow> nat option" where
  "parse_uint r bits s =
     (let ds = (case s of [] \<Rightarrow> [] | c # cs \<Rightarrow> if c = 43 then cs else s)
      in if ds = [] then None else parse_digits r bits 0 ds)"

definition parse_u64_str :: "ustr \<Rightarrow> u64 option" where
  "parse_u64_str s = map_option word_of_nat (parse_uint 10 64 s)"

definition parse_u32_str :: "ustr \<Rightarrow> u32 option" where
  "parse_u32_str s = map_option word_of_nat (parse_uint 10 32 s)"

text \<open>Display of unsigned integers in decimal and lower-case hexadecimal.\<close>

definition digit_char :: "nat \<Rightarrow> nat" where
  "digit_char d = (if d < 10 then 48 + d else 87 + d)"

function show_radix :: "nat \<Rightarrow> nat \<Rightarrow> ustr" where
  "show_radix r n =
     (if r < 2 \<or> n < r then [digit_char n] else show_radix r (n div r) @ [digit_char (n mod r)])"
  by pat_completeness auto
termination
  by (relation "measure snd") auto

declare show_radix.simps [simp del]

definition show_dec :: "nat \<Rightarrow> ustr" where "show_dec = show_radix 10"
definition show_hex :: "nat \<Rightarrow> ustr" where "show_hex = show_radix 16"

lemma digit_of_char: "d < r \<Longrightarrow> r \<le> 16 \<Longrightarrow> digit_of r (digit_char d) = Some d"
  by (auto simp: digit_of_def digit_char_def Let_def)

lemma parse_digits_append:
  "parse_digits r bits acc (xs @ ys) =
     Option.bind (parse_digits r bits acc xs) (\<lambda>a. parse_digits r bits a ys)"
  by (induction xs arbitrary: acc) (auto split: option.splits)

lemma parse_show_digits:
  "2 \<le> r \<Longrightarrow> r \<le> 16 \<Longrightarrow> n < 2 ^ bits \<Longrightarrow> parse_digits r bits 0 (show_radix r n) = Some n"
proof (induction r n rule: show_radix.induct)
  case (1 r n)
  show ?case
  proof (cases "n < r")
    case True
    with "1.prems" show ?thesis by (simp add: show_radix.simps [of r n] digit_of_char)
  next
    case False
    have "n div r * r + n mod r = n" by simp
    moreover have "\<not> 2 ^ bits \<le> n div r * r"
      using "1.prems"(3) div_times_less_eq_dividend [of n r] by linarith
    moreover have "n div r < 2 ^ bits" using "1.prems" by (metis div_le_dividend order.strict_trans1)
    moreover have "n mod r < r" using "1.prems" by simp
    ultimately show ?thesis
      using False "1.IH" "1.prems"
      by (simp add: show_radix.simps [of r n] parse_digits_append digit_of_char)
  qed
qed

lemma show_radix_digits:
  "2 \<le> r \<Longrightarrow> r \<le> 16 \<Longrightarrow>
     \<forall>c\<in>set (show_radix r n). (48 \<le> c \<and> c \<le> 57) \<or> (97 \<le> c \<and> c \<le> 102)"
proof (induction r n rule: show_radix.induct)
  case (1 r n)
  have "n mod r < 16" using "1.prems" by (metis mod_less_divisor order.strict_trans2 pos2)
  then show ?case
    using "1.IH" "1.prems" by (auto simp: show_radix.simps [of r n] digit_char_def)
qed

lemma show_radix_nonempty: "show_radix r n \<noteq> []"
  by (simp add: show_radix.simps [of r n])

lemma show_radix_length: "2 \<le> r \<Longrightarrow> n < r ^ Suc k \<Longrightarrow> length (show_radix r n) \<le> Suc k"
proof (induction k arbitrary: n)
  case 0
  then show ?case by (simp add: show_radix.simps [of r n])
next
  case (Suc k)
  have "n div r < r ^ Suc k" using Suc.prems by (simp add: less_mult_imp_div_less mult.commute)
  then have "length (show_radix r (n div r)) \<le> Suc k" using Suc.prems by (intro Suc.IH) auto
  then show ?case by (simp add: show_radix.simps [of r n])
qed

lemma parse_uint_show:
  assumes "2 \<le> r" "r \<le> 16" "n < 2 ^ bits"
  shows "parse_uint r bits (show_radix r n) = Some n"
proof -
  obtain c cs where s: "show_radix r n = c # cs"
    using show_radix_nonempty [of r n] by (cases "show_radix r n") auto
  then have "c \<noteq> 43" using show_radix_digits [OF assms(1,2), of n] by auto
  then show ?thesis using parse_show_digits [OF assms] by (simp add: parse_uint_def s)
qed

end
