(* ===== verification/Telemetry.thy ===== *)
theory Telemetry
  imports F64 Text "HOL-Library.Multiset"
begin

text \<open>
  The layer's telemetry (\<open>src/telemetry.rs\<close>): the hot-path counters, the bounded ring of
  frame records, the socket thread's batches and its JSON lines, the p50/p99 computation
  and one tick of the statistics thread with its Prometheus text.

  The peer of the socket and the file system are not modelled: a batch takes the outcome of
  each \<open>write_all\<close> as a parameter, and a tick returns the text it would write.
\<close>

section \<open>Counters\<close>

record counters =
  frames :: u64
  submits :: u64
  presents :: u64
  injections :: u64
  acquires :: u64

definition counters_default :: counters where
  "counters_default = \<lparr>frames = 0, submits = 0, presents = 0, injections = 0, acquires = 0\<rparr>"

definition record_submit_call :: "u32 \<Rightarrow> u32 \<Rightarrow> counters \<Rightarrow> counters" where
  "record_submit_call submit_count injected c =
     c\<lparr>submits := submits c + ucast submit_count, injections := injections c + ucast injected\<rparr>"

definition inc_present :: "counters \<Rightarrow> counters" where
  "inc_present c = c\<lparr>presents := presents c + 1, frames := frames c + 1\<rparr>"

section \<open>The ring of frame records\<close>

definition RING_CAPACITY :: nat where "RING_CAPACITY = 1024"

record frame_record =
  host_ns :: u64
  frame_index :: u64
  queue_id :: u64
  fr_present_id :: u64
  latency_us :: u64

record socket_shared =
  ring :: "frame_record list"
  sock_stop :: bool
  socket_path :: ustr

record telemetry =
  counters :: counters
  socket :: "socket_shared option"

definition telemetry_new :: "ustr option \<Rightarrow> telemetry" where
  "telemetry_new path = \<lparr>counters = counters_default,
     socket = map_option (\<lambda>p. \<lparr>ring = [], sock_stop = False, socket_path = p\<rparr>) path\<rparr>"

definition socket_enabled :: "telemetry \<Rightarrow> bool" where
  "socket_enabled t = (socket t \<noteq> None)"

definition ring_push :: "frame_record \<Rightarrow> socket_shared \<Rightarrow> socket_shared" where
  "ring_push rec s =
     (let r = (if length (ring s) = RING_CAPACITY then tl (ring s) else ring s)
      in s\<lparr>ring := r @ [rec]\<rparr>)"

definition push_record :: "frame_record \<Rightarrow> telemetry \<Rightarrow> telemetry" where
  "push_record rec t =
     (case socket t of None \<Rightarrow> t | Some s \<Rightarrow> t\<lparr>socket := Some (ring_push rec s)\<rparr>)"

lemma ring_push_append: "ring (ring_push rec s) = ring_append RING_CAPACITY rec (ring s)"
  by (simp add: ring_push_def ring_append_def Let_def)

interpretation tring: bounded_fifo ring_push ring RING_CAPACITY
  by unfold_locales (simp_all add: ring_push_append ring_append_drop RING_CAPACITY_def)

definition telemetry_ring :: "telemetry \<Rightarrow> frame_record list" where
  "telemetry_ring t = (case socket t of None \<Rightarrow> [] | Some s \<Rightarrow> ring s)"

lemma fold_push_record:
  "socket t = Some s \<Longrightarrow> socket (fold push_record xs t) = Some (fold ring_push xs s)"
  by (induction xs arbitrary: t s) (simp_all add: push_record_def)

lemma fold_push_record_off: "socket t = None \<Longrightarrow> fold push_record xs t = t"
  by (induction xs) (simp_all add: push_record_def)

section \<open>Percentiles\<close>

text \<open>Index of the quantile \<open>q\<close> in \<open>n\<close> sorted samples: \<open>((n as f64 - 1.0) * q).round() as usize\<close>.\<close>

definition rank_idx :: "nat \<Rightarrow> rat \<Rightarrow> nat" where
  "rank_idx n q = f64_as_usize (of_int (f64_round (f64_mul (f64_sub (f64_of_int (int n)) 1) q)))"

definition quantile :: "u64 list \<Rightarrow> rat \<Rightarrow> u64" where
  "quantile xs q = xs ! min (rank_idx (length xs) q) (length xs - 1)"

definition percentile_p50_p99 :: "u64 list \<Rightarrow> u64 \<times> u64" where
  "percentile_p50_p99 samples =
     (if samples = [] then (0, 0)
      else (let s = sort samples in (quantile s (f64_lit (1 / 2)), quantile s (f64_lit (99 / 100)))))"

lemma rank_idx_round:
  "rank_idx n q = nat (min (2 ^ 64 - 1) (f64_round (f64_rnd (f64_rnd (f64_rnd (of_int (int n)) - 1) * q))))"
  by (simp add: rank_idx_def f64_as_usize_def f64_mul_def f64_sub_def f64_of_int_def)

text \<open>The \<open>min\<close> with \<open>len - 1\<close> is never needed, and the rank grows with the quantile.\<close>

lemma rank_idx_less:
  assumes "0 \<le> q" "q \<le> 1" "0 < n" "n \<le> 2 ^ 53"
  shows "rank_idx n q < n"
  using f64.rank_in_range [of q "int n"] assms by (simp add: rank_idx_round min_def)

lemma rank_idx_mono: "q \<le> q' \<Longrightarrow> 0 < n \<Longrightarrow> n \<le> 2 ^ 53 \<Longrightarrow> rank_idx n q \<le> rank_idx n q'"
  using f64.rank_mono [of q q' "int n"] by (simp add: rank_idx_round nat_mono min_def)

lemma lit_quantiles:
  "0 \<le> f64_lit (1 / 2)" "f64_lit (1 / 2) \<le> f64_lit (99 / 100)" "f64_lit (99 / 100) \<le> 1"
  using f64.rnd_nonneg [of "1 / 2"] f64.rnd_mono [of "1 / 2" "99 / 100"] f64.rnd_le_int [of "99 / 100" 1]
  by (simp_all add: f64_lit_def)

lemma clamped_index: "s \<noteq> [] \<Longrightarrow> min i (length s - Suc 0) < length s"
  by (cases s) auto

lemma quantile_mem:
  "s \<noteq> [] \<Longrightarrow> quantile s q \<in> set s"
  by (simp add: quantile_def clamped_index)

lemma quantile_mono:
  assumes "sorted s" "s \<noteq> []" "length s \<le> 2 ^ 53" "q \<le> q'"
  shows "quantile s q \<le> quantile s q'"
  unfolding quantile_def using assms rank_idx_mono [of q q' "length s"]
  by (intro sorted_nth_mono) (auto simp: clamped_index)

text \<open>The median needs no rounding at all: its index is \<open>n div 2\<close>.\<close>

lemma half_lit: "f64_lit (1 / 2) = 1 / 2"
  unfolding f64_lit_def by (rule f64_rnd_grid [of _ "- 1" 1]) (simp_all add: power_int_minus)

lemma rank_half:
  assumes "0 < n" "n \<le> 2 ^ 53"
  shows "rank_idx n (1 / 2) = n div 2"
proof -
  have "f64_rnd (of_int (int n - 1)) = of_int (int n - 1)" using assms by (intro f64_rnd_int) auto
  moreover have "f64_rnd (of_int (int n)) = of_int (int n)" using assms by (intro f64_rnd_int) auto
  moreover have "f64_rnd (of_int (int n - 1) * (1 / 2)) = of_int (int n - 1) * (1 / 2)"
    using assms by (intro f64_rnd_grid [of _ "- 1" "int n - 1"]) (simp_all add: power_int_minus)
  moreover have "f64_round (of_int (int n - 1) * (1 / 2)) = int n div 2"
  proof -
    have "of_int (int n - 1) * (1 / 2) + 1 / 2 = (of_int (int n) / of_int 2 :: rat)"
      by (simp add: field_simps)
    then show ?thesis
      using assms by (simp add: f64_round_def floor_divide_of_int_eq del: of_int_numeral of_int_of_nat_eq)
  qed
  moreover have "of_int (int n) - (1 :: rat) = of_int (int n - 1)" by simp
  ultimately have "rank_idx n (1 / 2) = nat (min (2 ^ 64 - 1) (int n div 2))"
    by (simp only: rank_idx_round)
  also have "\<dots> = n div 2" using assms by (simp add: min_def nat_div_distrib)
  finally show ?thesis .
qed

text \<open>The 99th percentile of a hundred samples: \<open>99 * 0.99\<close> in double precision rounds to \<open>98\<close>.\<close>

lemma rank_99_of_100: "rank_idx 100 (f64_lit (99 / 100)) = 98"
proof -
  let ?q = "f64_lit (99 / 100)"
  have grid: "f64_rnd (1013 / 1024) = 1013 / 1024" "f64_rnd (1014 / 1024) = 1014 / 1024"
    "f64_rnd (391 / 4) = 391 / 4" "f64_rnd (393 / 4) = 393 / 4"
    using f64_rnd_grid [of "1013 / 1024" "- 10" 1013] f64_rnd_grid [of "1014 / 1024" "- 10" 1014]
      f64_rnd_grid [of "391 / 4" "- 2" 391] f64_rnd_grid [of "393 / 4" "- 2" 393] by (simp_all add: power_int_minus)
  have "1013 / 1024 \<le> ?q" "?q \<le> 1014 / 1024"
    using f64.rnd_mono [of "1013 / 1024" "99 / 100"] f64.rnd_mono [of "99 / 100" "1014 / 1024"] grid by (simp_all add: f64_lit_def)
  then have q: "391 / 4 \<le> 99 * ?q" "99 * ?q \<le> 393 / 4" by simp_all
  have int: "f64_rnd 100 = 100" "f64_rnd 99 = 99" using f64_rnd_int [of 100] f64_rnd_int [of 99] by simp_all
  let ?x = "f64_rnd (99 * ?q)"
  have "391 / 4 \<le> ?x" "?x \<le> 393 / 4" using f64.rnd_mono [OF q(1)] f64.rnd_mono [OF q(2)] grid by simp_all
  then have "f64_round ?x = 98" by (simp add: f64_round_def floor_eq_iff)
  then show ?thesis by (simp add: rank_idx_round int)
qed

section \<open>The socket thread\<close>

text \<open>One JSON line per record, as \<open>serve_client\<close> formats it.\<close>

definition format_record :: "frame_record \<Rightarrow> ustr" where
  "format_record rec =
     lit ''{\"ts\":'' @ show_dec (unat (host_ns rec)) @ lit '',\"frame\":'' @ show_dec (unat (frame_index rec))
     @ lit '',\"queue\":\"0x'' @ show_hex (unat (queue_id rec)) @ lit ''\",\"pid\":''
     @ show_dec (unat (fr_present_id rec)) @ lit '',\"latency_us\":'' @ show_dec (unat (latency_us rec))
     @ lit ''}'' @ [10]"

text \<open>
  Writing a batch: \<open>oks\<close> are the outcomes of the successive \<open>write_all\<close> calls; the first
  failure ends the connection. The result is the text written and whether to go on.
\<close>

fun write_batch :: "bool list \<Rightarrow> frame_record list \<Rightarrow> ustr list \<times> bool" where
  "write_batch oks [] = ([], True)"
| "write_batch [] (r # rs) = ([], False)"
| "write_batch (ok # oks) (r # rs) =
     (if ok then (let (out, go) = write_batch oks rs in (format_record r # out, go)) else ([], False))"

text \<open>
  One round of \<open>serve_client\<close> after its wait: nothing on stop, else the whole ring is
  drained (and emptied) and written. The waiting itself has no effect on the state.
\<close>

definition serve_round :: "bool list \<Rightarrow> socket_shared \<Rightarrow> socket_shared \<times> ustr list \<times> bool" where
  "serve_round oks s =
     (if sock_stop s then (s, [], False)
      else (let drained = ring s; (out, go) = write_batch oks drained in (s\<lparr>ring := []\<rparr>, out, go)))"

lemma write_batch_ok: "length rs \<le> length oks \<Longrightarrow> \<forall>b\<in>set oks. b \<Longrightarrow> write_batch oks rs = (map format_record rs, True)"
  by (induction oks rs rule: write_batch.induct) auto

section \<open>The statistics thread\<close>

text \<open>
  A latency source is a weak reference: \<open>None\<close> when its device is gone, else the samples
  it appends. A tick evicts the dead ones and concatenates the rest.
\<close>

definition gather_sources :: "u64 list option list \<Rightarrow> u64 list option list \<times> u64 list" where
  "gather_sources srcs = (filter (\<lambda>w. w \<noteq> None) srcs, concat (map the (filter (\<lambda>w. w \<noteq> None) srcs)))"

record snapshot =
  sn_frames :: u64
  sn_submits :: u64
  sn_injections :: u64
  sn_acquires :: u64
  sn_fps :: rat
  sn_p50 :: u64
  sn_p99 :: u64
  sn_samples :: nat

text \<open>One tick: \<open>last_frames\<close> is carried over; the frame delta wraps.\<close>

definition stats_tick ::
  "counters \<Rightarrow> u64 \<Rightarrow> u64 list option list \<Rightarrow> u64 \<Rightarrow> u64 \<times> u64 list option list \<times> snapshot" where
  "stats_tick c interval_s srcs last_frames =
     (let fr = frames c;
          fps = f64_div (f64_of_int (uint (fr - last_frames))) (f64_of_int (uint interval_s));
          (live, scratch) = gather_sources srcs;
          (p50, p99) = percentile_p50_p99 scratch
      in (fr, live, \<lparr>sn_frames = fr, sn_submits = submits c, sn_injections = injections c,
            sn_acquires = acquires c, sn_fps = fps, sn_p50 = p50, sn_p99 = p99,
            sn_samples = length scratch\<rparr>))"

text \<open>\<open>{:.3}\<close> of a non-negative double: three decimals, correctly rounded, ties to even.\<close>

definition show_fixed3 :: "rat \<Rightarrow> ustr" where
  "show_fixed3 x = (let n = nat (rne (x * 1000)); f = n mod 1000 in
     show_dec (n div 1000) @ lit ''.'' @ show_dec (f div 100) @ show_dec (f div 10 mod 10) @ show_dec (f mod 10))"

definition prom_line :: "string \<Rightarrow> ustr \<Rightarrow> ustr \<Rightarrow> ustr" where
  "prom_line name pid val = lit name @ lit ''{pid=\"'' @ pid @ lit ''\"} '' @ val @ [10]"

text \<open>The body \<open>write_prom_textfile\<close> writes to the temporary file before the rename.\<close>

definition prom_body :: "nat \<Rightarrow> snapshot \<Rightarrow> ustr" where
  "prom_body pid s =
     lit ''# HELP vkpace_frames_total Frames presented'' @ [10] @
     lit ''# TYPE vkpace_frames_total counter'' @ [10] @
     prom_line ''vkpace_frames_total'' (show_dec pid) (show_dec (unat (sn_frames s))) @
     prom_line ''vkpace_submits_total'' (show_dec pid) (show_dec (unat (sn_submits s))) @
     prom_line ''vkpace_injections_total'' (show_dec pid) (show_dec (unat (sn_injections s))) @
     prom_line ''vkpace_acquires_total'' (show_dec pid) (show_dec (unat (sn_acquires s))) @
     prom_line ''vkpace_recent_fps'' (show_dec pid) (show_fixed3 (sn_fps s)) @
     prom_line ''vkpace_latency_us_p50'' (show_dec pid) (show_dec (unat (sn_p50 s))) @
     prom_line ''vkpace_latency_us_p99'' (show_dec pid) (show_dec (unat (sn_p99 s))) @
     prom_line ''vkpace_latency_samples'' (show_dec pid) (show_dec (sn_samples s))"

section \<open>Properties\<close>

text \<open>
  With a socket configured the ring holds exactly the newest \<open>RING_CAPACITY\<close> records in
  the order they were pushed, whatever the number of pushes; without one, pushing is a
  no-op on the whole telemetry state.
\<close>

theorem telemetry_ring_keeps_newest:
  "telemetry_ring (fold push_record recs (telemetry_new (Some path))) = drop (length recs - RING_CAPACITY) recs
   \<and> fold push_record recs (telemetry_new None) = telemetry_new None"
proof -
  let ?s = "\<lparr>ring = [], sock_stop = False, socket_path = path\<rparr>"
  have "socket (fold push_record recs (telemetry_new (Some path))) = Some (fold ring_push recs ?s)"
    by (rule fold_push_record) (simp add: telemetry_new_def)
  then show ?thesis
    using tring.items_pushes [of ?s recs]
    by (simp add: telemetry_ring_def fold_push_record_off telemetry_new_def)
qed

text \<open>
  For a non-empty sample the reported p50 is the element of rank \<open>n div 2\<close> of the sorted
  sample, p99 is one of the samples and lies between p50 and the maximum; the result
  depends only on the multiset of samples. All of it in double arithmetic, including the
  index computation, for any sample shorter than \<open>2 ^ 53\<close>.
\<close>

theorem percentile_p50_p99_correct:
  assumes "samples \<noteq> []" and "length samples \<le> 2 ^ 53" and "mset samples' = mset samples"
  shows "fst (percentile_p50_p99 samples) = sort samples ! (length samples div 2)
    \<and> snd (percentile_p50_p99 samples) \<in> set samples
    \<and> fst (percentile_p50_p99 samples) \<le> snd (percentile_p50_p99 samples)
    \<and> snd (percentile_p50_p99 samples) \<le> Max (set samples)
    \<and> percentile_p50_p99 samples' = percentile_p50_p99 samples"
proof -
  let ?s = "sort samples"
  have ne: "?s \<noteq> []" using assms(1) by (metis length_sort length_0_conv)
  have len: "length ?s \<le> 2 ^ 53" using assms(2) by simp
  have "quantile ?s (f64_lit (1 / 2)) = ?s ! (length samples div 2)"
    using assms(1,2) rank_half [of "length samples"] by (simp add: quantile_def half_lit min_def)
  moreover have "quantile ?s (f64_lit (1 / 2)) \<le> quantile ?s (f64_lit (99 / 100))"
    using ne len by (intro quantile_mono) (simp_all add: lit_quantiles)
  moreover have "quantile ?s (f64_lit (99 / 100)) \<in> set samples" using quantile_mem [OF ne] by simp
  moreover have "percentile_p50_p99 samples' = percentile_p50_p99 samples"
  proof -
    have "sort samples' = ?s" using assms(3) by (intro properties_for_sort) simp_all
    moreover have "samples' \<noteq> []" using assms(1,3) by auto
    ultimately show ?thesis using assms(1) by (simp add: percentile_p50_p99_def)
  qed
  ultimately show ?thesis using assms(1) by (simp add: percentile_p50_p99_def Let_def)
qed

theorem percentile_p50_p99_correct_witness:
  "fst (percentile_p50_p99 [30, 10, 20]) = 20
   \<and> snd (percentile_p50_p99 [30, 10, 20]) \<le> 30"
  using percentile_p50_p99_correct [of "[30, 10, 20]" "[30, 10, 20]"] by simp

end
