(* ===== verification/WorkerLoop.thy ===== *)
theory WorkerLoop
  imports Prelude
begin

text \<open>
  The parked worker thread used by the timestamp pool (\<open>run_reaper\<close> of
  \<open>src/timestamp_pool.rs\<close>) and by the present-wait worker (\<open>run\<close> of \<open>src/present_wait.rs\<close>):
  a lock-free queue, a wake lock with a condition variable, a stop flag, and an owner whose
  destructor sets the flag, notifies and joins. Each access to a shared object is a step of
  its own. The interface \<open>fifo_worker\<close> states what every worker of the layer promises about
  the order of its items.
\<close>

section \<open>Interface: items are taken in the order they were pushed\<close>

locale fifo_worker =
  fixes step :: "'s \<Rightarrow> 's \<Rightarrow> bool"
    and pushed :: "'s \<Rightarrow> 'a list"
    and queued :: "'s \<Rightarrow> 'a list"
    and taken :: "'s \<Rightarrow> 'a list"
  assumes step_cases: "step s t \<Longrightarrow>
      (pushed t = pushed s \<and> queued t = queued s \<and> taken t = taken s)
    \<or> (\<exists>x. pushed t = pushed s @ [x] \<and> queued t = queued s @ [x] \<and> taken t = taken s)
    \<or> (\<exists>x. pushed t = pushed s \<and> queued s = x # queued t \<and> taken t = taken s @ [x])"
begin

lemma fifo_order:
  "rtranclp step s t \<Longrightarrow> pushed s = taken s @ queued s \<Longrightarrow> pushed t = taken t @ queued t"
proof (induction rule: rtranclp_induct)
  case (step t u)
  then show ?case using step_cases [OF step.hyps(2)] by auto
qed

lemma all_taken:
  "rtranclp step s t \<Longrightarrow> pushed s = taken s @ queued s \<Longrightarrow> queued t = [] \<Longrightarrow> taken t = pushed t"
  using fifo_order by fastforce

end

section \<open>The worker loop\<close>

text \<open>
  Program points of the worker. \<open>Deciding\<close>, \<open>DecidingStop\<close> and \<open>Parking\<close> hold the wake lock:
  they are between \<open>lock\<close> and the release inside \<open>wait\<close>.
\<close>

datatype worker_pc =
    Draining | CheckingStop | FinalDraining | Locking | Deciding | DecidingStop | Parking | Parked | Exited

datatype owner_pc = Running | StopSet | Joining | Joined

text \<open>
  \<open>owed\<close> counts producers between their push and their notification, \<open>budget\<close> the pushes the
  producers still make; \<open>pushed_log\<close> and \<open>taken_log\<close> are histories.
\<close>

record 'a worker =
  wqueue :: "'a list"
  pushed_log :: "'a list"
  taken_log :: "'a list"
  wpc :: worker_pc
  stop_flag :: bool
  owed :: nat
  budget :: nat
  owner :: owner_pc

definition worker_start :: "nat \<Rightarrow> 'a worker" where
  "worker_start n = \<lparr>wqueue = [], pushed_log = [], taken_log = [], wpc = Draining, stop_flag = False,
     owed = 0, budget = n, owner = Running\<rparr>"

definition holds_lock :: "worker_pc \<Rightarrow> bool" where
  "holds_lock pc \<longleftrightarrow> pc = Deciding \<or> pc = DecidingStop \<or> pc = Parking"

text \<open>A notification wakes a parked worker, which goes round its loop; otherwise it is lost.\<close>

definition wake_pc :: "worker_pc \<Rightarrow> worker_pc" where
  "wake_pc pc = (if pc = Parked then Draining else pc)"

text \<open>
  The worker's own steps. \<open>final\<close> says whether the loop drains once more after it has seen
  the stop flag: \<open>run_reaper\<close> does, \<open>run\<close> of the present-wait worker does not.
\<close>

fun worker_step :: "bool \<Rightarrow> 'a worker \<Rightarrow> 'a worker option" where
  "worker_step final s =
     (case wpc s of
        Draining \<Rightarrow>
          (case wqueue s of
             [] \<Rightarrow> Some (s\<lparr>wpc := CheckingStop\<rparr>)
           | x # rest \<Rightarrow> Some (s\<lparr>wqueue := rest, taken_log := taken_log s @ [x]\<rparr>))
      | CheckingStop \<Rightarrow>
          (if stop_flag s then Some (s\<lparr>wpc := (if final then FinalDraining else Exited)\<rparr>)
           else Some (s\<lparr>wpc := Locking\<rparr>))
      | FinalDraining \<Rightarrow>
          (case wqueue s of
             [] \<Rightarrow> Some (s\<lparr>wpc := Exited\<rparr>)
           | x # rest \<Rightarrow> Some (s\<lparr>wqueue := rest, taken_log := taken_log s @ [x]\<rparr>))
      | Locking \<Rightarrow> Some (s\<lparr>wpc := Deciding\<rparr>)
      | Deciding \<Rightarrow> Some (s\<lparr>wpc := (if wqueue s = [] then DecidingStop else Draining)\<rparr>)
      | DecidingStop \<Rightarrow> Some (s\<lparr>wpc := (if stop_flag s then Draining else Parking)\<rparr>)
      | Parking \<Rightarrow> Some (s\<lparr>wpc := Parked\<rparr>)
      | Parked \<Rightarrow> None
      | Exited \<Rightarrow> None)"

inductive loop_step :: "bool \<Rightarrow> 'a worker \<Rightarrow> 'a worker \<Rightarrow> bool" for final where
  work: "worker_step final s = Some t \<Longrightarrow> loop_step final s t"
| push: "budget s = Suc n \<Longrightarrow>
     loop_step final s (s\<lparr>wqueue := wqueue s @ [x], pushed_log := pushed_log s @ [x], budget := n, owed := Suc (owed s)\<rparr>)"
| notify: "owed s = Suc n \<Longrightarrow> \<not> holds_lock (wpc s) \<Longrightarrow>
     loop_step final s (s\<lparr>owed := n, wpc := wake_pc (wpc s)\<rparr>)"
| set_stop: "owner s = Running \<Longrightarrow> loop_step final s (s\<lparr>stop_flag := True, owner := StopSet\<rparr>)"
| notify_all: "owner s = StopSet \<Longrightarrow> loop_step final s (s\<lparr>wpc := wake_pc (wpc s), owner := Joining\<rparr>)"
| join: "owner s = Joining \<Longrightarrow> wpc s = Exited \<Longrightarrow> loop_step final s (s\<lparr>owner := Joined\<rparr>)"

inductive_simps loop_step_simps: "loop_step final s t"

interpretation wl: fifo_worker "loop_step final" pushed_log wqueue taken_log for final
proof unfold_locales
  fix s t :: "'a worker"
  assume "loop_step final s t"
  then show "(pushed_log t = pushed_log s \<and> wqueue t = wqueue s \<and> taken_log t = taken_log s)
    \<or> (\<exists>x. pushed_log t = pushed_log s @ [x] \<and> wqueue t = wqueue s @ [x] \<and> taken_log t = taken_log s)
    \<or> (\<exists>x. pushed_log t = pushed_log s \<and> wqueue s = x # wqueue t \<and> taken_log t = taken_log s @ [x])"
  proof cases
    case work
    then show ?thesis by (auto split: worker_pc.splits list.splits if_splits)
  qed auto
qed

section \<open>Invariants\<close>

definition worker_inv :: "'a worker \<Rightarrow> bool" where
  "worker_inv s \<longleftrightarrow>
     (wpc s \<in> {DecidingStop, Parking, Parked} \<and> wqueue s \<noteq> [] \<longrightarrow> 0 < owed s)
   \<and> (owner s \<noteq> Running \<longrightarrow> stop_flag s)"

lemma worker_start_inv: "worker_inv (worker_start n)"
  by (simp add: worker_inv_def worker_start_def)

lemma loop_step_inv: "loop_step final s t \<Longrightarrow> worker_inv s \<Longrightarrow> worker_inv t"
  by (erule loop_step.cases)
    (auto simp: worker_inv_def wake_pc_def holds_lock_def split: worker_pc.splits list.splits if_splits)

interpretation wli: invariant_system "loop_step final" worker_inv for final
  by unfold_locales (rule loop_step_inv)

fun pc_rank :: "worker_pc \<Rightarrow> nat" where
  "pc_rank Exited = 0"
| "pc_rank FinalDraining = 1"
| "pc_rank CheckingStop = 2"
| "pc_rank Draining = 3"
| "pc_rank DecidingStop = 4"
| "pc_rank Deciding = 5"
| "pc_rank Locking = 6"
| "pc_rank Parking = 7"
| "pc_rank Parked = 8"

lemma worker_step_progress:
  assumes "stop_flag s" and "wpc s \<notin> {Parking, Parked, Exited}"
  shows "\<exists>t. worker_step final s = Some t \<and> stop_flag t \<and> owner t = owner s \<and> wpc t \<notin> {Parking, Parked}
    \<and> length (wqueue t) + pc_rank (wpc t) < length (wqueue s) + pc_rank (wpc s)"
  using assms by (cases "wpc s") (simp_all split: list.split)

text \<open>Once the flag is set, a worker that is neither parked nor about to park exits by itself.\<close>

interpretation wld: winding_down "loop_step final" "\<lambda>s. stop_flag s \<and> wpc s \<notin> {Parking, Parked}" "\<lambda>s. wpc s = Exited"
    "\<lambda>s. length (wqueue s) + pc_rank (wpc s)" owner for final
  by unfold_locales (use worker_step_progress loop_step.work in blast)

section \<open>Properties\<close>

text \<open>
  C22. Items are processed in the order in which they were pushed, none twice and none
  skipped; and no wake-up is lost while the owner runs: a worker that sleeps with items
  queued still has a producer that owes it a notification.
\<close>

theorem worker_fifo_no_lost_wakeup:
  assumes "rtranclp (loop_step final) (worker_start n) s"
  shows "pushed_log s = taken_log s @ wqueue s
    \<and> (wpc s = Parked \<and> wqueue s \<noteq> [] \<longrightarrow> 0 < owed s)"
proof -
  have "pushed_log s = taken_log s @ wqueue s"
    using wl.fifo_order [OF assms] by (simp add: worker_start_def)
  moreover have "worker_inv s" using wli.steps_inv [OF assms worker_start_inv] .
  ultimately show ?thesis by (simp add: worker_inv_def)
qed

theorem worker_fifo_no_lost_wakeup_witness:
  "\<exists>s. rtranclp (loop_step True) (worker_start 1) s \<and> pushed_log s = [3 :: nat]
     \<and> pushed_log s = taken_log s @ wqueue s"
proof -
  let ?s = "(worker_start 1)\<lparr>wqueue := [3 :: nat], pushed_log := [3], budget := 0, owed := 1\<rparr>"
  have "loop_step True (worker_start 1) ?s"
    using loop_step.push [of "worker_start 1" 0 True 3] by (simp add: worker_start_def)
  then have r: "rtranclp (loop_step True) (worker_start 1) ?s" by blast
  show ?thesis using worker_fifo_no_lost_wakeup [OF r] r by auto
qed

text \<open>
  Shutdown completes when the owner's \<open>notify_all\<close> does not fall between the worker's
  last look at the stop flag and its \<open>wait\<close>: from every reachable state with the flag
  just set, the join can then return, whatever is queued.
\<close>

theorem shutdown_joins_outside_window:
  assumes "rtranclp (loop_step final) (worker_start n) s" and "owner s = StopSet" and "wpc s \<noteq> Parking"
  shows "\<exists>t. rtranclp (loop_step final) s t \<and> owner t = Joined \<and> wpc t = Exited"
proof -
  let ?s = "s\<lparr>wpc := wake_pc (wpc s), owner := Joining\<rparr>"
  have 1: "loop_step final s ?s" using assms(2) by (rule loop_step.notify_all)
  have "stop_flag s" using wli.steps_inv [OF assms(1) worker_start_inv] assms(2) by (simp add: worker_inv_def)
  moreover have pc: "wake_pc (wpc s) \<notin> {Parking, Parked}" using assms(3) by (simp add: wake_pc_def)
  ultimately obtain t where t: "rtranclp (loop_step final) ?s t" "wpc t = Exited" "owner t = Joining"
    using wld.winds_down [of ?s final] pc by auto
  have "loop_step final t (t\<lparr>owner := Joined\<rparr>)" using t(3,2) by (rule loop_step.join)
  then have "rtranclp (loop_step final) s (t\<lparr>owner := Joined\<rparr>)"
    using converse_rtranclp_into_rtranclp [of "loop_step final", OF 1] t(1) rtranclp.rtrancl_into_rtrancl
    by metis
  then show ?thesis using t(2) by (intro exI [of _ "t\<lparr>owner := Joined\<rparr>"]) simp
qed

theorem shutdown_joins_outside_window_witness:
  "\<exists>s t. rtranclp (loop_step True) (worker_start 0 :: nat worker) s \<and> owner s = StopSet
     \<and> rtranclp (loop_step True) s t \<and> owner t = Joined"
proof -
  let ?s = "(worker_start 0 :: nat worker)\<lparr>stop_flag := True, owner := StopSet\<rparr>"
  have "loop_step True (worker_start 0) ?s" by (rule loop_step.set_stop) (simp add: worker_start_def)
  then have r: "rtranclp (loop_step True) (worker_start 0) ?s" by blast
  have "wpc ?s \<noteq> Parking" "owner ?s = StopSet" by (simp_all add: worker_start_def)
  then show ?thesis using shutdown_joins_outside_window [OF r] r by metis
qed

text \<open>
  C23. Inside that window shutdown hangs: the stop flag is stored and \<open>notify_all\<close> called
  without the wake lock, so the notification can be lost; then the worker sleeps, the
  owner waits in \<open>join\<close>, and no step of any thread is left.
\<close>

theorem shutdown_can_hang:
  "\<exists>s :: 'a worker. rtranclp (loop_step final) (worker_start 0) s
     \<and> owner s = Joining \<and> stop_flag s \<and> wpc s = Parked \<and> (\<forall>t. \<not> loop_step final s t)"
proof -
  let ?a = "worker_start 0 :: 'a worker"
  let ?b = "?a\<lparr>wpc := Parking\<rparr>"
  let ?c = "?b\<lparr>stop_flag := True, owner := StopSet\<rparr>"
  let ?d = "?c\<lparr>wpc := wake_pc (wpc ?c), owner := Joining\<rparr>"
  let ?e = "?d\<lparr>wpc := Parked\<rparr>"
  have w: "loop_step final (?a\<lparr>wpc := x\<rparr>) (?a\<lparr>wpc := y\<rparr>)"
    if "(x, y) \<in> {(Draining, CheckingStop), (CheckingStop, Locking), (Locking, Deciding),
          (Deciding, DecidingStop), (DecidingStop, Parking)}" for x y
    using that by (intro loop_step.work) (auto simp: worker_start_def)
  have "?a = ?a\<lparr>wpc := Draining\<rparr>" by (simp add: worker_start_def)
  then have "rtranclp (loop_step final) ?a ?b"
    using w [of Draining CheckingStop] w [of CheckingStop Locking] w [of Locking Deciding]
      w [of Deciding DecidingStop] w [of DecidingStop Parking]
    by (metis insertI1 insertI2 rtranclp.rtrancl_into_rtrancl rtranclp.rtrancl_refl)
  moreover have "loop_step final ?b ?c" by (rule loop_step.set_stop) (simp add: worker_start_def)
  moreover have "loop_step final ?c ?d" by (rule loop_step.notify_all) simp
  moreover have "loop_step final ?d ?e" by (rule loop_step.work) (simp add: wake_pc_def)
  ultimately have "rtranclp (loop_step final) ?a ?e" by (meson rtranclp.rtrancl_into_rtrancl)
  moreover have "\<not> loop_step final ?e t" for t
    by (auto simp: loop_step_simps worker_start_def wake_pc_def)
  ultimately show ?thesis by (intro exI [of _ ?e]) (simp add: worker_start_def)
qed

end
