(* ===== verification/TelemetryThread.thy ===== *)
theory TelemetryThread
  imports "HOL-Library.Sublist" Telemetry WorkerLoop
begin

text \<open>
  The socket thread of the telemetry (\<open>run_socket\<close>, \<open>serve_client\<close>, \<open>push_record\<close> and \<open>Drop\<close> of
  \<open>src/telemetry.rs\<close>) among the threads that present: it accepts one client at a time, waits
  on the ring, drains it and writes its records one by one. Every record written to a client
  is in a history, per connection, and so is every record pushed; the theorems relate the
  two. Accepting, writing and their failures are choices of the environment.
\<close>

section \<open>The thread\<close>

text \<open>
  Program points. \<open>RingLocked\<close>, \<open>RingDeciding\<close> and \<open>RingParking\<close> hold the lock of the ring;
  \<open>Writing rs\<close> has the records still to be written of the batch it drained.
\<close>

datatype socket_pc =
    Binding | Accepting | ClientTop | RingLocked | RingParking | RingParked | RingDeciding
  | Writing "frame_record list" | SocketGone

record socket_thread =
  st_shared :: socket_shared
  st_pc :: socket_pc
  st_owner :: owner_pc
  st_owed :: nat
  st_pushed :: "frame_record list"
  st_written :: "frame_record list list"
  st_lost :: nat

definition socket_thread_start :: "ustr \<Rightarrow> socket_thread" where
  "socket_thread_start path = \<lparr>st_shared = \<lparr>ring = [], sock_stop = False, socket_path = path\<rparr>, st_pc = Binding,
     st_owner = Running, st_owed = 0, st_pushed = [], st_written = [], st_lost = 0\<rparr>"

definition ring_locked :: "socket_pc \<Rightarrow> bool" where
  "ring_locked pc \<longleftrightarrow> pc = RingLocked \<or> pc = RingParking \<or> pc = RingDeciding"

text \<open>Writing one more record to the client that is connected.\<close>

definition written :: "frame_record \<Rightarrow> frame_record list list \<Rightarrow> frame_record list list" where
  "written r conns = butlast conns @ [last conns @ [r]]"

inductive socket_work :: "socket_thread \<Rightarrow> socket_thread \<Rightarrow> bool" where
  bind_failed: "st_pc s = Binding \<Longrightarrow> socket_work s (s\<lparr>st_pc := SocketGone\<rparr>)"
| bound: "st_pc s = Binding \<Longrightarrow> socket_work s (s\<lparr>st_pc := Accepting\<rparr>)"
| stopped: "st_pc s = Accepting \<Longrightarrow> sock_stop (st_shared s) \<Longrightarrow> socket_work s (s\<lparr>st_pc := SocketGone\<rparr>)"
| accepted: "st_pc s = Accepting \<Longrightarrow> \<not> sock_stop (st_shared s) \<Longrightarrow>
     socket_work s (s\<lparr>st_pc := ClientTop, st_written := st_written s @ [[]]\<rparr>)"
| nobody: "st_pc s = Accepting \<Longrightarrow> \<not> sock_stop (st_shared s) \<Longrightarrow> socket_work s s"
| accept_failed: "st_pc s = Accepting \<Longrightarrow> \<not> sock_stop (st_shared s) \<Longrightarrow> socket_work s (s\<lparr>st_pc := SocketGone\<rparr>)"
| client_stopped: "st_pc s = ClientTop \<Longrightarrow> sock_stop (st_shared s) \<Longrightarrow> socket_work s (s\<lparr>st_pc := Accepting\<rparr>)"
| ring_lock: "st_pc s = ClientTop \<Longrightarrow> \<not> sock_stop (st_shared s) \<Longrightarrow> socket_work s (s\<lparr>st_pc := RingLocked\<rparr>)"
| must_wait: "st_pc s = RingLocked \<Longrightarrow> ring (st_shared s) = [] \<Longrightarrow> \<not> sock_stop (st_shared s) \<Longrightarrow>
     socket_work s (s\<lparr>st_pc := RingParking\<rparr>)"
| need_not_wait: "st_pc s = RingLocked \<Longrightarrow> ring (st_shared s) \<noteq> [] \<or> sock_stop (st_shared s) \<Longrightarrow>
     socket_work s (s\<lparr>st_pc := RingDeciding\<rparr>)"
| wait: "st_pc s = RingParking \<Longrightarrow> socket_work s (s\<lparr>st_pc := RingParked\<rparr>)"
| decide_stop: "st_pc s = RingDeciding \<Longrightarrow> sock_stop (st_shared s) \<Longrightarrow> socket_work s (s\<lparr>st_pc := Accepting\<rparr>)"
| drain: "st_pc s = RingDeciding \<Longrightarrow> \<not> sock_stop (st_shared s) \<Longrightarrow>
     socket_work s (s\<lparr>st_pc := Writing (ring (st_shared s)), st_shared := (st_shared s)\<lparr>ring := []\<rparr>\<rparr>)"
| write_ok: "st_pc s = Writing (r # rs) \<Longrightarrow>
     socket_work s (s\<lparr>st_pc := Writing rs, st_written := written r (st_written s)\<rparr>)"
| write_failed: "st_pc s = Writing (r # rs) \<Longrightarrow>
     socket_work s (s\<lparr>st_pc := Accepting, st_lost := st_lost s + length (r # rs)\<rparr>)"
| batch_written: "st_pc s = Writing [] \<Longrightarrow> socket_work s (s\<lparr>st_pc := ClientTop\<rparr>)"

text \<open>
  Presenting threads push under the lock of the ring and notify after they have released it;
  the destructor stores the flag and notifies without the lock.
\<close>

inductive socket_step :: "socket_thread \<Rightarrow> socket_thread \<Rightarrow> bool" where
  work: "socket_work s t \<Longrightarrow> socket_step s t"
| push: "st_owner s = Running \<Longrightarrow> \<not> ring_locked (st_pc s) \<Longrightarrow>
     socket_step s (s\<lparr>st_shared := ring_push rec (st_shared s), st_pushed := st_pushed s @ [rec], st_owed := Suc (st_owed s),
       st_lost := st_lost s + (if length (ring (st_shared s)) = RING_CAPACITY then 1 else 0)\<rparr>)"
| notify: "st_owed s = Suc n \<Longrightarrow>
     socket_step s (s\<lparr>st_owed := n, st_pc := (if st_pc s = RingParked then RingLocked else st_pc s)\<rparr>)"
| set_stop: "st_owner s = Running \<Longrightarrow> socket_step s (s\<lparr>st_shared := (st_shared s)\<lparr>sock_stop := True\<rparr>, st_owner := StopSet\<rparr>)"
| notify_all: "st_owner s = StopSet \<Longrightarrow>
     socket_step s (s\<lparr>st_pc := (if st_pc s = RingParked then RingLocked else st_pc s), st_owner := Joining\<rparr>)"
| join: "st_owner s = Joining \<Longrightarrow> st_pc s = SocketGone \<Longrightarrow> socket_step s (s\<lparr>st_owner := Joined\<rparr>)"

section \<open>Invariant\<close>

fun batch_of :: "socket_pc \<Rightarrow> frame_record list" where
  "batch_of (Writing rs) = rs"
| "batch_of pc = []"

definition connected_pc :: "socket_pc \<Rightarrow> bool" where
  "connected_pc pc \<longleftrightarrow> pc \<noteq> Binding \<and> pc \<noteq> Accepting \<and> pc \<noteq> SocketGone"

text \<open>
  What was written, what is being written and what waits are, in this order, a subsequence of
  what was pushed, and all of it if nothing was lost; the ring is bounded; a thread that
  sleeps over a ring that is not empty is owed a notification.
\<close>

definition in_flight :: "socket_thread \<Rightarrow> frame_record list" where
  "in_flight s = concat (st_written s) @ batch_of (st_pc s) @ ring (st_shared s)"

definition socket_inv :: "socket_thread \<Rightarrow> bool" where
  "socket_inv s \<longleftrightarrow> subseq (in_flight s) (st_pushed s) \<and> (st_lost s = 0 \<longrightarrow> in_flight s = st_pushed s)
     \<and> length (st_pushed s) = length (in_flight s) + st_lost s
     \<and> length (ring (st_shared s)) \<le> RING_CAPACITY
     \<and> (connected_pc (st_pc s) \<longrightarrow> st_written s \<noteq> [])
     \<and> (st_pc s = RingParking \<longrightarrow> ring (st_shared s) = [])
     \<and> (st_pc s = RingParked \<and> ring (st_shared s) \<noteq> [] \<longrightarrow> 0 < st_owed s)
     \<and> (st_owner s \<noteq> Running \<longrightarrow> sock_stop (st_shared s))"

lemma concat_written: "conns \<noteq> [] \<Longrightarrow> concat (written r conns) = concat conns @ [r]"
  by (induction conns rule: rev_induct) (simp_all add: written_def)

lemma written_nonempty [simp]: "written r conns \<noteq> []"
  by (simp add: written_def)

lemma ring_push_fields [simp]:
  "sock_stop (ring_push rec s) = sock_stop s"
  "ring (ring_push rec s) = (if length (ring s) = RING_CAPACITY then tl (ring s) else ring s) @ [rec]"
  by (simp_all add: ring_push_def Let_def)

lemma subseq_tl: "subseq (as @ bs) xs \<Longrightarrow> subseq (as @ tl bs) xs"
proof -
  have "subseq (tl bs) bs" by (cases bs) auto
  then have "subseq (as @ tl bs) (as @ bs)" by (intro list_emb_append_mono) auto
  then show "subseq (as @ bs) xs \<Longrightarrow> ?thesis" by (rule subseq_order.order_trans)
qed

lemma socket_work_inv: "socket_work s t \<Longrightarrow> socket_inv s \<Longrightarrow> socket_inv t"
proof (induction rule: socket_work.induct)
  case (write_ok s r rs)
  then show ?case by (simp add: socket_inv_def in_flight_def connected_pc_def concat_written)
next
  case (write_failed s r rs)
  have "subseq (concat (st_written s) @ ring (st_shared s)) (concat (st_written s) @ (r # rs) @ ring (st_shared s))"
    by (intro subseq_append_iff [THEN iffD2]) (auto intro: list_emb_append2)
  then have "subseq (concat (st_written s) @ ring (st_shared s)) (st_pushed s)"
    using write_failed by (auto simp: socket_inv_def in_flight_def intro: subseq_order.order_trans)
  then show ?case using write_failed by (simp add: socket_inv_def in_flight_def connected_pc_def)
qed (auto simp: socket_inv_def in_flight_def connected_pc_def)

lemma socket_step_inv: "socket_step s t \<Longrightarrow> socket_inv s \<Longrightarrow> socket_inv t"
proof (induction rule: socket_step.induct)
  case (work s t)
  then show ?case by (rule socket_work_inv)
next
  case (push s rec)
  let ?r = "ring (st_shared s)" and ?w = "concat (st_written s) @ batch_of (st_pc s)"
  have s: "subseq (?w @ ?r) (st_pushed s)" using push by (simp add: socket_inv_def in_flight_def)
  have "subseq ((?w @ (if length ?r = RING_CAPACITY then tl ?r else ?r)) @ [rec]) (st_pushed s @ [rec])"
    using s subseq_tl [OF s] by (intro list_emb_append_mono) auto
  moreover have "0 < RING_CAPACITY" by (simp add: RING_CAPACITY_def)
  ultimately show ?case using push
    by (auto simp: socket_inv_def in_flight_def ring_locked_def connected_pc_def)
next
  case (notify s n)
  then show ?case by (auto simp: socket_inv_def in_flight_def connected_pc_def)
next
  case (notify_all s)
  then show ?case by (auto simp: socket_inv_def in_flight_def connected_pc_def)
qed (auto simp: socket_inv_def in_flight_def connected_pc_def)

interpretation sti: invariant_system socket_step socket_inv
  by unfold_locales (rule socket_step_inv)

lemma socket_thread_reach: "rtranclp socket_step (socket_thread_start path) s \<Longrightarrow> socket_inv s"
  using sti.steps_inv [of "socket_thread_start path" s]
  by (simp add: socket_inv_def in_flight_def connected_pc_def socket_thread_start_def)

section \<open>Properties\<close>

text \<open>
  C13. The telemetry stream is faithful: in every interleaving, the records written to the
  clients, connection after connection, are a subsequence of the records pushed, in their
  order and none twice; every record pushed is written, about to be written, in the ring or
  counted as lost, which happens only when the ring is full or a client fails; with no loss
  the stream is complete; and a thread that sleeps over records is owed a notification.
\<close>

theorem telemetry_stream_in_order:
  assumes "rtranclp socket_step (socket_thread_start path) s"
  shows "subseq (concat (st_written s)) (st_pushed s)
    \<and> length (st_pushed s) = length (concat (st_written s)) + length (batch_of (st_pc s)) + length (ring (st_shared s)) + st_lost s
    \<and> (st_lost s = 0 \<longrightarrow> st_pushed s = concat (st_written s) @ batch_of (st_pc s) @ ring (st_shared s))
    \<and> (st_pc s = RingParked \<and> ring (st_shared s) \<noteq> [] \<longrightarrow> 0 < st_owed s)"
proof -
  have inv: "socket_inv s" using assms by (rule socket_thread_reach)
  have "subseq (concat (st_written s)) (in_flight s)" by (auto simp: in_flight_def intro: list_emb_append2)
  then have "subseq (concat (st_written s)) (st_pushed s)"
    using inv by (auto simp: socket_inv_def intro: subseq_order.order_trans)
  then show ?thesis using inv by (simp add: socket_inv_def in_flight_def)
qed

lemma connection_in_order:
  assumes "rtranclp socket_step (socket_thread_start path) s" and "c \<in> set (st_written s)"
  shows "subseq c (st_pushed s)"
proof -
  have inv: "socket_inv s" using assms(1) by (rule socket_thread_reach)
  obtain as bs where "st_written s = as @ c # bs" using assms(2) by (meson split_list)
  then have "subseq c (in_flight s)" by (auto simp: in_flight_def intro: list_emb_append2)
  then show ?thesis using inv by (auto simp: socket_inv_def intro: subseq_order.order_trans)
qed

text \<open>A run: a client connects, a record is pushed and written.\<close>

definition example_record :: frame_record where
  "example_record = \<lparr>host_ns = 700, frame_index = 3, queue_id = 0x2A, fr_present_id = 9, latency_us = 5200\<rparr>"

lemma example_stream:
  "\<exists>s. rtranclp socket_step (socket_thread_start path) s \<and> st_written s = [[example_record]] \<and> st_pushed s = [example_record]"
proof -
  let ?a = "socket_thread_start path"
  let ?b = "?a\<lparr>st_pc := Accepting\<rparr>"
  let ?c = "?b\<lparr>st_pc := ClientTop, st_written := st_written ?b @ [[]]\<rparr>"
  let ?d = "?c\<lparr>st_shared := ring_push example_record (st_shared ?c), st_pushed := st_pushed ?c @ [example_record],
    st_owed := Suc (st_owed ?c), st_lost := st_lost ?c + (if length (ring (st_shared ?c)) = RING_CAPACITY then 1 else 0)\<rparr>"
  let ?e = "?d\<lparr>st_pc := RingLocked\<rparr>"
  let ?f = "?e\<lparr>st_pc := RingDeciding\<rparr>"
  let ?g = "?f\<lparr>st_pc := Writing (ring (st_shared ?f)), st_shared := (st_shared ?f)\<lparr>ring := []\<rparr>\<rparr>"
  let ?h = "?g\<lparr>st_pc := Writing [], st_written := written example_record (st_written ?g)\<rparr>"
  have "socket_step ?a ?b" by (rule socket_step.work, rule bound) (simp add: socket_thread_start_def)
  moreover have "socket_step ?b ?c" by (rule socket_step.work, rule accepted) (simp_all add: socket_thread_start_def)
  moreover have "socket_step ?c ?d" by (rule socket_step.push) (simp_all add: socket_thread_start_def ring_locked_def)
  moreover have "socket_step ?d ?e" by (rule socket_step.work, rule ring_lock) (simp_all add: socket_thread_start_def)
  moreover have "socket_step ?e ?f" by (rule socket_step.work, rule need_not_wait) simp_all
  moreover have "socket_step ?f ?g" by (rule socket_step.work, rule drain) (simp_all add: socket_thread_start_def)
  moreover have "socket_step ?g ?h"
    by (rule socket_step.work, rule write_ok) (simp add: socket_thread_start_def RING_CAPACITY_def)
  ultimately have "rtranclp socket_step ?a ?h" by (meson rtranclp.rtrancl_refl rtranclp.rtrancl_into_rtrancl)
  then show ?thesis by (intro exI [of _ ?h]) (simp add: socket_thread_start_def written_def)
qed

theorem telemetry_stream_in_order_witness:
  "\<exists>s. rtranclp socket_step (socket_thread_start (lit ''/tmp/v.sock'')) s \<and> st_written s = [[example_record]]
     \<and> subseq (concat (st_written s)) (st_pushed s)"
proof -
  obtain s where s: "rtranclp socket_step (socket_thread_start (lit ''/tmp/v.sock'')) s" "st_written s = [[example_record]]"
    using example_stream by blast
  then show ?thesis using telemetry_stream_in_order [OF s(1)] by blast
qed

end
