(* ===== verification/Clock.thy ===== *)
theory Clock
  imports F64
begin

text \<open>
  The device clock of \<open>src/clock.rs\<close>: the anchor pair, its refresh from the driver, the
  calibration loop and the conversion of GPU ticks to host nanoseconds in double and 128-bit
  arithmetic. The driver's \<open>vkGetCalibratedTimestampsKHR\<close> is an argument.
\<close>

section \<open>Anchor\<close>

record anchor =
  host_ns :: u64
  device_ticks :: u64

definition anchor_default :: anchor where
  "anchor_default = \<lparr>host_ns = 0, device_ticks = 0\<rparr>"

text \<open>The entry point, when loaded, answers its result and the device and host values.\<close>

type_synonym calibrated_ts = "(vk_result \<times> u64 \<times> u64) option"

definition refresh_anchor :: "calibrated_ts \<Rightarrow> anchor \<Rightarrow> (vk_result + unit) \<times> anchor" where
  "refresh_anchor get_ts a =
     (case get_ts of
        None \<Rightarrow> (Inl ERROR_EXTENSION_NOT_PRESENT, a)
      | Some (r, device, host) \<Rightarrow>
          if r \<noteq> SUCCESS then (Inl r, a) else (Inr (), \<lparr>host_ns = host, device_ticks = device\<rparr>))"

record device_clock =
  period_ns :: rat
  clock_anchor :: anchor

definition device_clock_new :: "calibrated_ts \<Rightarrow> rat \<Rightarrow> device_clock option" where
  "device_clock_new get_ts period =
     (case get_ts of
        None \<Rightarrow> None
      | Some _ \<Rightarrow> Some \<lparr>period_ns = period, clock_anchor = snd (refresh_anchor get_ts anchor_default)\<rparr>)"

text \<open>One turn of the calibration loop: the two reads of the stop flag and the driver's answer.\<close>

record calibration_turn =
  stop_before :: bool
  stop_after :: bool
  turn_ts :: calibrated_ts

fun calibration_loop :: "calibration_turn list \<Rightarrow> anchor \<Rightarrow> anchor" where
  "calibration_loop [] a = a"
| "calibration_loop (t # ts) a =
     (if stop_before t then a
      else if stop_after t then a
      else calibration_loop ts (snd (refresh_anchor (turn_ts t) a)))"

text \<open>\<open>DeviceClock::now\<close>: seconds and nanoseconds of the timespec, in 64 bits.\<close>

definition now_of :: "u64 \<Rightarrow> u64 \<Rightarrow> u64" where
  "now_of tv_sec tv_nsec = tv_sec * 1000000000 + tv_nsec"

section \<open>Conversion\<close>

definition wrap_i128 :: "int \<Rightarrow> int" where
  "wrap_i128 x = (x + 2 ^ 127) mod 2 ^ 128 - 2 ^ 127"

definition ticks_to_host_ns :: "device_clock \<Rightarrow> u64 \<Rightarrow> u64" where
  "ticks_to_host_ns c ticks =
     (let a = clock_anchor c;
          diff = uint ticks - uint (device_ticks a);
          diff_ns = f64_as_i128 (of_int (f64_round (f64_mul (f64_of_int diff) (period_ns c))))
      in word_of_int (max (wrap_i128 (uint (host_ns a) + diff_ns)) 0))"

lemma as_i128_of_int: "f64_as_i128 (of_int n) = max (- (2 ^ 127)) (min (2 ^ 127 - 1) n)"
  by (simp add: f64_as_i128_def)

definition diff_ns :: "device_clock \<Rightarrow> u64 \<Rightarrow> int" where
  "diff_ns c ticks = f64_as_i128 (of_int (f64_round (f64_mul (f64_of_int (uint ticks - uint (device_ticks (clock_anchor c)))) (period_ns c))))"

text \<open>When the sum fits, the result is the clamped sum.\<close>

lemma ticks_to_host_value:
  assumes "uint (host_ns (clock_anchor c)) + diff_ns c ticks < 2 ^ 64"
  shows "uint (ticks_to_host_ns c ticks) = max 0 (uint (host_ns (clock_anchor c)) + diff_ns c ticks)"
proof -
  let ?s = "uint (host_ns (clock_anchor c)) + diff_ns c ticks"
  have lo: "- (2 ^ 127) \<le> diff_ns c ticks" by (simp add: diff_ns_def as_i128_of_int)
  have "0 \<le> uint (host_ns (clock_anchor c))" by simp
  moreover have "(2 :: int) ^ 64 + 2 ^ 127 \<le> 2 ^ 128" by simp
  ultimately have "0 \<le> ?s + 2 ^ 127" "?s + 2 ^ 127 < 2 ^ 128" using lo assms by linarith+
  then have w: "wrap_i128 ?s = ?s" by (simp only: wrap_i128_def mod_pos_pos_trivial)
  have "0 \<le> max ?s 0" "max ?s 0 < 2 ^ 64" using assms by auto
  then have "uint (word_of_int (max ?s 0) :: u64) = max ?s 0"
    by (simp add: uint_word_of_int)
  then show ?thesis using w by (simp add: ticks_to_host_ns_def diff_ns_def [symmetric] Let_def max.commute)
qed

lemma diff_ns_mono:
  assumes "0 \<le> period_ns c" and "t1 \<le> t2"
  shows "diff_ns c t1 \<le> diff_ns c t2"
proof -
  let ?d = "\<lambda>t. uint t - uint (device_ticks (clock_anchor c))"
  have "?d t1 \<le> ?d t2" using assms(2) by (simp add: word_le_def)
  then have "f64_of_int (?d t1) \<le> f64_of_int (?d t2)" unfolding f64_of_int_def
    by (intro f64.rnd_mono) (simp only: of_int_le_iff)
  then have "f64_mul (f64_of_int (?d t1)) (period_ns c) \<le> f64_mul (f64_of_int (?d t2)) (period_ns c)"
    using assms(1) by (simp add: f64_mul_def f64.rnd_mono mult_right_mono)
  then have "f64_round (f64_mul (f64_of_int (?d t1)) (period_ns c)) \<le> f64_round (f64_mul (f64_of_int (?d t2)) (period_ns c))"
    by (rule f64_round_mono)
  then show ?thesis by (simp add: diff_ns_def as_i128_of_int)
qed

lemma diff_ns_at_anchor: "diff_ns c (device_ticks (clock_anchor c)) = 0"
  using f64_round_int [of 0] as_i128_of_int [of 0] by (simp add: diff_ns_def f64_of_int_def f64_mul_def)

section \<open>Properties\<close>

text \<open>
  The conversion is anchored and monotone: the anchor's ticks give the anchor's host
  time; with a non-negative period later ticks never give an earlier host time, in double
  arithmetic with rounding, as long as the later result fits in 64 bits; and ticks before
  the anchor never give a time after it, nor a negative one.
\<close>

theorem ticks_to_host_monotone:
  assumes "0 \<le> period_ns c" and "t1 \<le> t2"
    and "uint (host_ns (clock_anchor c)) + diff_ns c t2 < 2 ^ 64"
  shows "ticks_to_host_ns c t1 \<le> ticks_to_host_ns c t2
    \<and> ticks_to_host_ns c (device_ticks (clock_anchor c)) = host_ns (clock_anchor c)
    \<and> (t2 \<le> device_ticks (clock_anchor c) \<longrightarrow> ticks_to_host_ns c t2 \<le> host_ns (clock_anchor c))"
proof -
  note m = diff_ns_mono [OF assms(1)]
  have fit1: "uint (host_ns (clock_anchor c)) + diff_ns c t1 < 2 ^ 64" using m [OF assms(2)] assms(3) by simp
  have a: "uint (ticks_to_host_ns c (device_ticks (clock_anchor c))) = uint (host_ns (clock_anchor c))"
    using ticks_to_host_value [of c "device_ticks (clock_anchor c)"] uint_lt2p [of "host_ns (clock_anchor c)"]
    by (simp add: diff_ns_at_anchor)
  have "ticks_to_host_ns c t1 \<le> ticks_to_host_ns c t2"
    using ticks_to_host_value [OF fit1] ticks_to_host_value [OF assms(3)] m [OF assms(2)]
    by (simp add: word_le_def)
  moreover have "ticks_to_host_ns c t2 \<le> host_ns (clock_anchor c)" if "t2 \<le> device_ticks (clock_anchor c)"
    using ticks_to_host_value [OF assms(3)] m [OF that] by (simp add: word_le_def diff_ns_at_anchor)
  ultimately show ?thesis using a by (simp add: word_uint_eq_iff)
qed

theorem ticks_to_host_monotone_witness:
  "\<exists>c. device_clock_new (Some (SUCCESS, 100, 5000)) 1 = Some c
     \<and> ticks_to_host_ns c 90 \<le> ticks_to_host_ns c 120 \<and> ticks_to_host_ns c 100 = 5000"
proof -
  let ?c = "\<lparr>period_ns = 1, clock_anchor = \<lparr>host_ns = 5000, device_ticks = 100\<rparr>\<rparr>"
  have n: "device_clock_new (Some (SUCCESS, 100, 5000)) 1 = Some ?c"
    by (simp add: device_clock_new_def refresh_anchor_def)
  have "f64_rnd 20 = 20" using f64_rnd_int [of 20] by simp
  then have "diff_ns ?c 120 = 20"
    using f64_round_int [of 20] f64_trunc_int [of 20]
    by (simp add: diff_ns_def f64_of_int_def f64_mul_def f64_as_i128_def)
  then show ?thesis using ticks_to_host_monotone [of ?c 90 120] n by auto
qed

text \<open>
  Calibration: whatever the driver answers, the anchor is always one complete
  answer of the driver (or the initial anchor), never a mix of two; a failed or missing
  answer leaves it unchanged, and nothing changes after the stop flag is seen.
\<close>

theorem calibration_anchor_is_an_answer:
  "calibration_loop ts a = a \<or> (\<exists>t d h. t \<in> set ts \<and> \<not> stop_before t \<and> \<not> stop_after t
     \<and> turn_ts t = Some (SUCCESS, d, h) \<and> calibration_loop ts a = \<lparr>host_ns = h, device_ticks = d\<rparr>)"
proof (induction ts arbitrary: a)
  case (Cons t ts)
  show ?case
  proof (cases "stop_before t \<or> stop_after t \<or> snd (refresh_anchor (turn_ts t) a) = a")
    case True
    then show ?thesis using Cons.IH [of a] by auto
  next
    case False
    then obtain d h where dh: "turn_ts t = Some (SUCCESS, d, h)"
        "snd (refresh_anchor (turn_ts t) a) = \<lparr>host_ns = h, device_ticks = d\<rparr>"
      by (auto simp: refresh_anchor_def split: option.splits if_splits)
    then show ?thesis using False Cons.IH [of "\<lparr>host_ns = h, device_ticks = d\<rparr>"] by auto
  qed
qed simp

end
