(* ===== verification/TimedWorker.thy ===== *)
theory TimedWorker
  imports Clock Telemetry WorkerLoop
begin

text \<open>
  The two periodic threads of the layer: \<open>calibration_loop\<close> of \<open>src/clock.rs\<close> and \<open>run_stats\<close>
  of \<open>src/telemetry.rs\<close>, each with the destructor that stops it. They have the same loop: look
  at the stop flag, take the wake lock, wait for a notification but no longer than a period,
  look again, do one turn. The loop is modelled once over any turn; because its wait is timed,
  a lost notification only delays its end.
\<close>

section \<open>The loop\<close>

text \<open>\<open>AtLock\<close> is the point between taking the wake lock and waiting on it.\<close>

datatype timed_pc = AtTop | AtLock | Asleep | Awake | InTurn | HasLeft

record 'a timed =
  tw_shared :: 'a
  tw_pc :: timed_pc
  tw_stop :: bool
  tw_owner :: owner_pc

definition timed_start :: "'a \<Rightarrow> 'a timed" where
  "timed_start a = \<lparr>tw_shared = a, tw_pc = AtTop, tw_stop = False, tw_owner = Running\<rparr>"

inductive timed_work :: "('a \<Rightarrow> 'a \<Rightarrow> bool) \<Rightarrow> 'a timed \<Rightarrow> 'a timed \<Rightarrow> bool" for turn where
  top_stop: "tw_pc s = AtTop \<Longrightarrow> tw_stop s \<Longrightarrow> timed_work turn s (s\<lparr>tw_pc := HasLeft\<rparr>)"
| lock: "tw_pc s = AtTop \<Longrightarrow> \<not> tw_stop s \<Longrightarrow> timed_work turn s (s\<lparr>tw_pc := AtLock\<rparr>)"
| wait_for: "tw_pc s = AtLock \<Longrightarrow> timed_work turn s (s\<lparr>tw_pc := Asleep\<rparr>)"
| timeout: "tw_pc s = Asleep \<Longrightarrow> timed_work turn s (s\<lparr>tw_pc := Awake\<rparr>)"
| awake_stop: "tw_pc s = Awake \<Longrightarrow> tw_stop s \<Longrightarrow> timed_work turn s (s\<lparr>tw_pc := HasLeft\<rparr>)"
| awake: "tw_pc s = Awake \<Longrightarrow> \<not> tw_stop s \<Longrightarrow> timed_work turn s (s\<lparr>tw_pc := InTurn\<rparr>)"
| turn: "tw_pc s = InTurn \<Longrightarrow> turn (tw_shared s) a \<Longrightarrow> timed_work turn s (s\<lparr>tw_pc := AtTop, tw_shared := a\<rparr>)"

text \<open>The destructor notifies without the lock, so the notification may find nobody waiting.\<close>

inductive timed_loop :: "('a \<Rightarrow> 'a \<Rightarrow> bool) \<Rightarrow> ('a \<Rightarrow> 'a \<Rightarrow> bool) \<Rightarrow> 'a timed \<Rightarrow> 'a timed \<Rightarrow> bool" for turn env where
  work: "timed_work turn s t \<Longrightarrow> timed_loop turn env s t"
| others: "env (tw_shared s) a \<Longrightarrow> timed_loop turn env s (s\<lparr>tw_shared := a\<rparr>)"
| set_stop: "tw_owner s = Running \<Longrightarrow> timed_loop turn env s (s\<lparr>tw_stop := True, tw_owner := StopSet\<rparr>)"
| notify_all: "tw_owner s = StopSet \<Longrightarrow>
     timed_loop turn env s (s\<lparr>tw_pc := (if tw_pc s = Asleep then Awake else tw_pc s), tw_owner := Joining\<rparr>)"
| join: "tw_owner s = Joining \<Longrightarrow> tw_pc s = HasLeft \<Longrightarrow> timed_loop turn env s (s\<lparr>tw_owner := Joined\<rparr>)"

text \<open>Steps the worker has left once the flag is set.\<close>

fun timed_left :: "timed_pc \<Rightarrow> nat" where
  "timed_left AtTop = 1"
| "timed_left AtLock = 3"
| "timed_left Asleep = 2"
| "timed_left Awake = 1"
| "timed_left InTurn = 2"
| "timed_left HasLeft = 0"

section \<open>Interface: a turn that always ends, an invariant of the shared data\<close>

locale timed_worker =
  fixes turn env :: "'a \<Rightarrow> 'a \<Rightarrow> bool"
    and shared_inv :: "'a \<Rightarrow> bool"
  assumes turn_ends: "\<exists>b. turn a b"
    and turn_inv: "turn a b \<Longrightarrow> shared_inv a \<Longrightarrow> shared_inv b"
    and env_inv: "env a b \<Longrightarrow> shared_inv a \<Longrightarrow> shared_inv b"
begin

lemma loop_inv: "timed_loop turn env s t \<Longrightarrow> shared_inv (tw_shared s) \<Longrightarrow> shared_inv (tw_shared t)"
  by (erule timed_loop.cases) (auto elim!: timed_work.cases intro: turn_inv env_inv)

lemma reach_inv: "rtranclp (timed_loop turn env) (timed_start a) s \<Longrightarrow> shared_inv a \<Longrightarrow> shared_inv (tw_shared s)"
  by (induction rule: rtranclp_induct) (auto simp: timed_start_def intro: loop_inv)

lemma work_counts: "timed_work turn s t \<Longrightarrow> tw_stop s \<Longrightarrow> tw_stop t \<and> timed_left (tw_pc s) = Suc (timed_left (tw_pc t))"
  by (erule timed_work.cases) auto

lemma work_continues: "tw_pc s \<noteq> HasLeft \<Longrightarrow> tw_stop s \<Longrightarrow> \<exists>t. timed_work turn s t"
  using turn_ends [of "tw_shared s"] by (cases "tw_pc s") (auto intro: timed_work.intros)

lemma leaves_within_three:
  assumes "tw_stop s"
  shows "timed_left (tw_pc s) \<le> 3 \<and> (\<exists>t. (timed_work turn ^^ timed_left (tw_pc s)) s t \<and> tw_pc t = HasLeft)"
proof
  show "timed_left (tw_pc s) \<le> 3" by (cases "tw_pc s") simp_all
  show "\<exists>t. (timed_work turn ^^ timed_left (tw_pc s)) s t \<and> tw_pc t = HasLeft"
    using assms
  proof (induction "timed_left (tw_pc s)" arbitrary: s)
    case 0
    then show ?case by (cases "tw_pc s") auto
  next
    case (Suc n)
    have "tw_pc s \<noteq> HasLeft" using Suc.hyps(2) by auto
    then obtain u where u: "timed_work turn s u" using work_continues Suc.prems by blast
    then have "n = timed_left (tw_pc u)" "tw_stop u" using work_counts Suc.prems Suc.hyps(2) by auto
    then obtain t where "(timed_work turn ^^ n) u t" "tw_pc t = HasLeft" using Suc.hyps(1) by blast
    then show ?case using u Suc.hyps(2) by (metis relpowp_Suc_I2)
  qed
qed

end

section \<open>The calibration thread\<close>

text \<open>The anchor of the clock, with the answers of the driver as history.\<close>

record clock_shared =
  ck_anchor :: anchor
  ck_answers :: "calibrated_ts list"

inductive clock_turn :: "clock_shared \<Rightarrow> clock_shared \<Rightarrow> bool" where
  "clock_turn c (c\<lparr>ck_anchor := snd (refresh_anchor answer (ck_anchor c)), ck_answers := ck_answers c @ [answer]\<rparr>)"

text \<open>The threads that convert timestamps only read the anchor.\<close>

definition clock_env :: "clock_shared \<Rightarrow> clock_shared \<Rightarrow> bool" where
  "clock_env c c' \<longleftrightarrow> c' = c"

definition clock_shared_new :: "device_clock \<Rightarrow> clock_shared" where
  "clock_shared_new c = \<lparr>ck_anchor = clock_anchor c, ck_answers = []\<rparr>"

text \<open>The newest complete answer, or the anchor at the start.\<close>

definition anchor_of :: "calibrated_ts \<Rightarrow> anchor option" where
  "anchor_of answer = (case answer of Some (r, d, h) \<Rightarrow> if r = SUCCESS then Some \<lparr>anchor.host_ns = h, device_ticks = d\<rparr> else None | None \<Rightarrow> None)"

definition newest_answer :: "anchor \<Rightarrow> calibrated_ts list \<Rightarrow> anchor" where
  "newest_answer a answers = last (a # List.map_filter anchor_of answers)"

lemma newest_answer_append:
  "newest_answer a (answers @ [x]) = (case anchor_of x of None \<Rightarrow> newest_answer a answers | Some b \<Rightarrow> b)"
  by (simp add: newest_answer_def List.map_filter_def split: option.split)

lemma refresh_anchor_of: "snd (refresh_anchor x a) = (case anchor_of x of None \<Rightarrow> a | Some b \<Rightarrow> b)"
  by (auto simp: refresh_anchor_def anchor_of_def split: option.split)

interpretation cw: timed_worker clock_turn clock_env "\<lambda>c. ck_anchor c = newest_answer a (ck_answers c)" for a
proof unfold_locales
  show "\<exists>b. clock_turn c b" for c by (blast intro: clock_turn.intros)
qed (auto simp: clock_env_def newest_answer_append refresh_anchor_of elim!: clock_turn.cases split: option.split)

section \<open>The statistics thread\<close>

text \<open>
  The counters, the latency sources, the thread's own \<open>last_frames\<close> and, as histories, the
  snapshots it has reported and the presents that were counted.
\<close>

record stats_shared =
  sh_counters :: counters
  sh_sources :: "u64 list option list"
  sh_last_frames :: u64
  sh_snapshots :: "snapshot list"
  sh_presents :: nat

definition stats_shared_new :: stats_shared where
  "stats_shared_new = \<lparr>sh_counters = counters_default, sh_sources = [], sh_last_frames = 0, sh_snapshots = [], sh_presents = 0\<rparr>"

definition stats_turn :: "u64 \<Rightarrow> stats_shared \<Rightarrow> stats_shared \<Rightarrow> bool" where
  "stats_turn interval_s c c' \<longleftrightarrow>
     (case stats_tick (sh_counters c) interval_s (sh_sources c) (sh_last_frames c) of
        (last_frames, live, sn) \<Rightarrow>
          c' = c\<lparr>sh_last_frames := last_frames, sh_sources := live, sh_snapshots := sh_snapshots c @ [sn]\<rparr>)"

definition register_latency_source :: "u64 list \<Rightarrow> stats_shared \<Rightarrow> stats_shared" where
  "register_latency_source samples c = c\<lparr>sh_sources := sh_sources c @ [Some samples]\<rparr>"

text \<open>
  What the application does meanwhile: submissions, presents and acquires are counted, a
  strategy registers its history as a source, and sources change or die with their device.
\<close>

inductive stats_env :: "stats_shared \<Rightarrow> stats_shared \<Rightarrow> bool" where
  submits: "stats_env c (c\<lparr>sh_counters := record_submit_call n injected (sh_counters c)\<rparr>)"
| present: "Suc (sh_presents c) < 2 ^ 64 \<Longrightarrow>
     stats_env c (c\<lparr>sh_counters := inc_present (sh_counters c), sh_presents := Suc (sh_presents c)\<rparr>)"
| acquire: "stats_env c (c\<lparr>sh_counters := (sh_counters c)\<lparr>acquires := acquires (sh_counters c) + 1\<rparr>\<rparr>)"
| registers: "stats_env c (register_latency_source samples c)"
| samples: "i < length (sh_sources c) \<Longrightarrow> sh_sources c ! i \<noteq> None \<Longrightarrow> stats_env c (c\<lparr>sh_sources := (sh_sources c)[i := w]\<rparr>)"

text \<open>The rate reported for a number of frames.\<close>

definition rate :: "u64 \<Rightarrow> nat \<Rightarrow> rat" where
  "rate interval_s n = f64_div (f64_of_int (int n)) (f64_of_int (uint interval_s))"

text \<open>The frames each snapshot accounts for.\<close>

definition accounts :: "u64 \<Rightarrow> stats_shared \<Rightarrow> nat list \<Rightarrow> bool" where
  "accounts interval_s c ds \<longleftrightarrow> map sn_fps (sh_snapshots c) = map (rate interval_s) ds
     \<and> map (unat \<circ> sn_frames) (sh_snapshots c) = map (\<lambda>k. sum_list (take (Suc k) ds)) [0..<length ds]
     \<and> unat (sh_last_frames c) = sum_list ds"

definition stats_inv :: "u64 \<Rightarrow> stats_shared \<Rightarrow> bool" where
  "stats_inv interval_s c \<longleftrightarrow> unat (frames (sh_counters c)) = sh_presents c \<and> sh_presents c < 2 ^ 64
     \<and> sh_last_frames c \<le> frames (sh_counters c) \<and> (\<exists>ds. accounts interval_s c ds)"

lemma stats_turn_inv:
  assumes "stats_turn interval_s c c'" and "stats_inv interval_s c"
  shows "stats_inv interval_s c'"
proof -
  let ?fr = "frames (sh_counters c)"
  obtain ds where ds: "accounts interval_s c ds" using assms(2) by (auto simp: stats_inv_def)
  have le: "sh_last_frames c \<le> ?fr" using assms(2) by (simp add: stats_inv_def)
  then have d: "unat (?fr - sh_last_frames c) = unat ?fr - unat (sh_last_frames c)"
    by (simp add: unat_sub_if' word_le_nat_alt)
  let ?d = "unat ?fr - unat (sh_last_frames c)"
  have sum: "sum_list ds + ?d = unat ?fr" using ds le by (simp add: accounts_def word_le_nat_alt)
  have "uint (?fr - sh_last_frames c) = int ?d" unfolding uint_nat [of "?fr - sh_last_frames c"] d ..
  moreover have len: "length (sh_snapshots c) = length ds" using ds by (metis accounts_def length_map)
  ultimately have "accounts interval_s c' (ds @ [?d])"
    using assms(1) ds sum
    by (auto simp: accounts_def stats_turn_def stats_tick_def Let_def rate_def split: prod.splits)
  then show ?thesis
    using assms by (auto simp: stats_inv_def stats_turn_def stats_tick_def Let_def split: prod.splits)
qed

lemma stats_env_inv: "stats_env c c' \<Longrightarrow> stats_inv interval_s c \<Longrightarrow> stats_inv interval_s c'"
proof (induction rule: stats_env.induct)
  case (present c)
  have "unat (frames (sh_counters c) + 1) = Suc (unat (frames (sh_counters c)))"
    using present by (simp add: stats_inv_def unat_word_ariths)
  then show ?case
    using present by (auto simp: stats_inv_def accounts_def inc_present_def word_le_nat_alt)
qed (auto simp: stats_inv_def accounts_def record_submit_call_def register_latency_source_def)

interpretation sw: timed_worker "stats_turn interval_s" stats_env "stats_inv interval_s" for interval_s
proof unfold_locales
  show "\<exists>b. stats_turn interval_s a b" for a by (simp add: stats_turn_def case_prod_beta)
qed (use stats_turn_inv stats_env_inv in blast)+

section \<open>Properties\<close>

text \<open>
  The calibration thread: in every reachable state the anchor that conversions use is the
  newest complete answer of the driver, or the one taken at creation while there is none;
  and once the destructor has set the flag, in whatever moment, the thread leaves within
  three of its own steps, even if its notification is lost.
\<close>

theorem calibration_thread_sound:
  assumes "rtranclp (timed_loop clock_turn clock_env) (timed_start (clock_shared_new c)) s"
  shows "ck_anchor (tw_shared s) = newest_answer (clock_anchor c) (ck_answers (tw_shared s))
    \<and> (tw_stop s \<longrightarrow> timed_left (tw_pc s) \<le> 3
        \<and> (\<exists>t. (timed_work clock_turn ^^ timed_left (tw_pc s)) s t \<and> tw_pc t = HasLeft))"
  using cw.reach_inv [OF assms, of "clock_anchor c"] cw.leaves_within_three [of s]
  by (simp add: clock_shared_new_def newest_answer_def List.map_filter_def)

text \<open>One turn with an answer, then the flag is set.\<close>

theorem calibration_thread_sound_witness:
  "\<exists>s t. rtranclp (timed_loop clock_turn clock_env) (timed_start (clock_shared_new \<lparr>period_ns = 1, clock_anchor = anchor_default\<rparr>)) s
     \<and> tw_stop s \<and> tw_pc s = Asleep \<and> (timed_work clock_turn ^^ 2) s t \<and> tw_pc t = HasLeft"
proof -
  let ?c = "clock_shared_new \<lparr>period_ns = 1, clock_anchor = anchor_default\<rparr>"
  let ?a = "timed_start ?c"
  let ?b = "?a\<lparr>tw_pc := AtLock\<rparr>"
  let ?d = "?b\<lparr>tw_pc := Asleep\<rparr>"
  let ?e = "?d\<lparr>tw_stop := True, tw_owner := StopSet\<rparr>"
  have "timed_loop clock_turn clock_env ?a ?b" by (rule timed_loop.work, rule timed_work.lock) (simp_all add: timed_start_def)
  moreover have "timed_loop clock_turn clock_env ?b ?d" by (rule timed_loop.work, rule timed_work.wait_for) simp
  moreover have "timed_loop clock_turn clock_env ?d ?e" by (rule timed_loop.set_stop) (simp add: timed_start_def)
  ultimately have r: "rtranclp (timed_loop clock_turn clock_env) ?a ?e" by (meson rtranclp.rtrancl_refl rtranclp.rtrancl_into_rtrancl)
  then obtain t where "(timed_work clock_turn ^^ timed_left (tw_pc ?e)) ?e t" "tw_pc t = HasLeft"
    using calibration_thread_sound [OF r] by auto
  then show ?thesis using r by (intro exI [of _ ?e] exI [of _ t]) (simp add: numeral_2_eq_2)
qed

text \<open>
  C40. The statistics thread accounts for every frame once: the rates it has reported are those
  of frame counts that add up to the frames it has seen, the frame total of each snapshot is
  the sum of the counts up to it, and none counts a frame that was not presented; dropping
  the telemetry ends the thread within three of its own steps.
\<close>

theorem stats_account_every_frame_once:
  assumes "rtranclp (timed_loop (stats_turn interval_s) stats_env) (timed_start stats_shared_new) s"
  shows "(\<exists>ds. map sn_fps (sh_snapshots (tw_shared s)) = map (rate interval_s) ds
      \<and> map (unat \<circ> sn_frames) (sh_snapshots (tw_shared s)) = map (\<lambda>k. sum_list (take (Suc k) ds)) [0..<length ds]
      \<and> sum_list ds = unat (sh_last_frames (tw_shared s)) \<and> sum_list ds \<le> sh_presents (tw_shared s))
    \<and> (tw_stop s \<longrightarrow> timed_left (tw_pc s) \<le> 3
        \<and> (\<exists>t. (timed_work (stats_turn interval_s) ^^ timed_left (tw_pc s)) s t \<and> tw_pc t = HasLeft))"
proof -
  have "stats_inv interval_s stats_shared_new"
    by (simp add: stats_inv_def stats_shared_new_def counters_default_def accounts_def)
  then have inv: "stats_inv interval_s (tw_shared s)" by (rule sw.reach_inv [OF assms])
  then obtain ds where ds: "accounts interval_s (tw_shared s) ds" by (auto simp: stats_inv_def)
  moreover have "unat (sh_last_frames (tw_shared s)) \<le> sh_presents (tw_shared s)"
    using inv by (auto simp: stats_inv_def word_le_nat_alt)
  ultimately show ?thesis using sw.leaves_within_three [of s interval_s] by (auto simp: accounts_def intro!: exI [of _ ds])
qed

text \<open>One present, then one turn.\<close>

theorem stats_account_every_frame_once_witness:
  "\<exists>s ds. rtranclp (timed_loop (stats_turn 5) stats_env) (timed_start stats_shared_new) s
     \<and> length (sh_snapshots (tw_shared s)) = 1 \<and> map sn_fps (sh_snapshots (tw_shared s)) = map (rate 5) ds
     \<and> sum_list ds \<le> sh_presents (tw_shared s)"
proof -
  let ?a = "timed_start stats_shared_new"
  let ?c = "stats_shared_new\<lparr>sh_counters := inc_present (sh_counters stats_shared_new), sh_presents := Suc (sh_presents stats_shared_new)\<rparr>"
  let ?p = "?a\<lparr>tw_shared := ?c\<rparr>"
  obtain c' where c': "stats_turn 5 ?c c'" using sw.turn_ends by blast
  then have one: "length (sh_snapshots c') = 1"
    by (auto simp: stats_turn_def stats_tick_def Let_def stats_shared_new_def split: prod.splits)
  have "timed_loop (stats_turn 5) stats_env ?a ?p"
    using timed_loop.others [of stats_env ?a ?c] stats_env.present [of stats_shared_new]
    by (simp add: timed_start_def stats_shared_new_def)
  moreover have "timed_loop (stats_turn 5) stats_env ?p (?p\<lparr>tw_pc := AtLock\<rparr>)"
    by (rule timed_loop.work, rule timed_work.lock) (simp_all add: timed_start_def)
  moreover have "timed_loop (stats_turn 5) stats_env (?p\<lparr>tw_pc := AtLock\<rparr>) (?p\<lparr>tw_pc := Asleep\<rparr>)"
    using timed_work.wait_for [of "?p\<lparr>tw_pc := AtLock\<rparr>" "stats_turn 5"] by (simp add: timed_loop.work)
  moreover have "timed_loop (stats_turn 5) stats_env (?p\<lparr>tw_pc := Asleep\<rparr>) (?p\<lparr>tw_pc := Awake\<rparr>)"
    using timed_work.timeout [of "?p\<lparr>tw_pc := Asleep\<rparr>" "stats_turn 5"] by (simp add: timed_loop.work)
  moreover have "timed_loop (stats_turn 5) stats_env (?p\<lparr>tw_pc := Awake\<rparr>) (?p\<lparr>tw_pc := InTurn\<rparr>)"
    using timed_work.awake [of "?p\<lparr>tw_pc := Awake\<rparr>" "stats_turn 5"] by (simp add: timed_loop.work timed_start_def)
  moreover have "timed_loop (stats_turn 5) stats_env (?p\<lparr>tw_pc := InTurn\<rparr>) (?p\<lparr>tw_pc := AtTop, tw_shared := c'\<rparr>)"
    using timed_work.turn [of "?p\<lparr>tw_pc := InTurn\<rparr>" "stats_turn 5" c'] c' by (simp add: timed_loop.work timed_start_def)
  ultimately have r: "rtranclp (timed_loop (stats_turn 5) stats_env) ?a (?p\<lparr>tw_pc := AtTop, tw_shared := c'\<rparr>)"
    by (meson rtranclp.rtrancl_refl rtranclp.rtrancl_into_rtrancl)
  show ?thesis
    using stats_account_every_frame_once [OF r, THEN conjunct1] r one
    by (intro exI [of _ "?p\<lparr>tw_pc := AtTop, tw_shared := c'\<rparr>"]) auto
qed

end
