(* ===== verification/PromFile.thy ===== *)
theory PromFile
  imports Telemetry
begin

text \<open>
  How \<open>write_prom_textfile\<close> of \<open>src/telemetry.rs\<close> puts its text into the file a scraper reads:
  into a temporary file beside it, which is then renamed. The file system is a map from
  names to files and from files to their contents, so that a rename moves a file that some
  process may still be writing; a write reaches the file in pieces.
\<close>

section \<open>Paths\<close>

definition SLASH :: nat where "SLASH = 47"
definition DOT :: nat where "DOT = 46"

text \<open>The components of a path ignore trailing separators and trailing \<open>.\<close>.\<close>

fun trim_rev :: "ustr \<Rightarrow> ustr" where
  "trim_rev [] = []"
| "trim_rev (c # r) =
     (if c = SLASH then trim_rev r
      else if c = DOT \<and> r \<noteq> [] \<and> hd r = SLASH then trim_rev r
      else c # r)"

definition file_name :: "ustr \<Rightarrow> ustr option" where
  "file_name p =
     (let name = rev (takeWhile (\<lambda>c. c \<noteq> SLASH) (trim_rev (rev p)))
      in if name = [] \<or> name = [DOT] \<or> name = [DOT, DOT] then None else Some name)"

definition dir_prefix :: "ustr \<Rightarrow> ustr" where
  "dir_prefix p = rev (dropWhile (\<lambda>c. c \<noteq> SLASH) (trim_rev (rev p)))"

definition file_stem :: "ustr \<Rightarrow> ustr" where
  "file_stem name =
     (case dropWhile (\<lambda>c. c \<noteq> DOT) (rev name) of
        [] \<Rightarrow> name
      | _ # before \<Rightarrow> if before = [] then name else rev before)"

text \<open>\<open>Path::with_extension\<close> with a non-empty extension.\<close>

definition with_extension :: "ustr \<Rightarrow> ustr \<Rightarrow> ustr" where
  "with_extension p ext =
     (case file_name p of
        None \<Rightarrow> p
      | Some name \<Rightarrow> dir_prefix p @ file_stem name @ [DOT] @ ext)"

definition prom_tmp :: "ustr \<Rightarrow> ustr" where
  "prom_tmp path = with_extension path (lit ''prom.tmp'')"

lemma file_stem_cases:
  "file_stem name = name \<or> (\<exists>e. name = file_stem name @ [DOT] @ e \<and> DOT \<notin> set e)"
proof (cases "dropWhile (\<lambda>c. c \<noteq> DOT) (rev name)")
  case (Cons d before)
  have "rev name = takeWhile (\<lambda>c. c \<noteq> DOT) (rev name) @ d # before"
    using takeWhile_dropWhile_id [of "\<lambda>c. c \<noteq> DOT" "rev name"] Cons by simp
  moreover have "d = DOT" using Cons hd_dropWhile [of "\<lambda>c. c \<noteq> DOT" "rev name"] by force
  ultimately have "name = rev before @ [DOT] @ rev (takeWhile (\<lambda>c. c \<noteq> DOT) (rev name))"
    by (metis append.assoc append_Cons append_Nil rev.simps(2) rev_append rev_rev_ident)
  moreover have "DOT \<notin> set (rev (takeWhile (\<lambda>c. c \<noteq> DOT) (rev name)))" by (auto dest: set_takeWhileD)
  ultimately show ?thesis using Cons by (auto simp: file_stem_def)
next
  case Nil
  then have "file_stem name = name" unfolding file_stem_def by (simp only: list.case)
  then show ?thesis ..
qed

lemma takeWhile_last_component:
  "d = [] \<or> last d = SLASH \<Longrightarrow> SLASH \<notin> set x \<Longrightarrow> takeWhile (\<lambda>c. c \<noteq> SLASH) (rev (d @ x)) = rev x"
proof (cases d rule: rev_cases)
  case (snoc ys y)
  moreover assume "d = [] \<or> last d = SLASH" "SLASH \<notin> set x"
  moreover from this have "takeWhile (\<lambda>c. c \<noteq> SLASH) (rev x) = rev x" by (auto simp: takeWhile_eq_all_conv)
  ultimately show ?thesis using takeWhile_tail [of "\<lambda>c. c \<noteq> SLASH" SLASH "rev x" "rev ys"] by simp
qed (auto simp: takeWhile_eq_all_conv)

text \<open>The temporary file never has the name of the file it is for.\<close>

lemma prom_tmp_differs:
  assumes "file_name path \<noteq> None"
  shows "prom_tmp path \<noteq> path \<and> file_name (prom_tmp path) \<noteq> file_name path"
proof -
  let ?tmp = "lit ''prom.tmp''"
  obtain name where name: "file_name path = Some name" using assms by blast
  have tmp: "prom_tmp path = dir_prefix path @ file_stem name @ [DOT] @ ?tmp"
    by (simp add: prom_tmp_def with_extension_def name)
  have ext: "SLASH \<notin> set ?tmp" "DOT \<in> set ?tmp" "?tmp = [112, 114, 111, 109, 46, 116, 109, 112]"
    by (simp_all add: lit_def SLASH_def DOT_def)
  have noslash: "SLASH \<notin> set name" using name by (auto simp: file_name_def Let_def split: if_splits dest: set_takeWhileD)
  then have "SLASH \<notin> set (file_stem name)" using file_stem_cases [of name] by (metis Un_iff set_append)
  then have front: "SLASH \<notin> set (file_stem name @ [DOT] @ ?tmp)" using ext by (simp add: SLASH_def DOT_def)
  have dir: "dir_prefix path = [] \<or> last (dir_prefix path) = SLASH"
    using hd_dropWhile [of "\<lambda>c. c \<noteq> SLASH" "trim_rev (rev path)"] by (auto simp: dir_prefix_def last_rev)
  have "trim_rev (rev (prom_tmp path)) = rev (prom_tmp path)"
    unfolding tmp ext(3) by (simp add: SLASH_def DOT_def)
  moreover have "takeWhile (\<lambda>c. c \<noteq> SLASH) (rev (prom_tmp path)) = rev (file_stem name @ [DOT] @ ?tmp)"
    unfolding tmp by (rule takeWhile_last_component [OF dir front])
  ultimately have fn: "file_name (prom_tmp path) = Some (file_stem name @ [DOT] @ ?tmp)"
    unfolding file_name_def by (simp add: ext(3))
  have "file_stem name @ [DOT] @ ?tmp \<noteq> name"
  proof
    assume eq: "file_stem name @ [DOT] @ ?tmp = name"
    then have "file_stem name \<noteq> name" by auto
    then obtain e where "name = file_stem name @ [DOT] @ e" "DOT \<notin> set e" using file_stem_cases [of name] by blast
    then show False using eq ext(2) by (metis append_same_eq same_append_eq)
  qed
  then show ?thesis using fn name by auto
qed

section \<open>Files\<close>

record file_system =
  fs_entries :: "ustr \<rightharpoonup> nat"
  fs_data :: "nat \<Rightarrow> ustr"
  fs_next :: nat

text \<open>What a scraper reads at a path.\<close>

definition fs_read :: "file_system \<Rightarrow> ustr \<Rightarrow> ustr option" where
  "fs_read fs p = map_option (fs_data fs) (fs_entries fs p)"

text \<open>Opening for writing creates the file or empties it; writing at an offset past the end fills the gap with zeros.\<close>

definition fs_open :: "ustr \<Rightarrow> file_system \<Rightarrow> nat \<times> file_system" where
  "fs_open p fs =
     (case fs_entries fs p of
        Some i \<Rightarrow> (i, fs\<lparr>fs_data := (fs_data fs)(i := [])\<rparr>)
      | None \<Rightarrow> (fs_next fs, fs\<lparr>fs_entries := (fs_entries fs)(p \<mapsto> fs_next fs),
                     fs_data := (fs_data fs)(fs_next fs := []), fs_next := Suc (fs_next fs)\<rparr>))"

definition overwrite :: "ustr \<Rightarrow> nat \<Rightarrow> ustr \<Rightarrow> ustr" where
  "overwrite d off bs = take off (d @ replicate (off - length d) 0) @ bs @ drop (off + length bs) d"

definition fs_write :: "nat \<Rightarrow> nat \<Rightarrow> ustr \<Rightarrow> file_system \<Rightarrow> file_system" where
  "fs_write i off bs fs = fs\<lparr>fs_data := (fs_data fs)(i := overwrite (fs_data fs i) off bs)\<rparr>"

definition fs_rename :: "ustr \<Rightarrow> ustr \<Rightarrow> file_system \<Rightarrow> file_system option" where
  "fs_rename a b fs =
     (case fs_entries fs a of
        None \<Rightarrow> None
      | Some i \<Rightarrow>
          if fs_entries fs b = Some i then Some fs
          else Some (fs\<lparr>fs_entries := (fs_entries fs)(b \<mapsto> i, a := None)\<rparr>))"

section \<open>The writers\<close>

text \<open>A process between its calls, in \<open>fs::write\<close> with a file, an offset and a text, or before the rename.\<close>

datatype writer = NoWrite | InWrite ustr nat nat | Written ustr

text \<open>\<open>pw_reports\<close> is the history of what was to be written.\<close>

record prom_world =
  pw_fs :: file_system
  pw_writers :: "nat \<Rightarrow> writer"
  pw_reports :: "ustr list"

definition prom_start :: "file_system \<Rightarrow> prom_world" where
  "prom_start fs = \<lparr>pw_fs = fs, pw_writers = (\<lambda>_. NoWrite), pw_reports = []\<rparr>"

definition writer_at :: "nat \<Rightarrow> writer \<Rightarrow> prom_world \<Rightarrow> prom_world" where
  "writer_at pid w s = s\<lparr>pw_writers := (pw_writers s)(pid := w)\<rparr>"

text \<open>
  One step of one of the processes \<open>pids\<close> that report to \<open>path\<close>. A write or a rename may fail
  (or its process die); a failed open leaves everything as it was and is no step.
\<close>

inductive prom_step :: "nat set \<Rightarrow> ustr \<Rightarrow> prom_world \<Rightarrow> prom_world \<Rightarrow> bool" for pids path where
  open_tmp: "pid \<in> pids \<Longrightarrow> pw_writers s pid = NoWrite \<Longrightarrow> body = prom_body pid sn \<Longrightarrow> fs_open (prom_tmp path) (pw_fs s) = (i, fs) \<Longrightarrow>
     prom_step pids path s (writer_at pid (InWrite body i 0) (s\<lparr>pw_fs := fs, pw_reports := pw_reports s @ [body]\<rparr>))"
| piece: "pid \<in> pids \<Longrightarrow> pw_writers s pid = InWrite body i off \<Longrightarrow> 0 < n \<Longrightarrow> off + n \<le> length body \<Longrightarrow>
     prom_step pids path s (writer_at pid (InWrite body i (off + n)) (s\<lparr>pw_fs := fs_write i off (take n (drop off body)) (pw_fs s)\<rparr>))"
| close: "pid \<in> pids \<Longrightarrow> pw_writers s pid = InWrite body i (length body) \<Longrightarrow>
     prom_step pids path s (writer_at pid (Written body) s)"
| rename: "pid \<in> pids \<Longrightarrow> pw_writers s pid = Written body \<Longrightarrow> fs_rename (prom_tmp path) path (pw_fs s) = Some fs \<Longrightarrow>
     prom_step pids path s (writer_at pid NoWrite (s\<lparr>pw_fs := fs\<rparr>))"
| failed: "pid \<in> pids \<Longrightarrow> pw_writers s pid \<noteq> NoWrite \<Longrightarrow> prom_step pids path s (writer_at pid NoWrite s)"

section \<open>One process\<close>

text \<open>No two names of the directory share a file.\<close>

definition fs_ok :: "file_system \<Rightarrow> bool" where
  "fs_ok fs \<longleftrightarrow> (\<forall>p i. fs_entries fs p = Some i \<longrightarrow> i < fs_next fs)
     \<and> (\<forall>p q i. fs_entries fs p = Some i \<longrightarrow> fs_entries fs q = Some i \<longrightarrow> p = q)"

definition in_tmp :: "file_system \<Rightarrow> ustr \<Rightarrow> nat \<Rightarrow> ustr \<Rightarrow> bool" where
  "in_tmp fs path i d \<longleftrightarrow> fs_entries fs (prom_tmp path) = Some i \<and> fs_data fs i = d"

definition prom_inv :: "nat \<Rightarrow> ustr \<Rightarrow> file_system \<Rightarrow> prom_world \<Rightarrow> bool" where
  "prom_inv pid path fs0 s \<longleftrightarrow> fs_ok (pw_fs s)
     \<and> (fs_read (pw_fs s) path = fs_read fs0 path \<or> fs_read (pw_fs s) path \<in> Some ` set (pw_reports s))
     \<and> (\<forall>q. q \<noteq> path \<longrightarrow> q \<noteq> prom_tmp path \<longrightarrow> fs_read (pw_fs s) q = fs_read fs0 q)
     \<and> (case pw_writers s pid of
          NoWrite \<Rightarrow> True
        | InWrite body i off \<Rightarrow> body \<in> set (pw_reports s) \<and> off \<le> length body \<and> in_tmp (pw_fs s) path i (take off body)
        | Written body \<Rightarrow> body \<in> set (pw_reports s) \<and> (\<exists>i. in_tmp (pw_fs s) path i body))"

lemma overwrite_next: "off + n \<le> length body \<Longrightarrow> overwrite (take off body) off (take n (drop off body)) = take (off + n) body"
  by (simp add: overwrite_def take_add min_def)

lemma fs_read_other: "fs_ok fs \<Longrightarrow> fs_entries fs p = Some i \<Longrightarrow> q \<noteq> p \<Longrightarrow> fs_entries fs q \<noteq> Some i"
  by (auto simp: fs_ok_def)

lemma map_option_other: "x \<noteq> Some i \<Longrightarrow> map_option (f(i := v)) x = map_option f x"
  by (cases x) auto

text \<open>Writing to the file of one name changes what is read under no other name.\<close>

lemma fs_write_read:
  assumes "fs_ok fs" and "fs_entries fs p = Some i"
  shows "fs_ok (fs_write i off bs fs) \<and> (\<forall>q. q \<noteq> p \<longrightarrow> fs_read (fs_write i off bs fs) q = fs_read fs q)"
  using assms fs_read_other [OF assms] by (simp add: fs_write_def fs_read_def fs_ok_def map_option_other)

lemma fs_open_read:
  assumes "fs_ok fs" and "fs_open p fs = (i, fs')"
  shows "fs_ok fs' \<and> fs_entries fs' p = Some i \<and> fs_data fs' i = [] \<and> (\<forall>q. q \<noteq> p \<longrightarrow> fs_read fs' q = fs_read fs q)"
proof (cases "fs_entries fs p")
  case None
  have fresh: "fs_entries fs q \<noteq> Some (fs_next fs)" for q using assms(1) by (auto simp: fs_ok_def)
  have fs': "i = fs_next fs" "fs' = fs\<lparr>fs_entries := (fs_entries fs)(p \<mapsto> fs_next fs),
      fs_data := (fs_data fs)(fs_next fs := []), fs_next := Suc (fs_next fs)\<rparr>"
    using assms(2) None by (auto simp: fs_open_def)
  have "fs_ok fs'"
    using assms(1) fresh unfolding fs_ok_def fs' by (auto split: if_splits intro: less_SucI)
  then show ?thesis unfolding fs' by (simp add: fs_read_def map_option_other fresh)
next
  case (Some j)
  then show ?thesis
    using assms fs_read_other [OF assms(1) Some] by (auto simp: fs_open_def fs_ok_def fs_read_def map_option_other)
qed

lemma fs_rename_read:
  assumes "fs_ok fs" and "a \<noteq> b" and "fs_rename a b fs = Some fs'"
  shows "fs_ok fs' \<and> fs_read fs' b = fs_read fs a \<and> (\<forall>q. q \<noteq> a \<longrightarrow> q \<noteq> b \<longrightarrow> fs_read fs' q = fs_read fs q)"
proof -
  obtain i where i: "fs_entries fs a = Some i" using assms(3) by (auto simp: fs_rename_def split: option.splits)
  then have "fs_entries fs b \<noteq> Some i" using fs_read_other assms(1,2) by metis
  then have "fs' = fs\<lparr>fs_entries := (fs_entries fs)(b \<mapsto> i, a := None)\<rparr>" using assms(3) i by (simp add: fs_rename_def)
  then show ?thesis using assms(1,2) i by (auto simp: fs_ok_def fs_read_def)
qed

lemma writer_at_simps [simp]:
  "pw_fs (writer_at pid w s) = pw_fs s" "pw_reports (writer_at pid w s) = pw_reports s"
  "pw_writers (writer_at pid w s) pid = w"
  by (simp_all add: writer_at_def)

lemma fs_read_in_tmp: "in_tmp fs path i d \<Longrightarrow> fs_read fs (prom_tmp path) = Some d"
  by (simp add: in_tmp_def fs_read_def)

lemma prom_step_inv:
  assumes "file_name path \<noteq> None" and "prom_step {pid} path s t" and inv: "prom_inv pid path fs0 s"
  shows "prom_inv pid path fs0 t"
proof -
  have ne: "path \<noteq> prom_tmp path" using prom_tmp_differs [OF assms(1)] by metis
  have ok: "fs_ok (pw_fs s)" using inv by (simp add: prom_inv_def)
  show ?thesis
    using assms(2)
  proof cases
    case (open_tmp pid' body sn i fs)
    then show ?thesis using fs_open_read [OF ok open_tmp(5)] inv ne by (auto simp: prom_inv_def in_tmp_def)
  next
    case (piece pid' body i off n)
    then have tmp: "in_tmp (pw_fs s) path i (take off body)" "fs_entries (pw_fs s) (prom_tmp path) = Some i"
      using inv by (auto simp: prom_inv_def in_tmp_def)
    have "in_tmp (fs_write i off (take n (drop off body)) (pw_fs s)) path i (take (off + n) body)"
      using tmp overwrite_next [OF piece(5)] by (simp add: in_tmp_def fs_write_def)
    then show ?thesis using piece fs_write_read [OF ok tmp(2)] inv ne by (simp add: prom_inv_def)
  next
    case (close pid' body i)
    then show ?thesis using inv by (auto simp: prom_inv_def)
  next
    case (rename pid' body fs)
    then obtain i where "in_tmp (pw_fs s) path i body" "body \<in> set (pw_reports s)" using inv by (auto simp: prom_inv_def)
    then show ?thesis
      using rename fs_rename_read [OF ok ne [symmetric] rename(4)] fs_read_in_tmp inv by (simp add: prom_inv_def)
  next
    case (failed pid')
    then show ?thesis using inv by (simp add: prom_inv_def)
  qed
qed

text \<open>The invariant as one of the system, for paths that name a file.\<close>

interpretation prom: invariant_system "\<lambda>s t. file_name path \<noteq> None \<and> prom_step {pid} path s t" "prom_inv pid path fs0" for pid path fs0
  by unfold_locales (use prom_step_inv in blast)

section \<open>Properties\<close>

text \<open>
  C39. A scraper never sees a half-written file of a process that has the path for itself: at
  every moment, also between the pieces of a write and after writes and renames that failed,
  the file at the configured path is the one that was there before or the complete text of
  one report, and no other file of the file system has changed except the temporary one.
\<close>

theorem scraper_sees_whole_reports:
  assumes "file_name path \<noteq> None" and "fs_ok fs0" and "rtranclp (prom_step {pid} path) (prom_start fs0) s"
  shows "(fs_read (pw_fs s) path = fs_read fs0 path \<or> fs_read (pw_fs s) path \<in> Some ` set (pw_reports s))
    \<and> (\<forall>q. q \<noteq> path \<longrightarrow> q \<noteq> prom_tmp path \<longrightarrow> fs_read (pw_fs s) q = fs_read fs0 q)"
proof -
  have "prom_inv pid path fs0 (prom_start fs0)" using assms(2) by (simp add: prom_inv_def prom_start_def)
  moreover have "rtranclp (\<lambda>s t. file_name path \<noteq> None \<and> prom_step {pid} path s t) (prom_start fs0) s"
    using assms(3) by (rule rtranclp_mono [THEN predicate2D, rotated]) (use assms(1) in auto)
  ultimately have "prom_inv pid path fs0 s" using prom.steps_inv by blast
  then show ?thesis by (simp add: prom_inv_def)
qed

definition empty_fs :: file_system where
  "empty_fs = \<lparr>fs_entries = Map.empty, fs_data = (\<lambda>_. []), fs_next = 0\<rparr>"

lemma empty_fs_ok: "fs_ok empty_fs"
  by (simp add: fs_ok_def empty_fs_def)

text \<open>A write and a rename to \<open>m.prom\<close>, whose temporary file is \<open>m.prom.tmp\<close>.\<close>

theorem scraper_sees_whole_reports_witness:
  "\<exists>s body. rtranclp (prom_step {7} (lit ''m.prom'')) (prom_start empty_fs) s \<and> pw_reports s = [body]
     \<and> fs_read (pw_fs s) (lit ''m.prom'') = Some body \<and> fs_read (pw_fs s) (lit ''other'') = None"
proof -
  let ?p = "lit ''m.prom''"
  have name: "file_name ?p = Some ?p" "prom_tmp ?p \<noteq> ?p" "prom_tmp ?p \<noteq> lit ''other''" "?p \<noteq> lit ''other''"
    by (simp_all add: prom_tmp_def with_extension_def dir_prefix_def file_stem_def file_name_def lit_def SLASH_def DOT_def)
  define body where "body = prom_body 7 (undefined\<lparr>sn_fps := 0\<rparr>)"
  have ne: "0 < length body" by (simp add: body_def prom_body_def lit_def)
  obtain fs where o: "fs_open (prom_tmp ?p) empty_fs = (0, fs)" and fs: "fs_entries fs (prom_tmp ?p) = Some 0" "fs_entries fs ?p = None" "fs_data fs 0 = []"
    using name by (simp add: fs_open_def empty_fs_def)
  let ?a = "writer_at 7 (InWrite body 0 0) (prom_start empty_fs\<lparr>pw_fs := fs, pw_reports := [body]\<rparr>)"
  have 1: "prom_step {7} ?p (prom_start empty_fs) ?a"
    using open_tmp [of 7 "{7}" "prom_start empty_fs" body "undefined\<lparr>sn_fps := 0\<rparr>" ?p 0 fs] o body_def by (simp add: prom_start_def)
  let ?fs = "fs_write 0 0 body fs"
  let ?b = "writer_at 7 (InWrite body 0 (length body)) (?a\<lparr>pw_fs := ?fs\<rparr>)"
  have 2: "prom_step {7} ?p ?a ?b" using piece [of 7 "{7}" ?a body 0 0 "length body" ?p] ne by simp
  let ?c = "writer_at 7 (Written body) ?b"
  have 3: "prom_step {7} ?p ?b ?c" using close [of 7 "{7}" ?b body 0 ?p] by simp
  let ?r = "?fs\<lparr>fs_entries := (fs_entries ?fs)(?p \<mapsto> 0, prom_tmp ?p := None)\<rparr>"
  let ?d = "writer_at 7 NoWrite (?c\<lparr>pw_fs := ?r\<rparr>)"
  have "fs_rename (prom_tmp ?p) ?p ?fs = Some ?r" using fs by (simp add: fs_rename_def fs_write_def)
  then have 4: "prom_step {7} ?p ?c ?d" using rename [of 7 "{7}" ?c body ?p ?r] by simp
  have r: "rtranclp (prom_step {7} ?p) (prom_start empty_fs) ?d" using 1 2 3 4 by (meson rtranclp.rtrancl_refl rtranclp.rtrancl_into_rtrancl)
  have "fs_read ?r ?p = Some body" using name(2) fs by (simp add: fs_read_def fs_write_def overwrite_def)
  moreover have "fs_read ?r (lit ''other'') = fs_read empty_fs (lit ''other'')"
    using scraper_sees_whole_reports [OF _ empty_fs_ok r] name by simp
  ultimately show ?thesis
    using r by (intro exI [of _ ?d] exI [of _ body]) (simp add: fs_read_def empty_fs_def prom_start_def)
qed

text \<open>
  Two processes that report to the same path share the temporary file, and then a scraper
  can see a torn report: while one process is between its write and its rename, another one
  opens, and so empties, the file, and the rename puts the empty file at the path, although
  every report has a text.
\<close>

theorem two_writers_tear_a_report:
  assumes "file_name path \<noteq> None"
  shows "\<exists>s. rtranclp (prom_step {7, 8} path) (prom_start empty_fs) s
    \<and> fs_read (pw_fs s) path = Some [] \<and> pw_reports s \<noteq> [] \<and> [] \<notin> set (pw_reports s)"
proof -
  let ?sn = "undefined\<lparr>sn_fps := 0\<rparr> :: snapshot"
  let ?x = "prom_body 7 ?sn" and ?y = "prom_body 8 ?sn"
  have ne: "?x \<noteq> []" "?y \<noteq> []" by (simp_all add: prom_body_def lit_def)
  have name: "path \<noteq> prom_tmp path" using prom_tmp_differs [OF assms] by metis
  let ?e = "[prom_tmp path \<mapsto> 0]"
  let ?fs = "\<lambda>d. \<lparr>fs_entries = ?e, fs_data = (\<lambda>_. [])(0 := d), fs_next = 1\<rparr>"
  let ?w = "\<lambda>d a b reps. \<lparr>pw_fs = ?fs d, pw_writers = ((\<lambda>_. NoWrite)(7 := a))(8 := b), pw_reports = reps\<rparr>"
  have upd: "((\<lambda>_. NoWrite)(7 :: nat := a, 8 := b))(7 := c) = ((\<lambda>_. NoWrite)(7 := c))(8 := b)"
    and idle: "((\<lambda>_. NoWrite)(7 :: nat := a))(8 := NoWrite) = (\<lambda>_. NoWrite)(7 := a)" for a b c
    by (simp_all add: fun_eq_iff)
  have 1: "prom_step {7, 8} path (prom_start empty_fs) (?w [] (InWrite ?x 0 0) NoWrite [?x])"
    using open_tmp [of 7 "{7, 8}" "prom_start empty_fs" ?x ?sn path 0 "?fs []"]
    by (simp add: prom_start_def empty_fs_def fs_open_def writer_at_def idle)
  have 2: "prom_step {7, 8} path (?w [] (InWrite ?x 0 0) NoWrite [?x]) (?w ?x (InWrite ?x 0 (length ?x)) NoWrite [?x])"
    using piece [of 7 "{7, 8}" "?w [] (InWrite ?x 0 0) NoWrite [?x]" ?x 0 0 "length ?x" path] ne
    by (simp add: writer_at_def fs_write_def overwrite_def upd)
  have 3: "prom_step {7, 8} path (?w ?x (InWrite ?x 0 (length ?x)) NoWrite [?x]) (?w ?x (Written ?x) NoWrite [?x])"
    using close [of 7 "{7, 8}" "?w ?x (InWrite ?x 0 (length ?x)) NoWrite [?x]" ?x 0 path] by (simp add: writer_at_def upd)
  have 4: "prom_step {7, 8} path (?w ?x (Written ?x) NoWrite [?x]) (?w [] (Written ?x) (InWrite ?y 0 0) [?x, ?y])"
    using open_tmp [of 8 "{7, 8}" "?w ?x (Written ?x) NoWrite [?x]" ?y ?sn path 0 "?fs []"]
    by (simp add: writer_at_def fs_open_def)
  let ?r = "(?fs [])\<lparr>fs_entries := (?e)(path \<mapsto> 0, prom_tmp path := None)\<rparr>"
  let ?t = "writer_at 7 NoWrite ((?w [] (Written ?x) (InWrite ?y 0 0) [?x, ?y])\<lparr>pw_fs := ?r\<rparr>)"
  have 5: "prom_step {7, 8} path (?w [] (Written ?x) (InWrite ?y 0 0) [?x, ?y]) ?t"
    using rename [of 7 "{7, 8}" "?w [] (Written ?x) (InWrite ?y 0 0) [?x, ?y]" ?x path ?r] name by (simp add: fs_rename_def)
  have "rtranclp (prom_step {7, 8} path) (prom_start empty_fs) ?t"
    using 1 2 3 4 5 by (meson rtranclp.rtrancl_refl rtranclp.rtrancl_into_rtrancl)
  moreover have "fs_read (pw_fs ?t) path = Some []" using name by (simp add: fs_read_def)
  ultimately show ?thesis using ne by (intro exI [of _ ?t]) simp
qed

theorem two_writers_tear_a_report_witness:
  "\<exists>s. rtranclp (prom_step {7, 8} (lit ''m.prom'')) (prom_start empty_fs) s \<and> fs_read (pw_fs s) (lit ''m.prom'') = Some []"
proof -
  have "file_name (lit ''m.prom'') \<noteq> None" by (simp add: file_name_def lit_def SLASH_def DOT_def)
  from two_writers_tear_a_report [OF this] show ?thesis by blast
qed

end
