(* ===== verification/HudParse.thy ===== *)
theory HudParse
  imports Telemetry
begin

text \<open>
  The HUD's side of the telemetry stream: the record type and ring of
  \<open>tools/vkpace-hud/src/state.rs\<close>, the line parser of \<open>parse.rs\<close>, and the reader loop of
  \<open>reader.rs\<close> over one connection. The layer's formatter (theory \<open>Telemetry\<close>) and this
  parser live in different crates; the round-trip theorem below is what keeps them in step.
\<close>

section \<open>Records and the shared ring\<close>

record hud_record =
  ts_ns :: u64
  frame :: u64
  queue :: u64
  pid :: u64
  lat_us :: u64

definition record_default :: hud_record where
  "record_default = \<lparr>ts_ns = 0, frame = 0, queue = 0, pid = 0, lat_us = 0\<rparr>"

definition HUD_RING_CAPACITY :: nat where "HUD_RING_CAPACITY = 4096"

record shared_state =
  hud_ring :: "hud_record list"
  hud_stop :: bool
  connected :: bool

definition shared_state_new :: shared_state where
  "shared_state_new = \<lparr>hud_ring = [], hud_stop = False, connected = False\<rparr>"

definition hud_push :: "hud_record \<Rightarrow> shared_state \<Rightarrow> shared_state" where
  "hud_push rec s =
     (let r = (if length (hud_ring s) = HUD_RING_CAPACITY then tl (hud_ring s) else hud_ring s)
      in s\<lparr>hud_ring := r @ [rec]\<rparr>)"

definition snapshot_since :: "u64 \<Rightarrow> shared_state \<Rightarrow> hud_record list" where
  "snapshot_since cutoff s = filter (\<lambda>r. cutoff \<le> ts_ns r) (hud_ring s)"

definition latest_ts :: "shared_state \<Rightarrow> u64 option" where
  "latest_ts s = (if hud_ring s = [] then None else Some (ts_ns (last (hud_ring s))))"

lemma hud_push_append: "hud_ring (hud_push rec s) = ring_append HUD_RING_CAPACITY rec (hud_ring s)"
  by (simp add: hud_push_def ring_append_def Let_def)

interpretation hring: bounded_fifo hud_push hud_ring HUD_RING_CAPACITY
  by unfold_locales (simp_all add: hud_push_append ring_append_drop HUD_RING_CAPACITY_def)

section \<open>The line parser\<close>

definition MAX_LINE_BYTES :: nat where "MAX_LINE_BYTES = 1024"

definition parse_u64 :: "ustr \<Rightarrow> u64 option" where
  "parse_u64 s = parse_u64_str (trim s)"

definition parse_queue :: "ustr \<Rightarrow> u64 option" where
  "parse_queue s =
     (let s = trim_matches (\<lambda>c. c = 34) (trim s) in
      case strip_prefix (lit ''0x'') s of
        Some hex \<Rightarrow> map_option word_of_nat (parse_uint 16 64 hex)
      | None \<Rightarrow> (case strip_prefix (lit ''0X'') s of
            Some hex \<Rightarrow> map_option word_of_nat (parse_uint 16 64 hex)
          | None \<Rightarrow> parse_u64_str s))"

text \<open>One \<open>key:value\<close> part: a malformed part or number makes the whole line \<open>None\<close>.\<close>

definition parse_part :: "ustr \<Rightarrow> hud_record \<Rightarrow> hud_record option" where
  "parse_part part rec =
     (case split_once 58 part of
        None \<Rightarrow> None
      | Some (k, v) \<Rightarrow>
          (let key = trim_matches (\<lambda>c. c = 34) (trim k); val = trim v in
           if key = lit ''ts'' then map_option (\<lambda>n. rec\<lparr>ts_ns := n\<rparr>) (parse_u64 val)
           else if key = lit ''frame'' then map_option (\<lambda>n. rec\<lparr>frame := n\<rparr>) (parse_u64 val)
           else if key = lit ''queue'' then map_option (\<lambda>n. rec\<lparr>queue := n\<rparr>) (parse_queue val)
           else if key = lit ''pid'' then map_option (\<lambda>n. rec\<lparr>pid := n\<rparr>) (parse_u64 val)
           else if key = lit ''latency_us'' then map_option (\<lambda>n. rec\<lparr>lat_us := n\<rparr>) (parse_u64 val)
           else Some rec))"

fun parse_parts :: "ustr list \<Rightarrow> hud_record \<Rightarrow> hud_record option" where
  "parse_parts [] rec = Some rec"
| "parse_parts (p # ps) rec = Option.bind (parse_part p rec) (parse_parts ps)"

definition parse_line :: "ustr \<Rightarrow> hud_record option" where
  "parse_line line =
     (if MAX_LINE_BYTES < byte_len line then None
      else (let s = trim (trim_end_matches (\<lambda>c. c = 10 \<or> c = 13) line) in
            Option.bind (strip_prefix [123] s) (\<lambda>s1.
            Option.bind (strip_suffix [125] s1) (\<lambda>s2.
              parse_parts (split_on 44 s2) record_default))))"

section \<open>The reader loop on one connection\<close>

text \<open>
  What \<open>read_line\<close> may return: a line, end of file, a timeout (\<open>WouldBlock\<close> or \<open>TimedOut\<close>),
  or another error. The loop checks \<open>stop\<close> before every read, skips unparsable lines,
  and leaves on end of file or error. The result says whether the reader returned (stop)
  or fell back to reconnecting, which clears \<open>connected\<close>.
\<close>

datatype read_event = ReadLine ustr | ReadEof | ReadTimeout | ReadError

fun reader_loop :: "read_event list \<Rightarrow> shared_state \<Rightarrow> shared_state" where
  "reader_loop [] s = s"
| "reader_loop (e # es) s =
     (if hud_stop s then s
      else (case e of
              ReadLine line \<Rightarrow>
                (case parse_line line of Some rec \<Rightarrow> reader_loop es (hud_push rec s) | None \<Rightarrow> reader_loop es s)
            | ReadEof \<Rightarrow> s\<lparr>connected := False\<rparr>
            | ReadTimeout \<Rightarrow> reader_loop es s
            | ReadError \<Rightarrow> s\<lparr>connected := False\<rparr>))"

text \<open>Reconnect backoff in milliseconds: doubled on each failure, capped, reset on success.\<close>

definition BACKOFF_MIN :: nat where "BACKOFF_MIN = 100"
definition BACKOFF_MAX :: nat where "BACKOFF_MAX = 5000"

definition next_backoff :: "nat \<Rightarrow> nat" where
  "next_backoff b = min (b * 2) BACKOFF_MAX"

text \<open>
  \<open>sleep_interruptible\<close>: naps of at most 100 ms; \<open>stops k\<close> is what the \<open>k\<close>-th check of the
  stop flag reads. The result is the time slept.
\<close>

fun sleep_interruptible :: "(nat \<Rightarrow> bool) \<Rightarrow> nat \<Rightarrow> nat \<Rightarrow> nat" where
  "sleep_interruptible stops k remaining =
     (if remaining = 0 \<or> stops k then 0
      else min remaining 100 + sleep_interruptible stops (Suc k) (remaining - min remaining 100))"

declare sleep_interruptible.simps [simp del]

section \<open>The round trip of one record\<close>

definition digits_only :: "ustr \<Rightarrow> bool" where
  "digits_only s \<longleftrightarrow> (\<forall>c\<in>set s. (48 \<le> c \<and> c \<le> 57) \<or> (97 \<le> c \<and> c \<le> 102))"

lemma show_digits_only: "digits_only (show_dec n)" "digits_only (show_hex n)"
  using show_radix_digits [of 10 n] show_radix_digits [of 16 n]
  by (simp_all add: digits_only_def show_dec_def show_hex_def)

lemma digits_only_misc:
  assumes "digits_only d"
  shows "44 \<notin> set d" "58 \<notin> set d" "trim d = d" "trim_matches (\<lambda>c. c = 34) d = d"
proof -
  show "44 \<notin> set d" "58 \<notin> set d" using assms by (auto simp: digits_only_def)
  show "trim d = d" using assms by (intro trim_none) (auto simp: digits_only_def is_ws_def)
  show "trim_matches (\<lambda>c. c = 34) d = d"
    using assms by (intro trim_matches_none) (auto simp: digits_only_def)
qed

lemma parse_u64_show: "parse_u64 (show_dec (unat (w :: u64))) = Some w"
proof -
  have "parse_uint 10 64 (show_dec (unat w)) = Some (unat w)"
    using parse_uint_show [of 10 "unat w" 64] unat_u64_less [of w] by (simp add: show_dec_def)
  then show ?thesis
    by (simp add: parse_u64_def parse_u64_str_def digits_only_misc show_digits_only)
qed

definition q_field :: "ustr \<Rightarrow> ustr" where
  "q_field d = [34, 48, 120] @ d @ [34]"

lemma parse_queue_show: "parse_queue (q_field (show_hex (unat (w :: u64)))) = Some w"
proof -
  let ?d = "show_hex (unat w)"
  have hex: "parse_uint 16 64 ?d = Some (unat w)"
    using parse_uint_show [of 16 "unat w" 64] unat_u64_less [of w] by (simp add: show_hex_def)
  have "trim (q_field ?d) = q_field ?d"
    unfolding trim_def by (rule trim_matches_id) (simp_all add: q_field_def is_ws_def)
  moreover have "trim_matches (\<lambda>c. c = 34) (q_field ?d) = [48, 120] @ ?d"
  proof -
    have "trim_end_matches (\<lambda>c. c = 34) ([48, 120] @ ?d) = [48, 120] @ ?d"
    proof (rule trim_end_matches_id)
      have "last ([48, 120] @ ?d) \<in> set ?d"
        using show_radix_nonempty [of 16 "unat w"] by (simp add: show_hex_def)
      then show "last ([48, 120] @ ?d) \<noteq> 34"
        using show_digits_only(2) [of "unat w"] by (fastforce simp: digits_only_def)
    qed simp
    then show ?thesis by (simp add: trim_matches_def trim_end_matches_def q_field_def)
  qed
  ultimately show ?thesis
    using hex by (simp add: parse_queue_def strip_prefix_def lit_def)
qed

definition field :: "string \<Rightarrow> ustr \<Rightarrow> ustr" where
  "field name v = (34 # lit name @ [34]) @ 58 # v"

lemma format_record_fields:
  "format_record r = 123 # field ''ts'' (show_dec (unat (host_ns r))) @ 44 #
     field ''frame'' (show_dec (unat (frame_index r))) @ 44 #
     field ''queue'' (q_field (show_hex (unat (queue_id r)))) @ 44 #
     field ''pid'' (show_dec (unat (fr_present_id r))) @ 44 #
     field ''latency_us'' (show_dec (unat (latency_us r))) @ [125, 10]"
  by (simp add: format_record_def field_def q_field_def lit_def)

lemma field_no_comma: "44 \<notin> set v \<Longrightarrow> 44 \<notin> set (lit name) \<Longrightarrow> 44 \<notin> set (field name v)"
  by (simp add: field_def)

lemma q_field_no_comma: "44 \<notin> set (q_field (show_hex n))"
  using digits_only_misc(1) [OF show_digits_only(2), of n] by (simp add: q_field_def)

lemma trim_q_field: "trim (q_field d) = q_field d"
  unfolding trim_def by (rule trim_matches_id) (simp_all add: q_field_def is_ws_def)

text \<open>Splitting a field gives back its key, unquoted, and its value.\<close>

lemma field_key:
  assumes "\<forall>c\<in>set (lit name). c \<noteq> 34 \<and> c \<noteq> 58 \<and> \<not> is_ws c"
  shows "split_once 58 (field name v) = Some (34 # lit name @ [34], v)"
    and "trim_matches (\<lambda>c. c = 34) (trim (34 # lit name @ [34])) = lit name"
proof -
  show "split_once 58 (field name v) = Some (34 # lit name @ [34], v)"
    unfolding field_def using assms by (intro split_once_append) auto
  have t: "trim (34 # lit name @ [34]) = 34 # lit name @ [34]"
    unfolding trim_def by (rule trim_matches_id) (simp_all add: is_ws_def)
  have d: "dropWhile (\<lambda>c. c = 34) (lit name @ [34]) = (if lit name = [] then [] else lit name @ [34])"
    using assms by (cases "lit name") auto
  have "dropWhile (\<lambda>c. c = 34) (rev (lit name)) = rev (lit name)"
    using assms by (cases "lit name" rule: rev_cases) auto
  then show "trim_matches (\<lambda>c. c = 34) (trim (34 # lit name @ [34])) = lit name"
    by (simp add: t d trim_matches_def trim_end_matches_def)
qed

lemma plain_names:
  "\<forall>c\<in>set (lit ''ts''). c \<noteq> 34 \<and> c \<noteq> 58 \<and> \<not> is_ws c"
  "\<forall>c\<in>set (lit ''frame''). c \<noteq> 34 \<and> c \<noteq> 58 \<and> \<not> is_ws c"
  "\<forall>c\<in>set (lit ''queue''). c \<noteq> 34 \<and> c \<noteq> 58 \<and> \<not> is_ws c"
  "\<forall>c\<in>set (lit ''pid''). c \<noteq> 34 \<and> c \<noteq> 58 \<and> \<not> is_ws c"
  "\<forall>c\<in>set (lit ''latency_us''). c \<noteq> 34 \<and> c \<noteq> 58 \<and> \<not> is_ws c"
  by (simp_all add: lit_def is_ws_def)

lemma parse_fields:
  "parse_part (field ''ts'' (show_dec (unat w))) rec = Some (rec\<lparr>ts_ns := w\<rparr>)"
  "parse_part (field ''frame'' (show_dec (unat w))) rec = Some (rec\<lparr>frame := w\<rparr>)"
  "parse_part (field ''queue'' (q_field (show_hex (unat w)))) rec = Some (rec\<lparr>queue := w\<rparr>)"
  "parse_part (field ''pid'' (show_dec (unat w))) rec = Some (rec\<lparr>pid := w\<rparr>)"
  "parse_part (field ''latency_us'' (show_dec (unat w))) rec = Some (rec\<lparr>lat_us := w\<rparr>)"
  by (simp_all add: parse_part_def plain_names [THEN field_key(1)] plain_names [THEN field_key(2)]
      Let_def digits_only_misc show_digits_only parse_u64_show parse_queue_show trim_q_field
      del: append_Cons)

lemma format_record_length: "byte_len (format_record r) \<le> MAX_LINE_BYTES"
proof -
  have len: "length (show_dec (unat w)) \<le> 20" "length (show_hex (unat w)) \<le> 20" for w :: u64
    using show_radix_length [of 10 "unat w" 19] show_radix_length [of 16 "unat w" 19] unat_u64_less [of w]
    by (simp_all add: show_dec_def show_hex_def)
  have asc: "\<forall>c\<in>set (show_dec n). c < 128" "\<forall>c\<in>set (show_hex n). c < 128" for n
    using show_digits_only [of n] by (auto simp: digits_only_def)
  have "\<forall>c\<in>set (format_record r). c < 128" using asc by (auto simp: format_record_def lit_def)
  then have "byte_len (format_record r) = length (format_record r)" by (rule byte_len_ascii)
  also have "\<dots> \<le> 1024"
    using len(1) [of "host_ns r"] len(1) [of "frame_index r"] len(2) [of "queue_id r"]
      len(1) [of "fr_present_id r"] len(1) [of "latency_us r"]
    by (simp add: format_record_def lit_def)
  finally show ?thesis by (simp add: MAX_LINE_BYTES_def)
qed

definition as_hud :: "frame_record \<Rightarrow> hud_record" where
  "as_hud r = \<lparr>ts_ns = host_ns r, frame = frame_index r, queue = queue_id r,
     pid = fr_present_id r, lat_us = latency_us r\<rparr>"

lemma split_fields:
  "split_on 44 (field ''ts'' (show_dec (unat a)) @ 44 # field ''frame'' (show_dec (unat b)) @ 44 #
     field ''queue'' (q_field (show_hex (unat c))) @ 44 # field ''pid'' (show_dec (unat d)) @ 44 #
     field ''latency_us'' (show_dec (unat e)))
   = [field ''ts'' (show_dec (unat a)), field ''frame'' (show_dec (unat b)),
      field ''queue'' (q_field (show_hex (unat c))), field ''pid'' (show_dec (unat d)),
      field ''latency_us'' (show_dec (unat e))]"
proof -
  have d: "44 \<notin> set (show_dec n)" for n using digits_only_misc(1) [OF show_digits_only(1)] .
  have "44 \<notin> set (field name (show_dec n))" if "44 \<notin> set (lit name)" for name n
    using d that by (rule field_no_comma)
  moreover have "44 \<notin> set (field ''queue'' (q_field (show_hex n)))" for n
    by (rule field_no_comma [OF q_field_no_comma]) (simp add: lit_def)
  ultimately show ?thesis by (simp add: split_on_append split_on_last lit_def)
qed

text \<open>
  The HUD reads back every record exactly as the layer sent it: parsing the line
  \<open>serve_client\<close> writes (trailing newline included) yields the record's five fields, for
  all 64-bit values. The two sides are different crates with no shared code.
\<close>

theorem parse_format_record: "parse_line (format_record r) = Some (as_hud r)"
proof -
  let ?b = "field ''ts'' (show_dec (unat (host_ns r))) @ 44 #
     field ''frame'' (show_dec (unat (frame_index r))) @ 44 #
     field ''queue'' (q_field (show_hex (unat (queue_id r)))) @ 44 #
     field ''pid'' (show_dec (unat (fr_present_id r))) @ 44 #
     field ''latency_us'' (show_dec (unat (latency_us r)))"
  have f: "format_record r = ([123] @ ?b @ [125]) @ [10]" by (simp add: format_record_fields)
  have "trim_end_matches (\<lambda>c. c = 10 \<or> c = 13) (format_record r) = [123] @ ?b @ [125]"
    unfolding f by (simp add: trim_end_matches_def)
  moreover have "trim ([123] @ ?b @ [125]) = [123] @ ?b @ [125]"
    unfolding trim_def by (rule trim_matches_id) (simp_all add: is_ws_def)
  moreover have "parse_parts (split_on 44 ?b) record_default = Some (as_hud r)"
    unfolding split_fields by (simp add: parse_fields as_hud_def record_default_def)
  ultimately show ?thesis
    using format_record_length [of r]
    by (simp add: parse_line_def Let_def strip_prefix_append [of "[123]", simplified]
        strip_suffix_append [of "[125]", simplified] del: append_assoc)
qed

end
