(* ===== verification/HudStream.thy ===== *)
theory HudStream
  imports TelemetryThread HudParse
begin

text \<open>
  The HUD's end of the telemetry socket, byte by byte: what the successive reads of
  \<open>BufReader\<close> return is cut into the results of \<open>read_line\<close> as the loop of
  \<open>tools/vkpace-hud/src/reader.rs\<close> sees them, and the loop of \<open>HudParse\<close> runs over these.
  With the thread of \<open>TelemetryThread\<close> at the other end this gives the path of a frame record
  from the layer to the window of the HUD. The stream is a list of bytes below 128, which is
  all the layer writes.
\<close>

section \<open>From reads to lines\<close>

text \<open>The answer of one \<open>read\<close> on the socket: some bytes, nothing in time, the end, or an error.\<close>

datatype sock_read = Got ustr | TimedOut | Closed | Broken

text \<open>The complete lines of a buffer, each with its newline, and what is left.\<close>

fun take_lines :: "ustr \<Rightarrow> ustr list \<times> ustr" where
  "take_lines [] = ([], [])"
| "take_lines (c # cs) =
     (case take_lines cs of (ls, rest) \<Rightarrow>
        if c = 10 then ([10] # ls, rest)
        else (case ls of [] \<Rightarrow> ([], c # rest) | l # ls' \<Rightarrow> ((c # l) # ls', rest)))"

text \<open>
  \<open>acc\<close> is the part of the current line that has been read. A read that times out ends
  \<open>read_line\<close> with an error, and the next turn of the loop begins with \<open>line.clear()\<close>: the part
  is gone. At the end of the stream a last line without a newline is still returned.
\<close>

fun line_events :: "ustr \<Rightarrow> sock_read list \<Rightarrow> read_event list" where
  "line_events acc [] = []"
| "line_events acc (Got bs # rs) =
     (case take_lines (acc @ bs) of (ls, rest) \<Rightarrow> map ReadLine ls @ line_events rest rs)"
| "line_events acc (TimedOut # rs) = ReadTimeout # line_events [] rs"
| "line_events acc (Closed # rs) = (if acc = [] then [] else [ReadLine acc]) @ [ReadEof]"
| "line_events acc (Broken # rs) = [ReadError]"

text \<open>The bytes that arrived; and reads on an open connection that time out only between lines.\<close>

fun text_of :: "sock_read list \<Rightarrow> ustr" where
  "text_of [] = []"
| "text_of (Got bs # rs) = bs @ text_of rs"
| "text_of (r # rs) = text_of rs"

fun calm :: "ustr \<Rightarrow> sock_read list \<Rightarrow> bool" where
  "calm acc [] = True"
| "calm acc (Got bs # rs) = calm (snd (take_lines (acc @ bs))) rs"
| "calm acc (TimedOut # rs) = (acc = [] \<and> calm acc rs)"
| "calm acc (r # rs) = False"

lemma take_lines_append:
  "take_lines (a @ b) = (fst (take_lines a) @ fst (take_lines (snd (take_lines a) @ b)), snd (take_lines (snd (take_lines a) @ b)))"
  by (induction a) (auto simp: case_prod_beta split: list.splits)

lemma take_lines_line: "10 \<notin> set b \<Longrightarrow> take_lines (b @ 10 # rest) = ((b @ [10]) # fst (take_lines rest), snd (take_lines rest))"
  by (induction b) (auto simp: case_prod_beta)

lemma take_lines_part: "10 \<notin> set b \<Longrightarrow> take_lines b = ([], b)"
  by (induction b) auto

lemma line_events_calm:
  "calm acc rs \<Longrightarrow> snd (take_lines acc) = acc \<Longrightarrow> fst (take_lines acc) = [] \<Longrightarrow>
     filter (\<lambda>e. e \<noteq> ReadTimeout) (line_events acc rs) = map ReadLine (fst (take_lines (acc @ text_of rs)))
     \<and> set (line_events acc rs) \<subseteq> range ReadLine \<union> {ReadTimeout}"
proof (induction acc rs rule: line_events.induct)
  case (2 acc bs rs)
  let ?t = "take_lines (acc @ bs)"
  have idem: "take_lines (snd (take_lines x)) = ([], snd (take_lines x))" for x
    using take_lines_append [of x "[]"] by (cases "take_lines (snd (take_lines x))") (simp add: prod_eq_iff)
  have "filter (\<lambda>e. e \<noteq> ReadTimeout) (line_events (snd ?t) rs) = map ReadLine (fst (take_lines (snd ?t @ text_of rs)))
     \<and> set (line_events (snd ?t) rs) \<subseteq> range ReadLine \<union> {ReadTimeout}"
    using "2.IH" [of "fst ?t" "snd ?t"] "2.prems"(1) idem [of "acc @ bs"] by simp
  then show ?case
    using take_lines_append [of "acc @ bs" "text_of rs"] by (auto simp: case_prod_beta)
next
  case (3 acc rs)
  then show ?case by auto
qed simp_all

section \<open>The reader over a stream\<close>

text \<open>Timeouts do nothing, and a line that does not parse is skipped.\<close>

lemma reader_loop_lines:
  "\<not> hud_stop s \<Longrightarrow> set es \<subseteq> range ReadLine \<union> {ReadTimeout} \<Longrightarrow> filter (\<lambda>e. e \<noteq> ReadTimeout) es = map ReadLine ls \<Longrightarrow>
     reader_loop es s = fold hud_push (List.map_filter parse_line ls) s"
proof (induction es arbitrary: s ls)
  case Nil
  then show ?case by (simp add: List.map_filter_simps)
next
  case (Cons e es)
  show ?case
  proof (cases e)
    case (ReadLine l)
    then obtain ls' where ls: "ls = l # ls'" "filter (\<lambda>e. e \<noteq> ReadTimeout) es = map ReadLine ls'"
      using Cons.prems(3) by (cases ls) auto
    show ?thesis
    proof (cases "parse_line l")
      case None
      then show ?thesis using Cons ReadLine ls by (simp add: List.map_filter_simps)
    next
      case (Some rec)
      have "\<not> hud_stop (hud_push rec s)" using Cons.prems(1) by (simp add: hud_push_def Let_def)
      then show ?thesis using Cons ReadLine ls Some by (simp add: List.map_filter_simps)
    qed
  qed (use Cons in auto)
qed

lemma format_record_line: "\<exists>b. format_record r = b @ [10] \<and> 10 \<notin> set b"
proof -
  have d: "10 \<notin> set (show_dec n)" "10 \<notin> set (show_hex n)" for n
    using show_digits_only [of n] by (auto simp: digits_only_def)
  show ?thesis
    by (intro exI [of _ "butlast (format_record r)"]) (simp add: format_record_def butlast_append d lit_def)
qed

text \<open>The lines in a prefix of what was written for some records are those of the first of them.\<close>

lemma take_lines_prefix:
  "prefix tx (concat (map format_record rs)) \<Longrightarrow>
     \<exists>n\<le>length rs. fst (take_lines tx) = map format_record (take n rs)
       \<and> (tx = concat (map format_record rs) \<longrightarrow> n = length rs)"
proof (induction rs arbitrary: tx)
  case (Cons r rs)
  obtain b where b: "format_record r = b @ [10]" "10 \<notin> set b" using format_record_line by blast
  show ?case
  proof (cases "prefix (format_record r) tx")
    case True
    then obtain tx' where t: "tx = format_record r @ tx'" by (auto elim: prefixE)
    then have "prefix tx' (concat (map format_record rs))" using Cons.prems by simp
    then obtain n where n: "n \<le> length rs" "fst (take_lines tx') = map format_record (take n rs)"
        "tx' = concat (map format_record rs) \<longrightarrow> n = length rs" using Cons.IH by blast
    show ?thesis
      by (rule exI [of _ "Suc n"]) (use n t b take_lines_line [OF b(2), of tx'] in auto)
  next
    case False
    then have "prefix tx b" "tx \<noteq> format_record r @ concat (map format_record rs)"
      using Cons.prems b by (auto simp: prefix_append prefix_Cons elim: prefixE)
    then have "10 \<notin> set tx" using b(2) by (auto dest: set_mono_prefix)
    then show ?thesis using \<open>tx \<noteq> _\<close> take_lines_part by (intro exI [of _ 0]) simp
  qed
qed simp

lemma parse_written_lines: "List.map_filter parse_line (map format_record rs) = map as_hud rs"
  by (induction rs) (simp_all add: List.map_filter_simps parse_format_record)

section \<open>From the layer to the window\<close>



lemma parse_line_needs_brace: "123 \<notin> set line \<Longrightarrow> parse_line line = None"
proof -
  assume a: "123 \<notin> set line"
  let ?s = "trim (trim_end_matches (\<lambda>c. c = 10 \<or> c = 13) line)"
  have "set ?s \<subseteq> set line"
    by (auto simp: trim_def trim_matches_def trim_end_matches_def dest!: set_dropWhileD)
  then have "123 \<notin> set ?s" using a by blast
  then have "strip_prefix [123] ?s = None"
    by (cases ?s) (auto simp: strip_prefix_def)
  then show ?thesis by (simp add: parse_line_def Let_def)
qed

text \<open>
  A read that times out inside a line loses the record: however the line is cut in two, the
  part before the timeout is thrown away, the part after it does not parse, and the state of
  the HUD stays as it was.
\<close>

theorem timeout_inside_line_loses_record:
  assumes "format_record r = a @ b" and "a \<noteq> []" and "b \<noteq> []"
  shows "reader_loop (line_events [] [Got a, TimedOut, Got b]) s = s
    \<and> (\<not> hud_stop s \<longrightarrow> hud_ring (reader_loop (line_events [] [Got a, Got b]) s) = hud_ring (hud_push (as_hud r) s))"
proof -
  obtain body where body: "format_record r = body @ [10]" "10 \<notin> set body" using format_record_line by blast
  have cut: "b = butlast b @ [10]" "body = a @ butlast b"
    using assms body(1) by (metis append_butlast_last_id last_appendR snoc_eq_iff_butlast, metis butlast_append butlast_snoc)
  then have na: "10 \<notin> set a" "10 \<notin> set (butlast b)" using body(2) by auto
  have lb: "take_lines b = ([b], [])" using take_lines_line [OF na(2), of "[]"] cut(1) by simp
  have "123 \<notin> set (show_dec n)" "123 \<notin> set (show_hex n)" for n
    using show_digits_only [of n] by (auto simp: digits_only_def)
  then have "123 \<notin> set (tl (format_record r))" by (simp add: format_record_def lit_def)
  moreover have "set b \<subseteq> set (tl (format_record r))" using assms(1,2) by (cases a) auto
  ultimately have "parse_line b = None" using parse_line_needs_brace by blast
  then have lost: "reader_loop (line_events [] [Got a, TimedOut, Got b]) s = s"
    using take_lines_part [OF na(1)] lb by simp
  have "take_lines (a @ b) = ([format_record r], [])"
    using take_lines_line [OF body(2), of "[]"] body(1) assms(1) by simp
  then show ?thesis using lost take_lines_part [OF na(1)] parse_format_record [of r] by simp
qed

theorem timeout_inside_line_loses_record_witness:
  "reader_loop (line_events [] [Got (take 9 (format_record example_record)), TimedOut, Got (drop 9 (format_record example_record))])
     shared_state_new = shared_state_new"
proof -
  have l: "9 < length (format_record example_record)" by (simp add: format_record_def lit_def)
  have "format_record example_record \<noteq> []" using l by auto
  then show ?thesis
    using timeout_inside_line_loses_record [of example_record "take 9 (format_record example_record)" "drop 9 (format_record example_record)"] l
    by simp
qed

end
