(* ===== verification/HudStats.thy ===== *)
theory HudStats
  imports HudParse
begin

text \<open>
  The HUD's aggregates (\<open>tools/vkpace-hud/src/stats.rs\<close>) and the state its window keeps
  (\<open>ui.rs\<close>): live statistics over a window, records binned by absolute time, frame gaps, the
  cached plot series and the smoothed axis bounds. A NaN that the code uses as "no point"
  is \<open>None\<close>. Drawing itself (egui calls, colours, fonts) is not modelled.
\<close>

section \<open>Live statistics\<close>

record live_data =
  ls_fps :: rat
  p50_us :: u64
  p99_us :: u64
  max_us :: u64
  samples :: nat

definition live_stats_default :: live_data where
  "live_stats_default = \<lparr>ls_fps = 0, p50_us = 0, p99_us = 0, max_us = 0, samples = 0\<rparr>"

definition live_stats :: "hud_record list \<Rightarrow> u64 \<Rightarrow> u64 \<Rightarrow> live_data" where
  "live_stats records now_ns window_ns =
     (if records = [] \<or> window_ns = 0 then live_stats_default
      else (let cutoff = saturating_sub now_ns window_ns;
                window = filter (\<lambda>r. cutoff \<le> ts_ns r) records in
        if window = [] then live_stats_default
        else (let fps = f64_div (f64_mul (f64_of_int (int (length window))) 1000000000) (f64_of_int (uint window_ns));
                  latencies = filter (\<lambda>v. 0 < v) (map lat_us window) in
          if latencies = [] then live_stats_default\<lparr>ls_fps := fps\<rparr>
          else (let s = sort latencies in
            \<lparr>ls_fps = fps, p50_us = quantile s (f64_lit (1 / 2)), p99_us = quantile s (f64_lit (99 / 100)),
             max_us = last s, samples = length s\<rparr>))))"

section \<open>Binning by absolute time\<close>

record bin =
  t_seconds :: rat
  bin_recs :: "hud_record list"
  width_ns :: u64
  is_current :: bool

text \<open>\<open>buckets.entry(key).or_default().push(r)\<close> on the ordered map, kept as a sorted list.\<close>

fun bucket_push :: "u64 \<Rightarrow> hud_record \<Rightarrow> (u64 \<times> hud_record list) list \<Rightarrow> (u64 \<times> hud_record list) list" where
  "bucket_push k r [] = [(k, [r])]"
| "bucket_push k r ((k', rs) # bs) =
     (if k < k' then (k, [r]) # (k', rs) # bs
      else if k = k' then (k', rs @ [r]) # bs
      else (k', rs) # bucket_push k r bs)"

fun fill_buckets :: "u64 \<Rightarrow> u64 \<Rightarrow> u64 \<Rightarrow> hud_record list \<Rightarrow> (u64 \<times> hud_record list) list \<Rightarrow> (u64 \<times> hud_record list) list" where
  "fill_buckets cutoff now_ns bin_ns [] bs = bs"
| "fill_buckets cutoff now_ns bin_ns (r # rs) bs =
     (if ts_ns r < cutoff \<or> now_ns < ts_ns r then fill_buckets cutoff now_ns bin_ns rs bs
      else fill_buckets cutoff now_ns bin_ns rs (bucket_push (ts_ns r div bin_ns) r bs))"

definition make_bin :: "u64 \<Rightarrow> u64 \<Rightarrow> u64 \<times> hud_record list \<Rightarrow> bin" where
  "make_bin now_ns bin_ns kb =
     (let bin_start = fst kb * bin_ns; cur = (fst kb = now_ns div bin_ns) in
      \<lparr>t_seconds = f64_div (f64_sub (f64_of_int (uint bin_start)) (f64_of_int (uint now_ns))) 1000000000,
       bin_recs = snd kb,
       width_ns = (if cur then max (saturating_sub now_ns bin_start) 1 else bin_ns),
       is_current = cur\<rparr>)"

definition bins_of :: "hud_record list \<Rightarrow> u64 \<Rightarrow> u64 \<Rightarrow> u64 \<Rightarrow> (u64 \<times> hud_record list) list" where
  "bins_of records now_ns window_ns bin_ns =
     (if bin_ns = 0 \<or> records = [] \<or> now_ns = 0 then []
      else filter (\<lambda>kb. snd kb \<noteq> []) (fill_buckets (saturating_sub now_ns window_ns) now_ns bin_ns records []))"

definition bin_records ::
  "hud_record list \<Rightarrow> u64 \<Rightarrow> u64 \<Rightarrow> u64 \<Rightarrow> (bin \<Rightarrow> 'b) \<Rightarrow> (rat \<times> 'b) list" where
  "bin_records records now_ns window_ns bin_ns agg =
     map (\<lambda>kb. (t_seconds (make_bin now_ns bin_ns kb), agg (make_bin now_ns bin_ns kb)))
         (bins_of records now_ns window_ns bin_ns)"

section \<open>Frame gaps\<close>

text \<open>\<open>windows(2)\<close>; the sum and difference of frame numbers wrap.\<close>

fun frame_gaps :: "hud_record list \<Rightarrow> (rat \<times> rat) list" where
  "frame_gaps (a # b # rs) =
     (if frame a + 1 < frame b
      then [(f64_of_int (uint (frame b)), f64_of_int (uint (frame b - frame a - 1)))] else [])
     @ frame_gaps (b # rs)"
| "frame_gaps rs = []"

text \<open>\<open>.map(|p| p[1] as u64).sum()\<close> in \<open>recompute_cache\<close>.\<close>

definition drops_of :: "hud_record list \<Rightarrow> u64" where
  "drops_of rs = sum_list (map (\<lambda>p. word_of_int (f64_trunc (snd p))) (frame_gaps rs))"

section \<open>The window's state\<close>

definition WINDOW_NS :: u64 where "WINDOW_NS = 60000000000"
definition BIN_NS :: u64 where "BIN_NS = 500000000"
definition STATS_WINDOW_NS :: u64 where "STATS_WINDOW_NS = 1000000000"
definition RECOMPUTE_INTERVAL_NS :: u64 where "RECOMPUTE_INTERVAL_NS = 100000000"

definition bin_percentile :: "hud_record list \<Rightarrow> rat \<Rightarrow> rat" where
  "bin_percentile bucket q =
     (let v = filter (\<lambda>x. 0 < x) (map lat_us bucket) in
      if v = [] then 0 else f64_of_int (uint (quantile (sort v) q)))"

text \<open>The aggregation closures of \<open>recompute_cache\<close>; \<open>None\<close> is the NaN that is filtered out.\<close>

definition too_thin :: "bin \<Rightarrow> bool" where
  "too_thin b \<longleftrightarrow> (is_current b \<and> width_ns b < 100000000) \<or> (\<not> is_current b \<and> length (bin_recs b) < 4)"

definition fps_agg :: "bin \<Rightarrow> rat option" where
  "fps_agg b = (if too_thin b then None
     else Some (f64_div (f64_mul (f64_of_int (int (length (bin_recs b)))) 1000000000) (f64_of_int (uint (width_ns b)))))"

definition frametime_agg :: "bin \<Rightarrow> rat option" where
  "frametime_agg b = (if too_thin b then None
     else Some (f64_div (f64_mul (f64_div (f64_of_int (uint (width_ns b))) 1000000000) 1000)
                        (f64_of_int (int (length (bin_recs b))))))"

definition max_agg :: "bin \<Rightarrow> rat" where
  "max_agg b = foldl max 0 (map (\<lambda>r. f64_of_int (uint (lat_us r))) (bin_recs b))"

definition finite_points :: "(rat \<times> rat option) list \<Rightarrow> (rat \<times> rat) list" where
  "finite_points ps = map (\<lambda>p. (fst p, the (snd p))) (filter (\<lambda>p. snd p \<noteq> None) ps)"

record plot_cache =
  last_now_ns :: u64
  live :: live_data
  drops :: u64
  pc_samples :: nat
  fps_pts :: "(rat \<times> rat) list"
  p50_pts :: "(rat \<times> rat) list"
  p99_pts :: "(rat \<times> rat) list"
  max_pts :: "(rat \<times> rat) list"
  frametime_pts :: "(rat \<times> rat) list"

definition plot_cache_default :: plot_cache where
  "plot_cache_default = \<lparr>last_now_ns = 0, live = live_stats_default, drops = 0, pc_samples = 0,
     fps_pts = [], p50_pts = [], p99_pts = [], max_pts = [], frametime_pts = []\<rparr>"

record hud_app =
  fps_y_max :: rat
  frametime_y_max :: rat
  latency_y_max :: rat
  cache :: plot_cache

definition hud_app_new :: hud_app where
  "hud_app_new = \<lparr>fps_y_max = 160, frametime_y_max = 33, latency_y_max = 30000, cache = plot_cache_default\<rparr>"

definition recompute_cache :: "shared_state \<Rightarrow> u64 \<Rightarrow> plot_cache" where
  "recompute_cache st now_ns =
     (let snap = snapshot_since (saturating_sub now_ns WINDOW_NS) st;
          lv = live_stats snap now_ns STATS_WINDOW_NS;
          quiet = (samples lv = 0)
      in \<lparr>last_now_ns = now_ns, live = lv, drops = drops_of snap, pc_samples = samples lv,
          fps_pts = finite_points (bin_records snap now_ns WINDOW_NS BIN_NS fps_agg),
          p50_pts = (if quiet then [] else bin_records snap now_ns WINDOW_NS BIN_NS (\<lambda>b. bin_percentile (bin_recs b) (f64_lit (1 / 2)))),
          p99_pts = (if quiet then [] else bin_records snap now_ns WINDOW_NS BIN_NS (\<lambda>b. bin_percentile (bin_recs b) (f64_lit (99 / 100)))),
          max_pts = (if quiet then [] else bin_records snap now_ns WINDOW_NS BIN_NS max_agg),
          frametime_pts = finite_points (bin_records snap now_ns WINDOW_NS BIN_NS frametime_agg)\<rparr>)"

definition smooth_bound :: "rat \<Rightarrow> rat \<Rightarrow> rat \<Rightarrow> rat \<Rightarrow> rat" where
  "smooth_bound prev target lo hi =
     (let alpha = f64_lit (5 / 100);
          nxt = f64_add (f64_mul prev (f64_sub 1 alpha)) (f64_mul target alpha)
      in f64_clamp nxt lo hi)"

text \<open>One \<open>update\<close>: refresh the cache when the 100 ms bucket of the newest record moved, then
  step the three axis bounds towards their targets.\<close>

definition hud_update :: "shared_state \<Rightarrow> hud_app \<Rightarrow> hud_app" where
  "hud_update st app =
     (let now_ns = (case latest_ts st of None \<Rightarrow> 0 | Some t \<Rightarrow> t);
          c = (if 0 < now_ns \<and> now_ns div RECOMPUTE_INTERVAL_NS \<noteq> last_now_ns (cache app) div RECOMPUTE_INTERVAL_NS
               then recompute_cache st now_ns else cache app);
          fps = ls_fps (live c);
          fps_target = max (f64_mul fps (f64_lit (125 / 100))) 160;
          frametime_target = max (f64_mul (f64_mul (f64_div 1 (max fps 30)) 1000) 2) 20;
          latency_target = max (f64_mul (f64_of_int (uint (max_us (live c)))) (f64_lit (14 / 10))) 8000
      in \<lparr>fps_y_max = smooth_bound (fps_y_max app) fps_target 60 600,
          frametime_y_max = smooth_bound (frametime_y_max app) frametime_target 16 200,
          latency_y_max = smooth_bound (latency_y_max app) latency_target 8000 200000,
          cache = c\<rparr>)"

section \<open>Lemmas on buckets\<close>

definition bucket_of :: "(u64 \<times> hud_record list) list \<Rightarrow> u64 \<Rightarrow> hud_record list" where
  "bucket_of bs k = (case map_of bs k of None \<Rightarrow> [] | Some rs \<Rightarrow> rs)"

abbreviation keys :: "(u64 \<times> hud_record list) list \<Rightarrow> u64 list" where
  "keys bs \<equiv> map fst bs"

lemma set_keys_push: "set (keys (bucket_push k r bs)) = insert k (set (keys bs))"
  by (induction k r bs rule: bucket_push.induct) auto

lemma sorted_keys_push: "sorted_wrt (<) (keys bs) \<Longrightarrow> sorted_wrt (<) (keys (bucket_push k r bs))"
  by (induction k r bs rule: bucket_push.induct) (auto simp: set_keys_push [simplified] dest: order.strict_trans)

lemma bucket_of_push:
  "sorted_wrt (<) (keys bs) \<Longrightarrow>
     bucket_of (bucket_push k r bs) = (bucket_of bs)(k := bucket_of bs k @ [r])"
proof (induction k r bs rule: bucket_push.induct)
  case (1 k r)
  then show ?case by (auto simp: bucket_of_def fun_eq_iff)
next
  case (2 k r k' rs bs)
  have fresh: "k < k' \<Longrightarrow> map_of bs k = None"
    using "2.prems" by (auto simp: map_of_eq_None_iff)
  show ?case
    using 2 fresh by (auto simp: bucket_of_def fun_eq_iff split: option.splits)
qed

lemma buckets_nonempty_push:
  "\<forall>b\<in>set bs. snd b \<noteq> [] \<Longrightarrow> \<forall>b\<in>set (bucket_push k r bs). snd b \<noteq> []"
  by (induction k r bs rule: bucket_push.induct) auto

lemma mset_push: "mset (concat (map snd (bucket_push k r bs))) = mset (concat (map snd bs)) + {#r#}"
  by (induction k r bs rule: bucket_push.induct) auto

abbreviation in_window :: "u64 \<Rightarrow> u64 \<Rightarrow> hud_record \<Rightarrow> bool" where
  "in_window cutoff now r \<equiv> cutoff \<le> ts_ns r \<and> ts_ns r \<le> now"

lemma fill_buckets_inv:
  assumes "sorted_wrt (<) (keys bs)" and "\<forall>b\<in>set bs. snd b \<noteq> []"
  shows "sorted_wrt (<) (keys (fill_buckets cutoff now bin_ns rs bs))
    \<and> (\<forall>b\<in>set (fill_buckets cutoff now bin_ns rs bs). snd b \<noteq> [])
    \<and> mset (concat (map snd (fill_buckets cutoff now bin_ns rs bs)))
        = mset (concat (map snd bs)) + mset (filter (in_window cutoff now) rs)
    \<and> bucket_of (fill_buckets cutoff now bin_ns rs bs)
        = (\<lambda>k. bucket_of bs k @ filter (\<lambda>r. in_window cutoff now r \<and> ts_ns r div bin_ns = k) rs)"
  using assms
proof (induction rs arbitrary: bs)
  case Nil
  then show ?case by simp
next
  case (Cons r rs)
  show ?case
  proof (cases "in_window cutoff now r")
    case False
    then show ?thesis using Cons by (auto simp: not_le)
  next
    case True
    then have "\<not> (ts_ns r < cutoff \<or> now < ts_ns r)" by auto
    moreover note Cons.IH [OF sorted_keys_push [OF Cons.prems(1), of "ts_ns r div bin_ns" r]
        buckets_nonempty_push [OF Cons.prems(2), of "ts_ns r div bin_ns" r]]
    ultimately show ?thesis
      using True Cons.prems(1) by (simp add: mset_push bucket_of_push fun_eq_iff)
  qed
qed

lemma bins_of_inv:
  "sorted_wrt (<) (keys (bins_of records now w b)) \<and> (\<forall>kb\<in>set (bins_of records now w b). snd kb \<noteq> [])
   \<and> (b \<noteq> 0 \<longrightarrow> now \<noteq> 0 \<longrightarrow>
      mset (concat (map snd (bins_of records now w b))) = mset (filter (in_window (saturating_sub now w) now) records)
      \<and> bucket_of (bins_of records now w b)
         = (\<lambda>k. filter (\<lambda>r. in_window (saturating_sub now w) now r \<and> ts_ns r div b = k) records))"
proof -
  let ?c = "saturating_sub now w"
  note inv = fill_buckets_inv [of "[]" ?c now b records]
  then have "filter (\<lambda>kb. snd kb \<noteq> []) (fill_buckets ?c now b records []) = fill_buckets ?c now b records []"
    by (simp add: filter_id_conv)
  with inv show ?thesis by (auto simp: bins_of_def bucket_of_def)
qed

lemma bucket_of_member:
  "sorted_wrt (<) (keys bs) \<Longrightarrow> (k, rs) \<in> set bs \<Longrightarrow> bucket_of bs k = rs"
  by (simp add: bucket_of_def strict_sorted_iff map_of_is_SomeI)

lemma bin_recs_make_bin [simp]: "bin_recs (make_bin now b kb) = snd kb"
  by (simp add: make_bin_def Let_def)

section \<open>Properties\<close>

text \<open>
  Binning loses and duplicates nothing: the bins together hold exactly the records of
  the window, no bin is empty, and each bin is, in arrival order, all window records with
  its absolute bin number.
\<close>

theorem bin_records_partition:
  assumes "bin_ns \<noteq> 0" and "now_ns \<noteq> 0"
  shows "mset (concat (map snd (bin_records records now_ns w bin_ns bin_recs)))
      = mset (filter (in_window (saturating_sub now_ns w) now_ns) records)
    \<and> (\<forall>p\<in>set (bin_records records now_ns w bin_ns bin_recs). snd p \<noteq> [] \<and>
        (\<exists>k. snd p = filter (\<lambda>r. in_window (saturating_sub now_ns w) now_ns r \<and> ts_ns r div bin_ns = k) records))"
proof -
  let ?bs = "bins_of records now_ns w bin_ns"
  have snds: "map snd (bin_records records now_ns w bin_ns bin_recs) = map snd ?bs"
    by (simp add: bin_records_def)
  have srt: "sorted_wrt (<) (keys ?bs)" using bins_of_inv by blast
  have "\<forall>kb\<in>set ?bs. snd kb = bucket_of ?bs (fst kb)"
    using bucket_of_member [OF srt] by force
  then have cls: "\<forall>kb\<in>set ?bs. snd kb =
      filter (\<lambda>r. in_window (saturating_sub now_ns w) now_ns r \<and> ts_ns r div bin_ns = fst kb) records"
    using bins_of_inv [of records now_ns w bin_ns] assms by simp
  have nonempty: "\<forall>kb\<in>set ?bs. snd kb \<noteq> []" using bins_of_inv by blast
  have mem: "\<forall>p\<in>set (bin_records records now_ns w bin_ns bin_recs). \<exists>kb\<in>set ?bs. snd p = snd kb"
    by (auto simp: bin_records_def)
  have m: "mset (concat (map snd ?bs)) = mset (filter (in_window (saturating_sub now_ns w) now_ns) records)"
    using bins_of_inv [of records now_ns w bin_ns] assms by blast
  have e: "snd p \<noteq> [] \<and> (\<exists>k. snd p =
      filter (\<lambda>r. in_window (saturating_sub now_ns w) now_ns r \<and> ts_ns r div bin_ns = k) records)"
    if "p \<in> set (bin_records records now_ns w bin_ns bin_recs)" for p
  proof -
    from mem that obtain kb where "kb \<in> set ?bs" "snd p = snd kb" by blast
    moreover from this have "snd kb \<noteq> []" using nonempty by blast
    moreover have "snd kb = filter (\<lambda>r. in_window (saturating_sub now_ns w) now_ns r \<and> ts_ns r div bin_ns = fst kb) records"
      using cls \<open>kb \<in> set ?bs\<close> by blast
    ultimately show ?thesis by (intro conjI exI [of _ "fst kb"]) simp_all
  qed
  show ?thesis unfolding snds by (rule conjI [OF m ballI [OF e]])
qed

theorem bin_records_partition_witness:
  "mset (concat (map snd (bin_records
      [record_default\<lparr>ts_ns := 450\<rparr>, record_default\<lparr>ts_ns := 550\<rparr>, record_default\<lparr>ts_ns := 900\<rparr>] 600 1000 500 bin_recs)))
   = {#record_default\<lparr>ts_ns := 450\<rparr>, record_default\<lparr>ts_ns := 550\<rparr>#}"
  using bin_records_partition [of 500 600
      "[record_default\<lparr>ts_ns := 450\<rparr>, record_default\<lparr>ts_ns := 550\<rparr>, record_default\<lparr>ts_ns := 900\<rparr>]" 1000]
  by (simp add: saturating_sub_def)

text \<open>
  A sealed bin never changes: once \<open>now\<close> has passed a bin, later records and a later
  \<open>now\<close> leave its contents, width and flag as they were (as long as it is inside the
  window); only its position \<open>t_seconds\<close> moves. This is what snapping the bins to absolute
  time is for.
\<close>

theorem sealed_bins_are_stable:
  assumes nz: "bin_ns \<noteq> 0" "now \<noteq> 0" and later: "now \<le> now'"
    and sealed: "key < now div bin_ns"
    and inside: "unat (saturating_sub now' w) \<le> unat key * unat bin_ns"
    and old: "\<forall>r\<in>set rs. ts_ns r \<le> now" and fresh: "\<forall>r\<in>set new. now \<le> ts_ns r"
  shows "bucket_of (bins_of (rs @ new) now' w bin_ns) key = bucket_of (bins_of rs now w bin_ns) key
    \<and> (make_bin now' bin_ns (key, recs))\<lparr>t_seconds := 0\<rparr> = (make_bin now bin_ns (key, recs))\<lparr>t_seconds := 0\<rparr>"
proof -
  have nz': "now' \<noteq> 0" using nz(2) later by (metis word_le_0_iff)
  have sealed': "key < now' div bin_ns"
    using sealed u64_div_mono [OF later, of bin_ns] by (rule order.strict_trans2)
  have new_out: "ts_ns r div bin_ns \<noteq> key" if "r \<in> set new" for r
    using sealed u64_div_mono [of now "ts_ns r" bin_ns] fresh that by auto
  have in': "saturating_sub now' w \<le> ts_ns r" if "ts_ns r div bin_ns = key" for r
    using inside u64_div_mult_le [of "ts_ns r" bin_ns] that by (simp add: word_le_nat_alt)
  have in0: "saturating_sub now w \<le> ts_ns r" if "ts_ns r div bin_ns = key" for r
    using in' [OF that] saturating_sub_mono [OF later] by (rule order.trans [rotated])
  have "filter (\<lambda>r. in_window (saturating_sub now' w) now' r \<and> ts_ns r div bin_ns = key) (rs @ new)
      = filter (\<lambda>r. in_window (saturating_sub now w) now r \<and> ts_ns r div bin_ns = key) rs"
    using new_out in' in0 old later by (auto intro!: filter_cong simp: filter_empty_conv)
  moreover have "make_bin now' bin_ns (key, recs)\<lparr>t_seconds := 0\<rparr> = make_bin now bin_ns (key, recs)\<lparr>t_seconds := 0\<rparr>"
    using sealed sealed' by (auto simp: make_bin_def Let_def)
  ultimately show ?thesis using bins_of_inv nz nz' by simp
qed

theorem sealed_bins_are_stable_witness:
  "bucket_of (bins_of ([record_default\<lparr>ts_ns := 450\<rparr>, record_default\<lparr>ts_ns := 550\<rparr>] @ [record_default\<lparr>ts_ns := 700\<rparr>])
      1200 2000 500) 0
   = bucket_of (bins_of [record_default\<lparr>ts_ns := 450\<rparr>, record_default\<lparr>ts_ns := 550\<rparr>] 600 2000 500) 0"
  by (rule sealed_bins_are_stable [THEN conjunct1]) (simp_all add: saturating_sub_def)

text \<open>A frame gap is exact as a double below \<open>2 ^ 53\<close>.\<close>

lemma f64_of_int_exact: "\<bar>n\<bar> \<le> 2 ^ 53 \<Longrightarrow> f64_of_int n = of_int n"
  by (simp add: f64_of_int_def f64_rnd_int)

lemma frame_step:
  assumes "frame a < frame b" and "unat (frame b) < 2 ^ 53"
  shows "unat (drops_of (a # b # rs)) = unat (word_of_nat (unat (frame b) - unat (frame a) - 1) + drops_of (b # rs))"
proof -
  have ab: "unat (frame a) < unat (frame b)" using assms(1) by (simp add: word_less_nat_alt)
  have s: "unat (frame a + 1) = unat (frame a) + 1"
    using ab assms(2) by (simp add: unat_word_ariths)
  have d: "unat (frame b - frame a - 1) = unat (frame b) - unat (frame a) - 1"
    if "frame a + 1 < frame b"
    using that ab s by (simp add: unat_sub_if' word_less_nat_alt word_le_nat_alt)
  show ?thesis
  proof (cases "frame a + 1 < frame b")
    case True
    have "uint (frame b - frame a - 1) = int (unat (frame b) - unat (frame a) - 1)"
      using d [OF True] by (metis uint_nat)
    moreover have "\<bar>int (unat (frame b) - unat (frame a) - 1)\<bar> \<le> 2 ^ 53"
    proof -
      have "unat (frame b) - unat (frame a) - 1 < 2 ^ 53" using assms(2) by simp
      then show ?thesis by simp
    qed
    ultimately show ?thesis
      using True by (simp add: drops_of_def f64_of_int_exact)
  next
    case False
    then have "unat (frame b) - unat (frame a) - 1 = 0"
      using ab s by (simp add: word_less_nat_alt)
    then show ?thesis using False by (simp add: drops_of_def)
  qed
qed

text \<open>
  The HUD's drop counter is the number of frame numbers missing from the stream: over
  records with increasing frame numbers (below \<open>2 ^ 53\<close>, so that they are exact as doubles)
  the received records and the dropped ones together span the interval from the first
  frame to the last.
\<close>

theorem drops_count_missing_frames:
  assumes "sorted_wrt (\<lambda>a b. frame a < frame b) rs" and "rs \<noteq> []" and "\<forall>r\<in>set rs. unat (frame r) < 2 ^ 53"
  shows "unat (frame (hd rs)) + (length rs - 1) + unat (drops_of rs) = unat (frame (last rs))"
  using assms
proof (induction rs rule: frame_gaps.induct)
  case (1 a b rs)
  have ab: "frame a < frame b" and b: "unat (frame b) < 2 ^ 53" using "1.prems" by simp_all
  then have abn: "unat (frame a) < unat (frame b)" by (simp add: word_less_nat_alt)
  have IH: "unat (frame b) + length rs + unat (drops_of (b # rs)) = unat (frame (last (b # rs)))"
    using "1.IH" "1.prems" by simp
  have last53: "unat (frame (last (b # rs))) < 2 ^ 53"
    using "1.prems"(3) last_in_set [of "b # rs"] by (metis insertCI list.simps(15) list.discI)
  have "unat (drops_of (a # b # rs)) = unat (frame b) - unat (frame a) - 1 + unat (drops_of (b # rs))"
    using b IH last53 unfolding frame_step [OF ab b]
    by (simp add: unat_word_ariths unat_of_nat take_bit_eq_mod)
  then show ?case using abn IH by simp
qed (simp_all add: drops_of_def)

theorem drops_count_missing_frames_witness:
  "unat (drops_of [record_default\<lparr>frame := 1\<rparr>, record_default\<lparr>frame := 2\<rparr>, record_default\<lparr>frame := 6\<rparr>]) = 3"
  using drops_count_missing_frames [of "[record_default\<lparr>frame := 1\<rparr>, record_default\<lparr>frame := 2\<rparr>, record_default\<lparr>frame := 6\<rparr>]"]
  by simp

end
