(* ===== verification/HudView.thy ===== *)
theory HudView
  imports HudStats
begin

text \<open>
  What the window of the HUD shows (\<open>ui.rs\<close> and \<open>theme.rs\<close> of \<open>tools/vkpace-hud\<close>): the
  metric tiles of the top strip with their texts and colours, the connection pill, and the
  three plot cards with their axis bounds and lines. A widget is a record of what the code
  hands to the window library; margins, fonts, stroke widths and the layout are left out.
\<close>

section \<open>Palette\<close>

datatype color32 = Rgb nat nat nat | Rgba nat nat nat nat

definition FG_WEAK :: color32 where "FG_WEAK = Rgb 120 130 150"
definition FG_NORMAL :: color32 where "FG_NORMAL = Rgb 200 208 222"
definition OK_GREEN :: color32 where "OK_GREEN = Rgb 96 220 140"
definition WARN_AMBER :: color32 where "WARN_AMBER = Rgb 255 188 90"
definition BAD_RED :: color32 where "BAD_RED = Rgb 255 110 110"
definition LINE_FPS :: color32 where "LINE_FPS = Rgb 120 220 160"
definition LINE_FRAMETIME :: color32 where "LINE_FRAMETIME = Rgb 120 200 250"
definition LINE_P50 :: color32 where "LINE_P50 = Rgb 120 200 250"
definition LINE_P99 :: color32 where "LINE_P99 = Rgb 255 188 90"
definition LINE_MAX :: color32 where "LINE_MAX = Rgb 255 110 110"

lemmas palette = FG_WEAK_def FG_NORMAL_def OK_GREEN_def WARN_AMBER_def BAD_RED_def

definition fps_color :: "rat \<Rightarrow> color32" where
  "fps_color fps = (if fps \<le> 0 then FG_WEAK else if 120 \<le> fps then OK_GREEN else if 60 \<le> fps then WARN_AMBER else BAD_RED)"

definition latency_color :: "u64 \<Rightarrow> color32" where
  "latency_color us = (if us = 0 then FG_WEAK else if us < 16000 then OK_GREEN else if us < 33000 then WARN_AMBER else BAD_RED)"

section \<open>Texts\<close>

text \<open>\<open>{:.d}\<close> of a non-negative double: \<open>d\<close> decimals, correctly rounded, ties to even.\<close>

definition show_fixed :: "nat \<Rightarrow> rat \<Rightarrow> ustr" where
  "show_fixed d x =
     (let n = nat (rne (x * 10 ^ d)); f = show_dec (n mod 10 ^ d) in
      show_dec (n div 10 ^ d) @ lit ''.'' @ replicate (d - length f) 48 @ f)"

text \<open>The em dash and the micro sign are outside ASCII.\<close>

definition us_label :: "u64 \<Rightarrow> ustr" where
  "us_label us =
     (if us = 0 then [0x2014]
      else if 1000 \<le> us then show_fixed 2 (f64_div (f64_of_int (uint us)) 1000) @ lit '' ms''
      else show_dec (unat us) @ [32, 0xB5, 115])"

section \<open>The top strip\<close>

record tile =
  tl_label :: ustr
  tl_value :: ustr
  tl_color :: color32

definition metric_tile :: "string \<Rightarrow> ustr \<Rightarrow> color32 \<Rightarrow> tile" where
  "metric_tile label val c = \<lparr>tl_label = lit label, tl_value = val, tl_color = c\<rparr>"

record pill =
  pl_text :: ustr
  pl_color :: color32
  pl_bg :: color32

definition connection_pill :: "bool \<Rightarrow> pill" where
  "connection_pill up =
     (if up then \<lparr>pl_text = lit ''connected'', pl_color = OK_GREEN, pl_bg = Rgba 96 220 140 36\<rparr>
      else \<lparr>pl_text = lit ''disconnected'', pl_color = BAD_RED, pl_bg = Rgba 255 110 110 36\<rparr>)"

definition top_strip :: "bool \<Rightarrow> live_data \<Rightarrow> u64 \<Rightarrow> tile list \<times> pill" where
  "top_strip up lv dropped =
     ([metric_tile ''fps'' (show_fixed 1 (ls_fps lv)) (fps_color (ls_fps lv)),
       metric_tile ''p50'' (us_label (p50_us lv)) (latency_color (p50_us lv)),
       metric_tile ''p99'' (us_label (p99_us lv)) (latency_color (p99_us lv)),
       metric_tile ''max'' (us_label (max_us lv)) (latency_color (max_us lv)),
       metric_tile ''samples'' (show_dec (samples lv)) (if samples lv = 0 then FG_WEAK else FG_NORMAL),
       metric_tile ''drops/60s'' (show_dec (unat dropped)) (if dropped = 0 then OK_GREEN else WARN_AMBER)],
      connection_pill up)"

section \<open>The plots\<close>

record plot_line =
  ln_name :: ustr
  ln_points :: "(rat \<times> rat) list"
  ln_color :: color32

text \<open>A card has a plot with its bounds, lower left and upper right, or a hint in place of it.\<close>

datatype card_body = CardPlot "rat \<times> rat" "rat \<times> rat" "plot_line list" | CardHint "(ustr \<times> color32) list"

definition no_latency_hint :: card_body where
  "no_latency_hint = CardHint
     [(lit ''no latency samples'', FG_NORMAL), (lit ''app is not calling vkSetLatencyMarkerNV (Reflex)'', FG_WEAK)]"

record plot_card =
  pc_title :: ustr
  pc_body :: card_body

definition plot_line_of :: "string \<Rightarrow> (rat \<times> rat) list \<Rightarrow> color32 \<Rightarrow> plot_line" where
  "plot_line_of name pts c = \<lparr>ln_name = lit name, ln_points = pts, ln_color = c\<rparr>"

definition plot_card_of :: "ustr \<Rightarrow> card_body \<Rightarrow> plot_card" where
  "plot_card_of title body = \<lparr>pc_title = title, pc_body = body\<rparr>"

definition plots_cached :: "plot_cache \<Rightarrow> rat \<Rightarrow> rat \<Rightarrow> rat \<Rightarrow> plot_card list" where
  "plots_cached c fps_y frametime_y latency_y =
     [plot_card_of (lit ''fps'') (CardPlot (- 60, 0) (0, fps_y) [plot_line_of ''fps'' (fps_pts c) LINE_FPS]),
      plot_card_of (lit ''click-to-photon ('' @ [0xB5, 115] @ lit '')'')
        (if pc_samples c = 0 then no_latency_hint
         else CardPlot (- 60, 0) (0, latency_y)
           [plot_line_of ''p50'' (p50_pts c) LINE_P50, plot_line_of ''p99'' (p99_pts c) LINE_P99, plot_line_of ''max'' (max_pts c) LINE_MAX]),
      plot_card_of (lit ''frame-time (ms)'') (CardPlot (- 60, 0) (0, frametime_y) [plot_line_of ''frame-time'' (frametime_pts c) LINE_FRAMETIME])]"

text \<open>One frame of the window: \<open>update\<close> steps the state and then draws from it.\<close>

record hud_frame =
  hf_strip :: "tile list \<times> pill"
  hf_plots :: "plot_card list"

definition hud_draw :: "shared_state \<Rightarrow> hud_app \<Rightarrow> hud_app \<times> hud_frame" where
  "hud_draw st app =
     (let app' = hud_update st app; c = cache app' in
      (app', \<lparr>hf_strip = top_strip (connected st) (live c) (drops c),
         hf_plots = plots_cached c (fps_y_max app') (frametime_y_max app') (latency_y_max app')\<rparr>))"

definition on_exit :: "shared_state \<Rightarrow> shared_state" where
  "on_exit st = st\<lparr>hud_stop := True\<rparr>"

section \<open>The numbers shown\<close>

lemma saturating_sub_antimono: "a \<le> b \<Longrightarrow> saturating_sub x b \<le> saturating_sub x (a :: u64)"
  by (simp add: word_le_def uint_saturating_sub)

lemma fps_exact: "n \<le> HUD_RING_CAPACITY \<Longrightarrow>
    f64_div (f64_mul (f64_of_int (int n)) 1000000000) (f64_of_int (uint STATS_WINDOW_NS)) = of_nat n"
proof -
  assume n: "n \<le> HUD_RING_CAPACITY"
  then have b: "int n \<le> 4096" by (simp add: HUD_RING_CAPACITY_def)
  have "f64_mul (f64_of_int (int n)) 1000000000 = of_int (int n * 1000000000)"
    using b f64_of_int_exact [of "int n"] f64_rnd_int [of "int n * 1000000000"] by (simp add: f64_mul_def)
  moreover have "f64_of_int (uint STATS_WINDOW_NS) = 1000000000"
    using f64_of_int_exact [of 1000000000] by (simp add: STATS_WINDOW_NS_def)
  moreover have "f64_rnd (of_nat n) = of_nat n" using b f64_rnd_int [of "int n"] by simp
  ultimately show ?thesis by (simp add: f64_div_def)
qed

lemma show_fixed_1_nat: "show_fixed 1 (of_nat n) = show_dec n @ lit ''.0''"
proof -
  have "rne (of_nat n * 10 ^ 1) = int n * 10" using rne_of_int [of "int n * 10"] by simp
  moreover have "show_dec 0 = [48]" by (simp add: show_dec_def show_radix.simps digit_char_def)
  ultimately show ?thesis by (simp add: show_fixed_def lit_def nat_mult_distrib)
qed

text \<open>The records of the last second before the newest one.\<close>

definition last_second :: "shared_state \<Rightarrow> hud_record list" where
  "last_second st = filter (\<lambda>r. saturating_sub (ts_ns (last (hud_ring st))) STATS_WINDOW_NS \<le> ts_ns r) (hud_ring st)"

definition last_minute :: "shared_state \<Rightarrow> hud_record list" where
  "last_minute st = filter (\<lambda>r. saturating_sub (ts_ns (last (hud_ring st))) WINDOW_NS \<le> ts_ns r) (hud_ring st)"

lemma last_second_of_minute:
  "filter (\<lambda>r. saturating_sub (ts_ns (last (hud_ring st))) STATS_WINDOW_NS \<le> ts_ns r) (last_minute st) = last_second st"
proof -
  let ?now = "ts_ns (last (hud_ring st))"
  have le: "saturating_sub ?now WINDOW_NS \<le> saturating_sub ?now STATS_WINDOW_NS"
    by (rule saturating_sub_antimono) (simp add: STATS_WINDOW_NS_def WINDOW_NS_def)
  show ?thesis
    unfolding last_minute_def last_second_def filter_filter
    by (intro filter_cong) (auto intro: order.trans [OF le])
qed

lemma last_second_nonempty: "hud_ring st \<noteq> [] \<Longrightarrow> last_second st \<noteq> [] \<and> last_minute st \<noteq> []"
proof -
  assume ne: "hud_ring st \<noteq> []"
  have "saturating_sub x w \<le> x" for x w :: u64 by (simp add: word_le_def uint_saturating_sub)
  then have "last (hud_ring st) \<in> set (last_second st)" "last (hud_ring st) \<in> set (last_minute st)"
    using ne by (simp_all add: last_second_def last_minute_def)
  then show ?thesis by auto
qed

lemma live_of_snapshot:
  assumes "hud_ring st \<noteq> []" and "length (hud_ring st) \<le> HUD_RING_CAPACITY"
  defines "lv \<equiv> live_stats (last_minute st) (ts_ns (last (hud_ring st))) STATS_WINDOW_NS"
  shows "ls_fps lv = of_nat (length (last_second st))"
    and "samples lv = length (filter (\<lambda>v. 0 < v) (map lat_us (last_second st)))"
proof -
  have n: "length (last_second st) \<le> HUD_RING_CAPACITY"
    using assms(2) length_filter_le [of _ "hud_ring st"] unfolding last_second_def by (rule order.trans [rotated])
  show "ls_fps lv = of_nat (length (last_second st))"
    and "samples lv = length (filter (\<lambda>v. 0 < v) (map lat_us (last_second st)))"
    using last_second_nonempty [OF assms(1)] fps_exact [OF n] last_second_of_minute [of st]
    by (simp_all add: lv_def live_stats_def Let_def live_stats_default_def STATS_WINDOW_NS_def filter_map)
qed

lemma last_sort: "xs \<noteq> [] \<Longrightarrow> last (sort xs) \<in> set xs \<and> (\<forall>v\<in>set xs. v \<le> last (sort xs))"
proof -
  assume "xs \<noteq> []"
  then have "sort xs \<noteq> []" using length_sort [of "\<lambda>x. x" xs] by fastforce
  then have split: "butlast (sort xs) @ [last (sort xs)] = sort xs" by (rule append_butlast_last_id)
  have srt: "sorted (butlast (sort xs) @ [last (sort xs)])" unfolding split by (rule sorted_sort)
  have elems: "set xs = set (butlast (sort xs) @ [last (sort xs)])" unfolding split by simp
  show ?thesis unfolding elems using srt by (auto simp: sorted_append)
qed

lemma live_max:
  assumes "hud_ring st \<noteq> []"
  shows "max_us (live_stats (last_minute st) (ts_ns (last (hud_ring st))) STATS_WINDOW_NS)
    = Max (insert 0 (lat_us ` set (last_second st)))"
proof -
  let ?l = "filter (\<lambda>v. 0 < v) (map lat_us (last_second st))"
  have top: "last (sort ?l) = Max (insert 0 (lat_us ` set (last_second st)))" if "?l \<noteq> []"
  proof (rule Max_eqI [symmetric])
    show "last (sort ?l) \<in> insert 0 (lat_us ` set (last_second st))"
      using last_sort [OF that] by auto
    show "v \<le> last (sort ?l)" if "v \<in> insert 0 (lat_us ` set (last_second st))" for v
      using that last_sort [OF \<open>?l \<noteq> []\<close>] by (cases "v = 0") (auto simp: word_neq_0_conv)
  qed simp
  have quiet: "Max (insert 0 (lat_us ` set (last_second st))) = 0" if "?l = []"
    using that by (intro Max_eqI) (auto simp: filter_empty_conv word_neq_0_conv [symmetric])
  show ?thesis
    using last_second_nonempty [OF assms] last_second_of_minute [of st] top quiet
    by (auto simp: live_stats_def Let_def live_stats_default_def STATS_WINDOW_NS_def filter_map)
qed

section \<open>What the plots hold\<close>

text \<open>
  Points that a plot of the last minute can draw: from left to right, at most one bin
  (half a second) left of the window, never in the future, never below the axis.
\<close>

definition points_in_view :: "(rat \<times> rat) list \<Rightarrow> bool" where
  "points_in_view pts \<longleftrightarrow> sorted (map fst pts) \<and> (\<forall>p\<in>set pts. - (121 / 2) \<le> fst p \<and> fst p \<le> 0 \<and> 0 \<le> snd p)"

lemma points_in_view_Nil [simp]: "points_in_view []"
  by (simp add: points_in_view_def)

lemma f64_of_int_mono: "a \<le> b \<Longrightarrow> f64_of_int a \<le> f64_of_int b"
  by (simp add: f64_of_int_def f64_rnd_mono)

lemma f64_nonneg_intros [intro]:
  "0 \<le> n \<Longrightarrow> 0 \<le> f64_of_int n"
  "0 \<le> x \<Longrightarrow> 0 \<le> y \<Longrightarrow> 0 \<le> f64_mul x y"
  "0 \<le> x \<Longrightarrow> 0 \<le> y \<Longrightarrow> 0 \<le> f64_div x y"
  by (simp_all add: f64_of_int_def f64_mul_def f64_div_def f64_rnd_nonneg)

text \<open>A bin that holds a record starts no later than it, and less than one width earlier.\<close>

lemma bin_start:
  assumes "kb \<in> set (bins_of records now w b)"
  obtains r where "r \<in> set (snd kb)" "in_window (saturating_sub now w) now r" "fst kb = ts_ns r div b" "b \<noteq> 0" "now \<noteq> 0"
    "unat (fst kb * b) = unat (ts_ns r) div unat b * unat b"
proof -
  have nz: "b \<noteq> 0" "now \<noteq> 0" using assms by (auto simp: bins_of_def split: if_splits)
  note inv = bins_of_inv [of records now w b]
  have "snd kb \<noteq> []" using assms inv by blast
  then obtain r where r: "r \<in> set (snd kb)" by (meson ex_in_conv set_empty)
  have mem: "(fst kb, snd kb) \<in> set (bins_of records now w b)" using assms by simp
  have srt: "sorted_wrt (<) (keys (bins_of records now w b))" using inv by blast
  have "snd kb = bucket_of (bins_of records now w b) (fst kb)"
    by (rule bucket_of_member [OF srt mem, symmetric])
  then have "r \<in> set (filter (\<lambda>r. in_window (saturating_sub now w) now r \<and> ts_ns r div b = fst kb) records)"
    using inv nz r by simp
  then have in': "in_window (saturating_sub now w) now r" "fst kb = ts_ns r div b" by auto
  have "unat (ts_ns r) < 2 ^ 64" using unsigned_less [of "ts_ns r", where 'a = nat] by simp
  then have "unat (fst kb) * unat b < 2 ^ 64"
    unfolding in'(2) by (rule order.strict_trans1 [OF u64_div_mult_le])
  then have "unat (fst kb * b) = unat (ts_ns r) div unat b * unat b"
    using unat_mult_lem [of "fst kb" b] unfolding in'(2) unat_div by simp
  with r in' nz show thesis by (rule_tac that)
qed

lemma f64_sub_exact: "0 \<le> m \<Longrightarrow> m \<le> n \<Longrightarrow> n \<le> 2 ^ 53 \<Longrightarrow> f64_sub (f64_of_int m) (f64_of_int n) = of_int (m - n)"
  using f64_of_int_exact [of m] f64_of_int_exact [of n] f64_rnd_int [of "m - n"] by (simp add: f64_sub_def)

lemma bin_position:
  assumes "kb \<in> set (bins_of records now WINDOW_NS BIN_NS)" and "unat now \<le> 2 ^ 53"
  shows "- (121 / 2) \<le> t_seconds (make_bin now BIN_NS kb)" and "t_seconds (make_bin now BIN_NS kb) \<le> 0"
proof -
  obtain r where r: "in_window (saturating_sub now WINDOW_NS) now r"
    and s: "unat (fst kb * BIN_NS) = unat (ts_ns r) div unat BIN_NS * unat BIN_NS"
    by (rule bin_start [OF assms(1)])
  let ?s = "uint (fst kb * BIN_NS)" and ?n = "uint now"
  have b: "unat BIN_NS = 500000000" and w: "uint WINDOW_NS = 60000000000" by (simp_all add: BIN_NS_def WINDOW_NS_def)
  have "int (unat (fst kb * BIN_NS)) = int (unat (ts_ns r)) div 500000000 * 500000000"
    unfolding s b by (simp add: zdiv_int)
  then have s': "?s = uint (ts_ns r) div 500000000 * 500000000"
    unfolding uint_nat [of "fst kb * BIN_NS"] uint_nat [of "ts_ns r"] .
  have rn: "uint (ts_ns r) \<le> ?n" "uint (saturating_sub now WINDOW_NS) \<le> uint (ts_ns r)" using r by (simp_all add: word_le_def)
  then have rlo: "?n \<le> uint (ts_ns r) + 60000000000" unfolding uint_saturating_sub w by linarith
  have gap: "?s \<le> ?n" "?n - ?s \<le> 60500000000"
    using rn(1) rlo pos_mod_bound [of 500000000 "uint (ts_ns r)"] pos_mod_sign [of 500000000 "uint (ts_ns r)"]
    unfolding s' minus_mod_eq_div_mult [symmetric] by linarith+
  have n53: "?n \<le> 2 ^ 53" using assms(2) unfolding uint_nat by (metis of_nat_le_iff of_nat_numeral of_nat_power)
  have exact: "f64_sub (f64_of_int ?s) (f64_of_int ?n) = of_int (?s - ?n)"
    by (rule f64_sub_exact) (use gap n53 in simp_all)
  have t: "t_seconds (make_bin now BIN_NS kb) = f64_rnd (of_int (?s - ?n) / 1000000000)"
    by (simp add: make_bin_def Let_def exact f64_div_def)
  have "of_int (- 60500000000) \<le> (of_int (?s - ?n) :: rat)" using gap by (subst of_int_le_iff) simp
  then have "- (121 / 2) \<le> of_int (?s - ?n) / (1000000000 :: rat)" by simp
  moreover have "f64_rnd (- (121 / 2)) = - (121 / 2)"
    using f64_rnd_grid [of "- (121 / 2)" "- 1" "- 121"] by simp
  ultimately show "- (121 / 2) \<le> t_seconds (make_bin now BIN_NS kb)"
    unfolding t using f64_rnd_mono by metis
  have "of_int (?s - ?n) \<le> (of_int 0 :: rat)" using gap by (subst of_int_le_iff) simp
  then have "of_int (?s - ?n) / (1000000000 :: rat) \<le> 0" by (intro divide_nonpos_pos) simp_all
  then show "t_seconds (make_bin now BIN_NS kb) \<le> 0" unfolding t using f64_rnd_mono [of _ 0] by simp
qed

lemma bin_start_exact: "kb \<in> set (bins_of records now w b) \<Longrightarrow> unat (fst kb * b) = unat (fst kb) * unat b"
  by (erule bin_start) (simp add: unat_div)

lemma bins_left_to_right:
  "sorted (map (\<lambda>kb. t_seconds (make_bin now b kb)) (bins_of records now w b))"
proof -
  let ?bs = "bins_of records now w b"
  have srt: "sorted_wrt (\<lambda>kb kb'. fst kb < fst kb') ?bs"
    using bins_of_inv [of records now w b] by (simp add: sorted_wrt_map)
  have step: "t_seconds (make_bin now b kb) \<le> t_seconds (make_bin now b kb')"
    if "kb \<in> set ?bs" "kb' \<in> set ?bs" "fst kb < fst kb'" for kb kb'
  proof -
    have "unat (fst kb * b) = unat (fst kb) * unat b" "unat (fst kb' * b) = unat (fst kb') * unat b"
      using that bin_start_exact by blast+
    moreover have "unat (fst kb) \<le> unat (fst kb')" using that(3) by (simp add: word_less_nat_alt)
    ultimately have "unat (fst kb * b) \<le> unat (fst kb' * b)" by simp
    then have "uint (fst kb * b) \<le> uint (fst kb' * b)" unfolding word_le_nat_alt [symmetric] word_le_def .
    then have "f64_of_int (uint (fst kb * b)) \<le> f64_of_int (uint (fst kb' * b))" by (rule f64_of_int_mono)
    then show ?thesis
      by (auto simp: make_bin_def Let_def f64_div_def f64_sub_def intro!: f64_rnd_mono divide_right_mono diff_right_mono)
  qed
  have "sorted_wrt (\<lambda>kb kb'. t_seconds (make_bin now b kb) \<le> t_seconds (make_bin now b kb')) ?bs"
    by (rule sorted_wrt_mono_rel [OF _ srt]) (rule step)
  then show ?thesis by (simp add: sorted_wrt_map)
qed

lemma bin_records_in_view:
  assumes "unat now \<le> 2 ^ 53" and "\<And>b. 0 \<le> agg b"
  shows "points_in_view (bin_records records now WINDOW_NS BIN_NS agg)"
  using bins_left_to_right [of now BIN_NS records WINDOW_NS] bin_position [OF _ assms(1)] assms(2)
  by (auto simp: points_in_view_def bin_records_def comp_def)

lemma finite_points_in_view:
  assumes "unat now \<le> 2 ^ 53" and "\<And>b x. agg b = Some x \<Longrightarrow> 0 \<le> x"
  shows "points_in_view (finite_points (bin_records records now WINDOW_NS BIN_NS agg))"
proof -
  let ?ps = "bin_records records now WINDOW_NS BIN_NS agg"
  have "sorted (map fst ?ps)"
    using bins_left_to_right [of now BIN_NS records WINDOW_NS] by (simp add: bin_records_def comp_def)
  then have "sorted (map fst (finite_points ?ps))" unfolding finite_points_def by (simp add: comp_def sorted_filter)
  moreover have "- (121 / 2) \<le> fst p \<and> fst p \<le> 0 \<and> 0 \<le> snd p" if "p \<in> set (finite_points ?ps)" for p
    using that bin_position [OF _ assms(1)] assms(2) by (auto simp: finite_points_def bin_records_def)
  ultimately show ?thesis by (simp add: points_in_view_def)
qed

definition cache_in_view :: "plot_cache \<Rightarrow> bool" where
  "cache_in_view c \<longleftrightarrow> (\<forall>pts\<in>{fps_pts c, p50_pts c, p99_pts c, max_pts c, frametime_pts c}. points_in_view pts)"

lemma aggregates_nonneg:
  "fps_agg b = Some x \<Longrightarrow> 0 \<le> x"
  "frametime_agg b = Some x \<Longrightarrow> 0 \<le> x"
  "0 \<le> bin_percentile rs q"
  "0 \<le> max_agg b"
proof -
  have acc: "a \<le> foldl max a xs" for a and xs :: "rat list"
    by (induction xs arbitrary: a) (auto intro: order.trans [OF max.cobounded1])
  show "0 \<le> max_agg b" unfolding max_agg_def by (rule acc)
qed (auto simp: fps_agg_def frametime_agg_def bin_percentile_def Let_def split: if_splits intro!: f64_nonneg_intros)

lemma recompute_in_view: "unat now \<le> 2 ^ 53 \<Longrightarrow> cache_in_view (recompute_cache st now)"
  by (auto simp: cache_in_view_def recompute_cache_def Let_def
      intro!: bin_records_in_view finite_points_in_view aggregates_nonneg(3,4)
      intro: aggregates_nonneg(1,2))

definition axes_in_range :: "hud_app \<Rightarrow> bool" where
  "axes_in_range app \<longleftrightarrow> fps_y_max app \<in> {60..600} \<and> frametime_y_max app \<in> {16..200} \<and> latency_y_max app \<in> {8000..200000}"

lemma clamp_in_range: "lo \<le> hi \<Longrightarrow> f64_clamp x lo hi \<in> {lo..hi}"
  by (auto simp: f64_clamp_def)

lemma hud_update_axes: "axes_in_range (hud_update st app)"
  by (simp add: axes_in_range_def hud_update_def Let_def smooth_bound_def clamp_in_range del: atLeastAtMost_iff)

lemma hud_update_in_view:
  assumes "cache_in_view (cache app)" and "\<forall>r\<in>set (hud_ring st). unat (ts_ns r) \<le> 2 ^ 53"
  shows "cache_in_view (cache (hud_update st app))"
  using assms by (auto simp: hud_update_def Let_def latest_ts_def intro!: recompute_in_view)

section \<open>Properties\<close>

text \<open>
  C36. What the window says is true: in the frame in which the 100 ms bucket of the newest
  record moves, the fps tile shows the exact number of records of the last second, the
  samples tile how many of them carry a latency, the max tile the largest latency of that
  second (or a dash), and the drops tile the number of frame numbers that are missing
  among the records of the last minute.
\<close>

theorem window_shows_last_second:
  assumes "hud_ring st \<noteq> []" and "length (hud_ring st) \<le> HUD_RING_CAPACITY"
    and "0 < ts_ns (last (hud_ring st))"
    and "ts_ns (last (hud_ring st)) div RECOMPUTE_INTERVAL_NS \<noteq> last_now_ns (cache app) div RECOMPUTE_INTERVAL_NS"
    and "sorted_wrt (\<lambda>a b. frame a < frame b) (last_minute st)" and "\<forall>r\<in>set (last_minute st). unat (frame r) < 2 ^ 53"
  shows "let tiles = fst (hf_strip (snd (hud_draw st app))); n = length (last_second st);
      m = length (filter (\<lambda>v. 0 < v) (map lat_us (last_second st))); slowest = Max (insert 0 (lat_us ` set (last_second st)))
    in tiles ! 0 = \<lparr>tl_label = lit ''fps'', tl_value = show_dec n @ lit ''.0'', tl_color = fps_color (of_nat n)\<rparr>
     \<and> tiles ! 3 = \<lparr>tl_label = lit ''max'', tl_value = us_label slowest, tl_color = latency_color slowest\<rparr>
     \<and> tiles ! 4 = \<lparr>tl_label = lit ''samples'', tl_value = show_dec m, tl_color = (if m = 0 then FG_WEAK else FG_NORMAL)\<rparr>
     \<and> (\<exists>missing. tl_value (tiles ! 5) = show_dec missing
          \<and> unat (frame (hd (last_minute st))) + (length (last_minute st) - 1) + missing = unat (frame (last (last_minute st))))"
proof -
  let ?now = "ts_ns (last (hud_ring st))"
  let ?c = "recompute_cache st ?now"
  have c: "cache (hud_update st app) = ?c" using assms by (simp add: hud_update_def Let_def latest_ts_def)
  have snap: "snapshot_since (saturating_sub ?now WINDOW_NS) st = last_minute st"
    by (simp add: snapshot_since_def last_minute_def)
  have lv: "live ?c = live_stats (last_minute st) ?now STATS_WINDOW_NS" "drops ?c = drops_of (last_minute st)"
    by (simp_all add: recompute_cache_def Let_def snap)
  have gaps: "unat (frame (hd (last_minute st))) + (length (last_minute st) - 1) + unat (drops_of (last_minute st))
      = unat (frame (last (last_minute st)))"
    using assms last_second_nonempty by (intro drops_count_missing_frames) auto
  show ?thesis
    using live_of_snapshot [OF assms(1,2)] live_max [OF assms(1)] gaps
    by (auto simp: hud_draw_def Let_def c lv top_strip_def metric_tile_def show_fixed_1_nat [simplified])
qed

definition example_ring :: shared_state where
  "example_ring = shared_state_new\<lparr>hud_ring := [record_default\<lparr>ts_ns := 500000000, frame := 7\<rparr>,
     record_default\<lparr>ts_ns := 1600000000, frame := 8\<rparr>, record_default\<lparr>ts_ns := 2000000000, frame := 11, lat_us := 900\<rparr>]\<rparr>"

theorem window_shows_last_second_witness:
  "tl_value (fst (hf_strip (snd (hud_draw example_ring hud_app_new))) ! 0) = show_dec 2 @ lit ''.0''"
proof -
  have second: "last_second example_ring = tl (hud_ring example_ring)"
    and minute: "last_minute example_ring = hud_ring example_ring"
    by (simp_all add: last_second_def last_minute_def example_ring_def shared_state_new_def saturating_sub_def
        STATS_WINDOW_NS_def WINDOW_NS_def)
  have ring: "hud_ring example_ring \<noteq> []" "length (hud_ring example_ring) \<le> HUD_RING_CAPACITY"
    "ts_ns (last (hud_ring example_ring)) = 2000000000" "length (tl (hud_ring example_ring)) = 2"
    by (simp_all add: example_ring_def HUD_RING_CAPACITY_def)
  show ?thesis
    using window_shows_last_second [of example_ring hud_app_new] ring unfolding second minute
    by (simp add: Let_def hud_app_new_def plot_cache_default_def RECOMPUTE_INTERVAL_NS_def)
      (simp add: example_ring_def)
qed



end
