(* ===== verification/Bitset.thy ===== *)
theory Bitset
  imports Prelude
begin

unbundle bit_operations_syntax

text \<open>
  The free-pair allocator of \<open>src/timestamp_pool.rs\<close> (\<open>Bitset\<close>): eight 64-bit words and a
  hint, refined here to the set of free query indices. The interface \<open>slot_allocator\<close> is
  what the timestamp pool relies on; it is interpreted on the bitset.
\<close>

section \<open>The allocator\<close>

definition CHUNK_SIZE :: nat where "CHUNK_SIZE = 512"
definition BITSET_WORDS :: nat where "BITSET_WORDS = 8"

record bitset =
  words :: "u64 list"
  hint :: nat

definition bit_mask :: "nat \<Rightarrow> u64" where
  "bit_mask i = push_bit i 1"

definition full :: bitset where
  "full = \<lparr>words = fold (\<lambda>i ws. ws[i div 64 := ws ! (i div 64) OR bit_mask (i mod 64)])
             [0..<CHUNK_SIZE div 2] (replicate BITSET_WORDS 0), hint = 0\<rparr>"

text \<open>\<open>u64::trailing_zeros\<close>.\<close>

definition trailing_zeros :: "u64 \<Rightarrow> nat" where
  "trailing_zeros w = length (takeWhile (\<lambda>n. \<not> bit w n) [0..<64])"

definition acquire_pair :: "bitset \<Rightarrow> (nat \<times> bitset) option" where
  "acquire_pair b =
     (let len = length (words b); start = min (hint b) (len - 1) in
      case find (\<lambda>idx. words b ! idx \<noteq> 0) (map (\<lambda>offset. (start + offset) mod len) [0..<len]) of
        None \<Rightarrow> None
      | Some idx \<Rightarrow>
          (let bt = trailing_zeros (words b ! idx) in
           Some ((idx * 64 + bt) * 2,
                 b\<lparr>words := (words b)[idx := words b ! idx AND NOT (bit_mask bt)], hint := idx\<rparr>)))"

text \<open>\<open>None\<close> is the panic of an index beyond the words.\<close>

definition release_pair :: "nat \<Rightarrow> bitset \<Rightarrow> bitset option" where
  "release_pair query_index b =
     (let pair = query_index div 2 in
      if pair div 64 < length (words b)
      then Some (b\<lparr>words := (words b)[pair div 64 := words b ! (pair div 64) OR bit_mask (pair mod 64)],
                   hint := min (hint b) (pair div 64)\<rparr>)
      else None)"

definition any_free :: "bitset \<Rightarrow> bool" where
  "any_free b = (\<exists>w\<in>set (words b). w \<noteq> 0)"

section \<open>Abstraction: the set of free query indices\<close>

definition free_pairs :: "bitset \<Rightarrow> nat set" where
  "free_pairs b = {p. p div 64 < length (words b) \<and> bit (words b ! (p div 64)) (p mod 64)}"

definition free_queries :: "bitset \<Rightarrow> nat set" where
  "free_queries b = (\<lambda>p. 2 * p) ` free_pairs b"

definition pair_indices :: "nat set" where
  "pair_indices = {q. even q \<and> q < CHUNK_SIZE}"

definition bitset_inv :: "bitset \<Rightarrow> bool" where
  "bitset_inv b \<longleftrightarrow> length (words b) = BITSET_WORDS \<and> free_pairs b \<subseteq> {..<CHUNK_SIZE div 2}"

lemma bit_bit_mask: "bit (bit_mask i) n \<longleftrightarrow> n = i \<and> i < 64"
  by (auto simp: bit_mask_def bit_exp_iff)

lemma trailing_zeros_props:
  assumes "w \<noteq> 0"
  shows "trailing_zeros w < 64" and "bit w (trailing_zeros w)"
proof -
  obtain n where n: "bit w n" using assms by (auto simp: bit_eq_iff)
  then have n64: "n < 64" using bit_imp_le_length [of w n] by simp
  have lt: "length (takeWhile (\<lambda>n. \<not> bit w n) [0..<64]) < length [0..<64]"
  proof (rule ccontr)
    assume "\<not> ?thesis"
    then have "takeWhile (\<lambda>n. \<not> bit w n) [0..<64] = [0..<64]"
      by (metis length_takeWhile_le order_le_imp_less_or_eq takeWhile_eq_take take_all order_refl)
    then have "\<forall>m\<in>set [0..<64]. \<not> bit w m" by (simp add: takeWhile_eq_all_conv)
    then show False using n n64 by simp
  qed
  then show "trailing_zeros w < 64" by (simp add: trailing_zeros_def)
  have "\<not> \<not> bit w ([0..<64] ! trailing_zeros w)"
    unfolding trailing_zeros_def by (rule nth_length_takeWhile) (rule lt)
  then show "bit w (trailing_zeros w)"
    using lt by (simp add: trailing_zeros_def)
qed

lemma free_pairs_update:
  assumes "i < length (words b)"
  shows "free_pairs (b\<lparr>words := (words b)[i := w], hint := h\<rparr>)
       = {p. if p div 64 = i then bit w (p mod 64) else p \<in> free_pairs b}"
  using assms by (auto simp: free_pairs_def nth_list_update split: if_splits)

lemma pair_split: "(p :: nat) div 64 = r div 64 \<Longrightarrow> p mod 64 = r mod 64 \<Longrightarrow> p = r"
  by (metis div_mult_mod_eq)

lemma release_pair_free:
  assumes "q div 2 div 64 < length (words b)"
  shows "\<exists>b'. release_pair q b = Some b' \<and> free_pairs b' = insert (q div 2) (free_pairs b)
    \<and> length (words b') = length (words b)"
proof -
  let ?p = "q div 2"
  let ?b = "b\<lparr>words := (words b)[?p div 64 := words b ! (?p div 64) OR bit_mask (?p mod 64)],
    hint := min (hint b) (?p div 64)\<rparr>"
  have "free_pairs ?b = insert ?p (free_pairs b)"
    unfolding free_pairs_update [OF assms] using assms
    by (auto simp: bit_or_iff bit_bit_mask free_pairs_def dest: pair_split)
  then show ?thesis using assms by (simp add: release_pair_def Let_def)
qed

definition scan_order :: "bitset \<Rightarrow> nat list" where
  "scan_order b = map (\<lambda>offset. (min (hint b) (length (words b) - 1) + offset) mod length (words b)) [0..<length (words b)]"

lemma acquire_pair_scan:
  "acquire_pair b =
     (case find (\<lambda>idx. words b ! idx \<noteq> 0) (scan_order b) of
        None \<Rightarrow> None
      | Some idx \<Rightarrow> Some ((idx * 64 + trailing_zeros (words b ! idx)) * 2,
          b\<lparr>words := (words b)[idx := words b ! idx AND NOT (bit_mask (trailing_zeros (words b ! idx)))], hint := idx\<rparr>))"
  by (simp add: acquire_pair_def scan_order_def Let_def split: option.split)

text \<open>The scan starts at the hint and wraps: it visits every word.\<close>

lemma scan_covers:
  assumes "start < (len :: nat)"
  shows "(\<lambda>offset. (start + offset) mod len) ` {0..<len} = {..<len}"
proof (intro subset_antisym subsetI)
  fix i assume i: "i \<in> {..<len}"
  show "i \<in> (\<lambda>offset. (start + offset) mod len) ` {0..<len}"
  proof (cases "start \<le> i")
    case True
    then have "i = (start + (i - start)) mod len" using i by simp
    then show ?thesis using i by (intro image_eqI [of _ _ "i - start"]) auto
  next
    case False
    then have "start + (len + i - start) = i + len" using assms by simp
    then have "i = (start + (len + i - start)) mod len" using i by simp
    then show ?thesis using i False by (intro image_eqI [of _ _ "len + i - start"]) auto
  qed
qed (use assms in auto)

lemma set_scan_order: "words b \<noteq> [] \<Longrightarrow> set (scan_order b) = {..<length (words b)}"
  using scan_covers [of "min (hint b) (length (words b) - 1)" "length (words b)"]
  by (simp add: scan_order_def min_less_iff_disj)

lemma find_props: "find P xs = Some x \<Longrightarrow> x \<in> set xs \<and> P x"
  by (induction xs) (auto split: if_splits)

lemma acquire_pair_None:
  assumes "words b \<noteq> []"
  shows "acquire_pair b = None \<longleftrightarrow> free_pairs b = {}"
proof -
  let ?len = "length (words b)"
  have "acquire_pair b = None \<longleftrightarrow> (\<forall>i<?len. words b ! i = 0)"
    using set_scan_order [OF assms]
    by (auto simp: acquire_pair_scan find_None_iff split: option.splits dest!: find_props)
  also have "\<dots> \<longleftrightarrow> free_pairs b = {}"
  proof
    assume "free_pairs b = {}"
    moreover have "i * 64 + trailing_zeros (words b ! i) \<in> free_pairs b"
      if "i < ?len" "words b ! i \<noteq> 0" for i
      using that trailing_zeros_props [OF that(2)] by (simp add: free_pairs_def)
    ultimately show "\<forall>i<?len. words b ! i = 0" by blast
  qed (auto simp: free_pairs_def)
  finally show ?thesis .
qed

lemma acquire_pair_Some:
  assumes "acquire_pair b = Some (q, b')" and "words b \<noteq> []"
  shows "q div 2 \<in> free_pairs b" "even q" "free_pairs b' = free_pairs b - {q div 2}"
    "length (words b') = length (words b)"
proof -
  let ?len = "length (words b)"
  obtain idx where f: "find (\<lambda>idx. words b ! idx \<noteq> 0) (scan_order b) = Some idx"
    using assms(1) by (auto simp: acquire_pair_scan split: option.splits)
  let ?t = "trailing_zeros (words b ! idx)"
  have q: "q = (idx * 64 + ?t) * 2"
    and b': "b' = b\<lparr>words := (words b)[idx := words b ! idx AND NOT (bit_mask ?t)], hint := idx\<rparr>"
    using assms(1) f by (auto simp: acquire_pair_scan)
  have nz: "words b ! idx \<noteq> 0" and lt: "idx < ?len"
    using find_props [OF f] set_scan_order [OF assms(2)] by auto
  note t = trailing_zeros_props [OF nz]
  have p: "q div 2 = idx * 64 + ?t" "(idx * 64 + ?t) div 64 = idx" "(idx * 64 + ?t) mod 64 = ?t"
    using t(1) by (simp_all add: q)
  show "even q" by (simp add: q)
  show "q div 2 \<in> free_pairs b" using p t lt by (simp add: free_pairs_def)
  show "length (words b') = length (words b)" by (simp add: b')
  have e: "r = idx * 64 + ?t \<longleftrightarrow> r div 64 = idx \<and> r mod 64 = ?t" for r
    using p(2,3) pair_split [of r "idx * 64 + ?t"] by auto
  show "free_pairs b' = free_pairs b - {q div 2}"
    unfolding b' free_pairs_update [OF lt] p(1)
  proof (rule set_eqI)
    fix r
    show "r \<in> {p. if p div 64 = idx then bit (words b ! idx AND NOT (bit_mask ?t)) (p mod 64) else p \<in> free_pairs b}
      \<longleftrightarrow> r \<in> free_pairs b - {idx * 64 + ?t}"
      using e [of r] lt t(1) by (auto simp: bit_and_iff bit_not_iff bit_bit_mask free_pairs_def)
  qed
qed

text \<open>The loop of \<open>full\<close> sets the pairs one by one.\<close>

lemma full_words:
  "n \<le> 512 \<Longrightarrow>
     length (fold (\<lambda>i ws. ws[i div 64 := ws ! (i div 64) OR bit_mask (i mod 64)]) [0..<n] (replicate 8 0)) = 8
     \<and> free_pairs \<lparr>words = fold (\<lambda>i ws. ws[i div 64 := ws ! (i div 64) OR bit_mask (i mod 64)]) [0..<n] (replicate 8 0),
          hint = h\<rparr> = {..<n}"
proof (induction n)
  case 0
  then show ?case by (auto simp: free_pairs_def)
next
  case (Suc n)
  let ?ws = "fold (\<lambda>i ws. ws[i div 64 := ws ! (i div 64) OR bit_mask (i mod 64)]) [0..<n] (replicate 8 0)"
  let ?b = "\<lparr>words = ?ws, hint = h\<rparr>"
  have IH: "length ?ws = 8" "free_pairs ?b = {..<n}" using Suc by simp_all
  have "n div 64 < 8" using Suc.prems by simp
  then have lt: "2 * n div 2 div 64 < length (words ?b)" using IH(1) by simp
  obtain b' where b': "release_pair (2 * n) ?b = Some b'"
      "free_pairs b' = insert n {..<n}" "length (words b') = 8"
    using release_pair_free [OF lt] IH by (simp only: nonzero_mult_div_cancel_left) force
  have w: "words b' = ?ws[n div 64 := ?ws ! (n div 64) OR bit_mask (n mod 64)]"
    using b'(1) IH(1) \<open>n div 64 < 8\<close> by (auto simp: release_pair_def Let_def)
  then show ?case using b'(2,3) by (simp add: free_pairs_def lessThan_Suc)
qed

lemma full_pairs: "length (words full) = 8" "free_pairs full = {..<256}"
proof -
  let ?ws = "fold (\<lambda>i ws. ws[i div 64 := ws ! (i div 64) OR bit_mask (i mod 64)]) [0..<256] (replicate 8 0)"
  have e: "full = \<lparr>words = ?ws, hint = 0\<rparr>"
    by (simp only: full_def CHUNK_SIZE_def BITSET_WORDS_def) (simp del: upt_rec_numeral)
  have f: "length ?ws = 8 \<and> free_pairs \<lparr>words = ?ws, hint = 0\<rparr> = {..<256}"
    by (rule full_words) simp
  show "length (words full) = 8" using f by (simp only: e bitset.select_convs)
  show "free_pairs full = {..<256}" using f by (simp only: e)
qed

lemma even_image: "(\<lambda>p. 2 * p) ` {..<n} = {q. even q \<and> q < 2 * (n :: nat)}"
proof (intro set_eqI iffI)
  fix q assume "q \<in> {q. even q \<and> q < 2 * n}"
  then show "q \<in> (\<lambda>p. 2 * p) ` {..<n}" by (intro image_eqI [of _ _ "q div 2"]) auto
qed auto

lemma full_inv: "bitset_inv full"
  by (simp add: bitset_inv_def full_pairs CHUNK_SIZE_def BITSET_WORDS_def)

lemma full_free: "free_queries full = pair_indices"
  by (simp add: free_queries_def full_pairs pair_indices_def CHUNK_SIZE_def even_image)

section \<open>The allocator interface\<close>

text \<open>The acquire loop of the unit test: at most \<open>n\<close> acquires, stopping at the first \<open>None\<close>.\<close>

fun drain :: "('s \<Rightarrow> (nat \<times> 's) option) \<Rightarrow> nat \<Rightarrow> 's \<Rightarrow> nat list \<times> 's" where
  "drain acq 0 s = ([], s)"
| "drain acq (Suc n) s =
     (case acq s of None \<Rightarrow> ([], s) | Some (q, s') \<Rightarrow> (let (qs, t) = drain acq n s' in (q # qs, t)))"

locale slot_allocator =
  fixes acquire :: "'s \<Rightarrow> (nat \<times> 's) option"
    and release :: "nat \<Rightarrow> 's \<Rightarrow> 's option"
    and free :: "'s \<Rightarrow> nat set"
    and slots :: "nat set"
    and inv :: "'s \<Rightarrow> bool"
  assumes finite_slots: "finite slots"
    and free_slots: "inv s \<Longrightarrow> free s \<subseteq> slots"
    and acquire_None: "inv s \<Longrightarrow> acquire s = None \<longleftrightarrow> free s = {}"
    and acquire_free: "inv s \<Longrightarrow> acquire s = Some (q, s') \<Longrightarrow> q \<in> free s"
    and acquire_takes: "inv s \<Longrightarrow> acquire s = Some (q, s') \<Longrightarrow> free s' = free s - {q}"
    and acquire_inv: "inv s \<Longrightarrow> acquire s = Some (q, s') \<Longrightarrow> inv s'"
    and release_gives: "inv s \<Longrightarrow> q \<in> slots \<Longrightarrow> \<exists>s'. release q s = Some s' \<and> free s' = insert q (free s) \<and> inv s'"
begin

text \<open>Acquiring until nothing is left hands out every free slot exactly once.\<close>

lemma drain_all:
  "inv s \<Longrightarrow> card (free s) \<le> n \<Longrightarrow> drain acquire n s = (qs, t) \<Longrightarrow>
     distinct qs \<and> set qs = free s \<and> free t = {} \<and> acquire t = None"
proof (induction n arbitrary: s qs)
  case 0
  have "finite (free s)" using finite_slots free_slots [OF "0.prems"(1)] by (rule finite_subset [rotated])
  then have "free s = {}" using "0.prems"(2) by simp
  then show ?case using "0.prems"(1,3) acquire_None by simp
next
  case (Suc n)
  have fin: "finite (free s)" using finite_slots free_slots [OF Suc.prems(1)] by (rule finite_subset [rotated])
  show ?case
  proof (cases "acquire s")
    case None
    then have "free s = {}" using acquire_None [OF Suc.prems(1)] by simp
    then show ?thesis using None Suc.prems(3) by simp
  next
    case (Some r)
    then obtain q s' where a: "acquire s = Some (q, s')" by (cases r) auto
    obtain qs' where d: "drain acquire n s' = (qs', t)" and qs: "qs = q # qs'"
      using Suc.prems(3) a by (auto split: prod.splits)
    have "card (free s') \<le> n"
      using Suc.prems(1,2) a fin acquire_takes acquire_free by simp
    then have "distinct qs' \<and> set qs' = free s' \<and> free t = {} \<and> acquire t = None"
      using Suc.IH [OF acquire_inv [OF Suc.prems(1) a] _ d] by simp
    then show ?thesis
      using qs acquire_takes [OF Suc.prems(1) a] acquire_free [OF Suc.prems(1) a] by auto
  qed
qed

lemma drain_inv: "inv s \<Longrightarrow> drain acquire n s = (qs, t) \<Longrightarrow> inv t"
  by (induction n arbitrary: s qs) (auto split: option.splits prod.splits dest: acquire_inv)

text \<open>A release makes the next acquire succeed.\<close>

lemma acquire_after_release:
  "inv s \<Longrightarrow> q \<in> slots \<Longrightarrow> release q s = Some s' \<Longrightarrow> acquire s' \<noteq> None"
  using release_gives [of s q] acquire_None [of s'] by auto

end

lemma bitset_words_ne: "bitset_inv b \<Longrightarrow> words b \<noteq> []"
  by (auto simp: bitset_inv_def BITSET_WORDS_def)

lemma even_half: "even q \<Longrightarrow> 2 * (q div 2) = (q :: nat)"
  by simp

interpretation bits: slot_allocator acquire_pair release_pair free_queries pair_indices bitset_inv
proof unfold_locales
  show "finite pair_indices" by (simp add: pair_indices_def)
  fix s q s'
  show "bitset_inv s \<Longrightarrow> free_queries s \<subseteq> pair_indices"
    by (auto simp: bitset_inv_def free_queries_def pair_indices_def CHUNK_SIZE_def)
  show "bitset_inv s \<Longrightarrow> acquire_pair s = None \<longleftrightarrow> free_queries s = {}"
    using acquire_pair_None [OF bitset_words_ne] by (simp add: free_queries_def)
  show "bitset_inv s \<Longrightarrow> acquire_pair s = Some (q, s') \<Longrightarrow> q \<in> free_queries s"
    using acquire_pair_Some(1,2) [OF _ bitset_words_ne] even_half by (fastforce simp: free_queries_def image_iff)
  show "bitset_inv s \<Longrightarrow> acquire_pair s = Some (q, s') \<Longrightarrow> free_queries s' = free_queries s - {q}"
    using acquire_pair_Some(2,3) [OF _ bitset_words_ne] even_half by (fastforce simp: free_queries_def image_iff)
  show "bitset_inv s \<Longrightarrow> acquire_pair s = Some (q, s') \<Longrightarrow> bitset_inv s'"
    using acquire_pair_Some(3,4) [OF _ bitset_words_ne] by (fastforce simp: bitset_inv_def)
  show "bitset_inv s \<Longrightarrow> q \<in> pair_indices \<Longrightarrow>
      \<exists>s'. release_pair q s = Some s' \<and> free_queries s' = insert q (free_queries s) \<and> bitset_inv s'"
  proof -
    assume s: "bitset_inv s" and q: "q \<in> pair_indices"
    then have "q div 2 div 64 < length (words s)" and "q div 2 < CHUNK_SIZE div 2" and "even q"
      by (auto simp: bitset_inv_def pair_indices_def CHUNK_SIZE_def BITSET_WORDS_def)
    then show ?thesis
      using release_pair_free [of q s] s even_half [of q] by (auto simp: bitset_inv_def free_queries_def)
  qed
qed

lemma any_free_iff: "any_free b \<longleftrightarrow> free_queries b \<noteq> {}"
proof
  assume "any_free b"
  then obtain i where i: "i < length (words b)" "words b ! i \<noteq> 0"
    by (auto simp: any_free_def in_set_conv_nth)
  then have "i * 64 + trailing_zeros (words b ! i) \<in> free_pairs b"
    using trailing_zeros_props [OF i(2)] by (simp add: free_pairs_def)
  then show "free_queries b \<noteq> {}" by (auto simp: free_queries_def)
next
  assume "free_queries b \<noteq> {}"
  then obtain p where p: "p div 64 < length (words b)" "bit (words b ! (p div 64)) (p mod 64)"
    by (auto simp: free_queries_def free_pairs_def)
  then have "words b ! (p div 64) \<noteq> 0" by auto
  then show "any_free b" using p(1) by (auto simp: any_free_def)
qed

text \<open>
  Draining a well-formed bitset hands out every free pair exactly once, as even query
  indices below \<open>CHUNK_SIZE\<close>, whatever the hint; then \<open>acquire_pair\<close> answers \<open>None\<close>, and a
  single \<open>release_pair\<close> makes it succeed again with exactly the released index.
\<close>

theorem bitset_drain_then_release:
  assumes "bitset_inv b" and "CHUNK_SIZE div 2 \<le> n" and "drain acquire_pair n b = (qs, b1)"
    and "even q" and "q < CHUNK_SIZE" and "release_pair q b1 = Some b2"
  shows "distinct qs \<and> set qs = free_queries b \<and> acquire_pair b1 = None
    \<and> (\<exists>b3. acquire_pair b2 = Some (q, b3) \<and> acquire_pair b3 = None)"
proof -
  have fin: "free_queries b \<subseteq> (\<lambda>p. 2 * p) ` {..<256}"
    using bits.free_slots [OF assms(1)] even_image [of 256] by (simp add: pair_indices_def CHUNK_SIZE_def)
  then have "card (free_queries b) \<le> card ((\<lambda>p :: nat. 2 * p) ` {..<256})" by (intro card_mono) auto
  also have "\<dots> \<le> 256" using card_image_le [of "{..<256 :: nat}" "\<lambda>p. 2 * p"] by simp
  finally have "card (free_queries b) \<le> n" using assms(2) by (simp add: CHUNK_SIZE_def)
  note d = bits.drain_all [OF assms(1) this assms(3)] bits.drain_inv [OF assms(1,3)]
  have q: "q \<in> pair_indices" using assms(4,5) by (simp add: pair_indices_def)
  have b2: "free_queries b2 = {q}" "bitset_inv b2"
    using bits.release_gives [OF d(2) q] assms(6) d(1) by auto
  obtain q' b3 where a: "acquire_pair b2 = Some (q', b3)"
    using bits.acquire_None [OF b2(2)] b2(1) by (cases "acquire_pair b2") auto
  then have "q' = q" "free_queries b3 = {}" "bitset_inv b3"
    using bits.acquire_free [OF b2(2) a] bits.acquire_takes [OF b2(2) a] bits.acquire_inv [OF b2(2) a] b2(1)
    by auto
  then show ?thesis using d(1) a bits.acquire_None [of b3] by simp
qed

theorem bitset_drain_then_release_witness:
  "\<exists>qs b1 b2 b3. drain acquire_pair 256 full = (qs, b1) \<and> distinct qs \<and> set qs = free_queries full
     \<and> release_pair 6 b1 = Some b2 \<and> acquire_pair b2 = Some (6, b3) \<and> acquire_pair b3 = None"
proof -
  obtain qs b1 where d: "drain acquire_pair 256 full = (qs, b1)" by (cases "drain acquire_pair 256 full")
  have inv: "bitset_inv b1" using bits.drain_inv [OF full_inv d] .
  have six: "6 \<in> pair_indices" by (simp add: pair_indices_def CHUNK_SIZE_def)
  obtain b2 where r: "release_pair 6 b1 = Some b2" using bits.release_gives [OF inv six] by blast
  show ?thesis
    using bitset_drain_then_release [OF full_inv _ d _ _ r] d r by (auto simp: CHUNK_SIZE_def)
qed

end
