(* ===== verification/TimestampPool.thy ===== *)
theory TimestampPool
  imports "HOL-Library.Multiset" Bitset
begin

text \<open>
  The per-queue timestamp pool of \<open>src/timestamp_pool.rs\<close>: chunks of 512 queries with their
  command buffers, the handles given to submissions, the queue of dropped handles and the
  reaper that returns their pairs. The driver entry points are arguments (\<open>pool_fns\<close>); their
  answers may differ at every call. The interleaving of application threads and reaper is
  the step relation \<open>pool_step\<close>.
\<close>

section \<open>Driver interface\<close>

text \<open>
  Handles are naturals, \<open>0\<close> is the null handle. \<open>allocate_command_buffers\<close> answers its result
  and what it stores at each index of the caller's array; \<open>get_query_pool_results\<close> answers
  the value and the availability word of one query, with or without \<open>WAIT\<close>.
\<close>

record pool_fns =
  create_query_pool :: "vk_result \<times> nat"
  allocate_command_buffers :: "vk_result \<times> (nat \<Rightarrow> nat)"
  any_cmd_write_timestamp2 :: bool
  reset_query_pool :: bool
  reset_command_buffer :: "nat \<Rightarrow> vk_result"
  begin_command_buffer :: "nat \<Rightarrow> vk_result"
  end_command_buffer :: "nat \<Rightarrow> vk_result"
  get_query_pool_results :: "nat \<Rightarrow> nat \<Rightarrow> bool \<Rightarrow> vk_result \<times> u64 \<times> u64"

datatype stage = TOP_OF_PIPE | BOTTOM_OF_PIPE

datatype driver_call =
    CreateQueryPool nat
  | AllocateCommandBuffers nat
  | DestroyQueryPool nat
  | FreeCommandBuffers "nat list"
  | ResetQueryPool nat nat
  | ResetCommandBuffer nat
  | BeginCommandBuffer nat
  | CmdWriteTimestamp2 nat stage nat nat
  | EndCommandBuffer nat

section \<open>Chunks\<close>

record query_chunk =
  query_pool :: nat
  command_buffers :: "nat list"
  free_bits :: bitset

definition query_chunk_new :: "pool_fns \<Rightarrow> (vk_result + query_chunk) \<times> driver_call list" where
  "query_chunk_new fns =
     (let (r, qp) = create_query_pool fns in
      if r \<noteq> SUCCESS then (Inl r, [CreateQueryPool CHUNK_SIZE])
      else
        (let (r, out) = allocate_command_buffers fns in
         if r \<noteq> SUCCESS
         then (Inl r, [CreateQueryPool CHUNK_SIZE, AllocateCommandBuffers CHUNK_SIZE, DestroyQueryPool qp])
         else (Inr \<lparr>query_pool = qp, command_buffers = map out [0..<CHUNK_SIZE], free_bits = full\<rparr>,
               [CreateQueryPool CHUNK_SIZE, AllocateCommandBuffers CHUNK_SIZE])))"

definition query_chunk_destroy :: "query_chunk \<Rightarrow> query_chunk \<times> driver_call list" where
  "query_chunk_destroy c =
     (let (c, l1) = (if command_buffers c \<noteq> []
                     then (c\<lparr>command_buffers := []\<rparr>, [FreeCommandBuffers (command_buffers c)])
                     else (c, []));
          (c, l2) = (if query_pool c \<noteq> 0 then (c\<lparr>query_pool := 0\<rparr>, [DestroyQueryPool (query_pool c)])
                     else (c, []))
      in (c, l1 @ l2))"

section \<open>Handles and pool state\<close>

record handle =
  chunk_idx :: nat
  query_index :: nat
  start_cb :: nat
  end_cb :: nat
  was_submitted :: bool

record expiring_handle =
  e_chunk_idx :: nat
  e_query_index :: nat
  e_was_submitted :: bool

record pool_inner =
  chunks :: "query_chunk list"
  expiring :: "expiring_handle list"

definition pool_new :: pool_inner where
  "pool_new = \<lparr>chunks = [], expiring = []\<rparr>"

definition query_pool_for :: "pool_inner \<Rightarrow> nat \<Rightarrow> nat option" where
  "query_pool_for p i = (if i < length (chunks p) then Some (query_pool (chunks p ! i)) else None)"

definition await_ticks :: "pool_fns \<Rightarrow> pool_inner \<Rightarrow> nat \<Rightarrow> nat \<Rightarrow> u64 option" where
  "await_ticks fns p chunk query =
     (case query_pool_for p chunk of None \<Rightarrow> None
      | Some qp \<Rightarrow>
          (let (r, val, avail) = get_query_pool_results fns qp query True in
           if r \<noteq> SUCCESS \<or> avail = 0 then None else Some val))"

definition has_ticks :: "pool_fns \<Rightarrow> pool_inner \<Rightarrow> nat \<Rightarrow> nat \<Rightarrow> bool" where
  "has_ticks fns p chunk query =
     (case query_pool_for p chunk of None \<Rightarrow> False
      | Some qp \<Rightarrow>
          (let (r, val, avail) = get_query_pool_results fns qp query False in
           r = SUCCESS \<and> avail \<noteq> 0))"

text \<open>The two reads of a handle, with the clock conversion as a parameter.\<close>

definition await_start_ns :: "pool_fns \<Rightarrow> pool_inner \<Rightarrow> (u64 \<Rightarrow> u64) \<Rightarrow> handle \<Rightarrow> u64 option" where
  "await_start_ns fns p ticks_to_host h = map_option ticks_to_host (await_ticks fns p (chunk_idx h) (query_index h))"

definition await_end_ns :: "pool_fns \<Rightarrow> pool_inner \<Rightarrow> (u64 \<Rightarrow> u64) \<Rightarrow> handle \<Rightarrow> u64 option" where
  "await_end_ns fns p ticks_to_host h = map_option ticks_to_host (await_ticks fns p (chunk_idx h) (query_index h + 1))"

definition has_end :: "pool_fns \<Rightarrow> pool_inner \<Rightarrow> handle \<Rightarrow> bool" where
  "has_end fns p h = has_ticks fns p (chunk_idx h) (query_index h + 1)"

section \<open>Acquiring\<close>

text \<open>
  A pair taken from one chunk with its two buffers. \<open>Inl Panic\<close> is the failed \<open>unwrap\<close> or an
  index beyond the buffers.
\<close>

definition take_pair :: "query_chunk \<Rightarrow> panic + (nat \<times> nat \<times> nat) \<times> query_chunk" where
  "take_pair c =
     (case acquire_pair (free_bits c) of
        None \<Rightarrow> Inl Panic
      | Some (q, b) \<Rightarrow>
          if q + 1 < length (command_buffers c)
          then Inr ((q, command_buffers c ! q, command_buffers c ! (q + 1)), c\<lparr>free_bits := b\<rparr>)
          else Inl Panic)"

fun find_free :: "nat \<Rightarrow> query_chunk list \<Rightarrow> nat option" where
  "find_free i [] = None"
| "find_free i (c # cs) = (if any_free (free_bits c) then Some i else find_free (Suc i) cs)"

definition find_or_alloc ::
  "pool_fns \<Rightarrow> query_chunk list \<Rightarrow> panic + (nat \<times> nat \<times> nat \<times> nat) option \<times> query_chunk list" where
  "find_or_alloc fns cs =
     (case find_free 0 cs of
        Some idx \<Rightarrow>
          (case take_pair (cs ! idx) of
             Inl e \<Rightarrow> Inl e
           | Inr ((q, s, e), c) \<Rightarrow> Inr (Some (idx, q, s, e), cs[idx := c]))
      | None \<Rightarrow>
          (case fst (query_chunk_new fns) of
             Inl r \<Rightarrow> Inr (None, cs)
           | Inr chunk \<Rightarrow>
               (case take_pair chunk of
                  Inl e \<Rightarrow> Inl e
                | Inr ((q, s, e), c) \<Rightarrow> Inr (Some (length cs, q, s, e), cs @ [c]))))"

definition record_one :: "pool_fns \<Rightarrow> nat \<Rightarrow> nat \<Rightarrow> stage \<Rightarrow> nat \<Rightarrow> (vk_result + unit) \<times> driver_call list" where
  "record_one fns qp index stage cb =
     (if reset_command_buffer fns cb \<noteq> SUCCESS
      then (Inl (reset_command_buffer fns cb), [ResetQueryPool qp index, ResetCommandBuffer cb])
      else if begin_command_buffer fns cb \<noteq> SUCCESS
      then (Inl (begin_command_buffer fns cb), [ResetQueryPool qp index, ResetCommandBuffer cb, BeginCommandBuffer cb])
      else if end_command_buffer fns cb \<noteq> SUCCESS
      then (Inl (end_command_buffer fns cb), [ResetQueryPool qp index, ResetCommandBuffer cb, BeginCommandBuffer cb,
              CmdWriteTimestamp2 cb stage qp index, EndCommandBuffer cb])
      else (Inr (), [ResetQueryPool qp index, ResetCommandBuffer cb, BeginCommandBuffer cb,
              CmdWriteTimestamp2 cb stage qp index, EndCommandBuffer cb]))"

definition record_pair :: "pool_fns \<Rightarrow> nat \<Rightarrow> nat \<Rightarrow> nat \<Rightarrow> nat \<Rightarrow> (vk_result + unit) \<times> driver_call list" where
  "record_pair fns qp q cb_start cb_end =
     (if \<not> any_cmd_write_timestamp2 fns then (Inl ERROR_EXTENSION_NOT_PRESENT, [])
      else if \<not> reset_query_pool fns then (Inl ERROR_EXTENSION_NOT_PRESENT, [])
      else
        (case record_one fns qp q TOP_OF_PIPE cb_start of
           (Inl r, l) \<Rightarrow> (Inl r, l)
         | (Inr _, l) \<Rightarrow>
             (case record_one fns qp (q + 1) BOTTOM_OF_PIPE cb_end of (r, l') \<Rightarrow> (r, l @ l'))))"

definition pool_acquire :: "pool_fns \<Rightarrow> pool_inner \<Rightarrow> panic + handle option \<times> pool_inner" where
  "pool_acquire fns p =
     (case find_or_alloc fns (chunks p) of
        Inl e \<Rightarrow> Inl e
      | Inr (None, cs) \<Rightarrow> Inr (None, p\<lparr>chunks := cs\<rparr>)
      | Inr (Some (idx, q, s, e), cs) \<Rightarrow>
          if idx < length cs then
            (case fst (record_pair fns (query_pool (cs ! idx)) q s e) of
               Inl r \<Rightarrow> Inr (None, p\<lparr>chunks := cs\<rparr>)
             | Inr _ \<Rightarrow> Inr (Some \<lparr>chunk_idx = idx, query_index = q, start_cb = s, end_cb = e,
                                was_submitted = False\<rparr>, p\<lparr>chunks := cs\<rparr>))
          else Inl Panic)"

section \<open>Returning pairs\<close>

definition handle_drop :: "handle \<Rightarrow> pool_inner \<Rightarrow> pool_inner" where
  "handle_drop h p = p\<lparr>expiring := expiring p @
     [\<lparr>e_chunk_idx = chunk_idx h, e_query_index = query_index h, e_was_submitted = was_submitted h\<rparr>]\<rparr>"

definition process_expiring :: "expiring_handle \<Rightarrow> pool_inner \<Rightarrow> panic + pool_inner" where
  "process_expiring item p =
     (let i = e_chunk_idx item in
      if e_was_submitted item \<and> \<not> i < length (chunks p) then Inl Panic
      else if i < length (chunks p) then
        (case release_pair (e_query_index item) (free_bits (chunks p ! i)) of
           None \<Rightarrow> Inl Panic
         | Some b \<Rightarrow> Inr (p\<lparr>chunks := (chunks p)[i := (chunks p ! i)\<lparr>free_bits := b\<rparr>]\<rparr>))
      else Inr p)"

text \<open>The destructor of the pool: the chunks, when the lock is obtained in time.\<close>

definition pool_drop :: "bool \<Rightarrow> pool_inner \<Rightarrow> pool_inner \<times> driver_call list" where
  "pool_drop locked p =
     (if locked then (p\<lparr>chunks := []\<rparr>, concat (map (\<lambda>c. snd (query_chunk_destroy c)) (chunks p)))
      else (p, []))"

section \<open>Interleaving\<close>

text \<open>
  \<open>live\<close> are the handles some thread still holds, \<open>reaping\<close> the item the reaper has popped and
  is waiting for. Each rule is one critical section of the code; \<open>D\<close> is the set of possible
  driver behaviours.
\<close>

record pool_state =
  inner :: pool_inner
  live :: "handle list"
  reaping :: "expiring_handle option"

definition pool_start :: pool_state where
  "pool_start = \<lparr>inner = pool_new, live = [], reaping = None\<rparr>"

inductive pool_step :: "pool_fns set \<Rightarrow> pool_state \<Rightarrow> pool_state \<Rightarrow> bool" for D where
  acquired: "fns \<in> D \<Longrightarrow> pool_acquire fns (inner s) = Inr (Some h, i') \<Longrightarrow>
     pool_step D s (s\<lparr>inner := i', live := live s @ [h]\<rparr>)"
| refused: "fns \<in> D \<Longrightarrow> pool_acquire fns (inner s) = Inr (None, i') \<Longrightarrow> pool_step D s (s\<lparr>inner := i'\<rparr>)"
| submitted: "n < length (live s) \<Longrightarrow>
     pool_step D s (s\<lparr>live := (live s)[n := (live s ! n)\<lparr>was_submitted := True\<rparr>]\<rparr>)"
| dropped: "live s = xs @ h # ys \<Longrightarrow> pool_step D s (s\<lparr>inner := handle_drop h (inner s), live := xs @ ys\<rparr>)"
| popped: "reaping s = None \<Longrightarrow> expiring (inner s) = item # rest \<Longrightarrow>
     pool_step D s (s\<lparr>inner := (inner s)\<lparr>expiring := rest\<rparr>, reaping := Some item\<rparr>)"
| reaped: "reaping s = Some item \<Longrightarrow> process_expiring item (inner s) = Inr i' \<Longrightarrow>
     pool_step D s (s\<lparr>inner := i', reaping := None\<rparr>)"

inductive pool_steps :: "pool_fns set \<Rightarrow> pool_state \<Rightarrow> pool_state \<Rightarrow> bool" for D where
  none: "pool_steps D s s"
| more: "pool_steps D s t \<Longrightarrow> pool_step D t u \<Longrightarrow> pool_steps D s u"

section \<open>Slots\<close>

definition all_slots :: "query_chunk list \<Rightarrow> (nat \<times> nat) set" where
  "all_slots cs = {(c, q). c < length cs \<and> q \<in> pair_indices}"

definition free_slots :: "query_chunk list \<Rightarrow> (nat \<times> nat) set" where
  "free_slots cs = {(c, q). c < length cs \<and> q \<in> free_queries (free_bits (cs ! c))}"

definition live_slots :: "pool_state \<Rightarrow> (nat \<times> nat) list" where
  "live_slots s = map (\<lambda>h. (chunk_idx h, query_index h)) (live s)"

definition held_slots :: "pool_state \<Rightarrow> (nat \<times> nat) list" where
  "held_slots s = live_slots s
     @ map (\<lambda>x. (e_chunk_idx x, e_query_index x)) (expiring (inner s))
     @ (case reaping s of None \<Rightarrow> [] | Some x \<Rightarrow> [(e_chunk_idx x, e_query_index x)])"

definition lost_slots :: "pool_state \<Rightarrow> (nat \<times> nat) set" where
  "lost_slots s = all_slots (chunks (inner s)) - free_slots (chunks (inner s)) - set (held_slots s)"

definition chunk_ok :: "query_chunk \<Rightarrow> bool" where
  "chunk_ok c \<longleftrightarrow> bitset_inv (free_bits c) \<and> length (command_buffers c) = CHUNK_SIZE"

definition buffers_ok :: "query_chunk list \<Rightarrow> handle \<Rightarrow> bool" where
  "buffers_ok cs h \<longleftrightarrow> chunk_idx h < length cs
     \<and> start_cb h = command_buffers (cs ! chunk_idx h) ! query_index h
     \<and> end_cb h = command_buffers (cs ! chunk_idx h) ! (query_index h + 1)"

definition pool_inv :: "pool_state \<Rightarrow> bool" where
  "pool_inv s \<longleftrightarrow> (\<forall>c\<in>set (chunks (inner s)). chunk_ok c)
     \<and> distinct (held_slots s)
     \<and> set (held_slots s) \<subseteq> all_slots (chunks (inner s)) - free_slots (chunks (inner s))
     \<and> (\<forall>h\<in>set (live s). buffers_ok (chunks (inner s)) h)"

lemma pair_index_room: "q \<in> pair_indices \<Longrightarrow> q + 1 < CHUNK_SIZE"
  by (auto simp: pair_indices_def CHUNK_SIZE_def elim!: evenE)

lemma take_pair_ok:
  assumes "chunk_ok c" and "free_queries (free_bits c) \<noteq> {}"
  shows "\<exists>q c'. take_pair c = Inr ((q, command_buffers c ! q, command_buffers c ! (q + 1)), c')"
proof -
  have inv: "bitset_inv (free_bits c)" using assms(1) by (simp add: chunk_ok_def)
  then obtain q b where a: "acquire_pair (free_bits c) = Some (q, b)"
    using bits.acquire_None [OF inv] assms(2) by (cases "acquire_pair (free_bits c)") auto
  then have "q \<in> pair_indices" using bits.acquire_free [OF inv a] bits.free_slots [OF inv] by blast
  then show ?thesis using a assms(1) pair_index_room by (simp add: take_pair_def chunk_ok_def)
qed

lemma take_pair_props:
  assumes "chunk_ok c" and "take_pair c = Inr ((q, sb, eb), c')"
  shows "q \<in> free_queries (free_bits c)" "q \<in> pair_indices" "chunk_ok c'"
    "free_queries (free_bits c') = free_queries (free_bits c) - {q}"
    "command_buffers c' = command_buffers c" "query_pool c' = query_pool c"
    "sb = command_buffers c ! q" "eb = command_buffers c ! (q + 1)"
proof -
  have inv: "bitset_inv (free_bits c)" using assms(1) by (simp add: chunk_ok_def)
  obtain b where a: "acquire_pair (free_bits c) = Some (q, b)" and c': "c' = c\<lparr>free_bits := b\<rparr>"
    and "sb = command_buffers c ! q" "eb = command_buffers c ! (q + 1)"
    using assms(2) by (auto simp: take_pair_def split: option.splits if_splits)
  then show "sb = command_buffers c ! q" "eb = command_buffers c ! (q + 1)" by simp_all
  show "q \<in> free_queries (free_bits c)" using bits.acquire_free [OF inv a] .
  then show "q \<in> pair_indices" using bits.free_slots [OF inv] by blast
  show "chunk_ok c'" using bits.acquire_inv [OF inv a] assms(1) by (simp add: c' chunk_ok_def)
  show "free_queries (free_bits c') = free_queries (free_bits c) - {q}"
    using bits.acquire_takes [OF inv a] by (simp add: c')
qed (use assms(2) in \<open>auto simp: take_pair_def split: option.splits if_splits\<close>)

lemma query_chunk_new_ok: "fst (query_chunk_new fns) = Inr c \<Longrightarrow> chunk_ok c \<and> free_queries (free_bits c) = pair_indices"
  by (auto simp: query_chunk_new_def chunk_ok_def full_inv full_free Let_def split: prod.splits if_splits)

lemma find_free_Some: "find_free n cs = Some i \<Longrightarrow> n \<le> i \<and> i < n + length cs \<and> any_free (free_bits (cs ! (i - n)))"
proof (induction cs arbitrary: n)
  case (Cons c cs)
  show ?case
  proof (cases "any_free (free_bits c)")
    case False
    then have "Suc n \<le> i \<and> i < Suc n + length cs \<and> any_free (free_bits (cs ! (i - Suc n)))"
      using Cons.IH [of "Suc n"] Cons.prems by simp
    moreover have "(c # cs) ! (i - n) = cs ! (i - Suc n)" if "Suc n \<le> i"
      using that by (simp add: nth_Cons')
    ultimately show ?thesis by auto
  qed (use Cons in auto)
qed simp

text \<open>What one allocation does to the slots; it never panics on well-formed chunks.\<close>

lemma find_or_alloc_no_panic: "\<forall>c\<in>set cs. chunk_ok c \<Longrightarrow> find_or_alloc fns cs \<noteq> Inl e"
proof -
  assume ok: "\<forall>c\<in>set cs. chunk_ok c"
  show ?thesis
  proof (cases "find_free 0 cs")
    case (Some i)
    then have i: "i < length cs" "free_queries (free_bits (cs ! i)) \<noteq> {}"
      using find_free_Some [OF Some] by (auto simp: any_free_iff)
    then obtain q c' where "take_pair (cs ! i) = Inr ((q, command_buffers (cs ! i) ! q, command_buffers (cs ! i) ! (q + 1)), c')"
      using take_pair_ok [of "cs ! i"] ok nth_mem by blast
    then show ?thesis using Some by (simp add: find_or_alloc_def)
  next
    case None
    show ?thesis
    proof (cases "fst (query_chunk_new fns)")
      case (Inr c)
      have "0 \<in> pair_indices" by (simp add: pair_indices_def CHUNK_SIZE_def)
      then have "free_queries (free_bits c) \<noteq> {}" using query_chunk_new_ok [OF Inr] by auto
      then obtain q c' where "take_pair c = Inr ((q, command_buffers c ! q, command_buffers c ! (q + 1)), c')"
        using take_pair_ok [of c] query_chunk_new_ok [OF Inr] by blast
      then show ?thesis using None Inr by (simp add: find_or_alloc_def)
    qed (use None in \<open>simp add: find_or_alloc_def\<close>)
  qed
qed

text \<open>
  The ledger of one allocation: the result's slot leaves the free slots, a new chunk adds
  all of its own, nothing else moves, and existing buffers stay where they are.
\<close>

definition alloc_ledger :: "query_chunk list \<Rightarrow> query_chunk list \<Rightarrow> (nat \<times> nat) set \<Rightarrow> bool" where
  "alloc_ledger cs cs' taken \<longleftrightarrow>
     (\<forall>c\<in>set cs'. chunk_ok c) \<and> all_slots cs \<subseteq> all_slots cs' \<and> length cs \<le> length cs'
     \<and> free_slots cs' = (free_slots cs \<union> (all_slots cs' - all_slots cs)) - taken
     \<and> taken \<subseteq> (free_slots cs \<union> (all_slots cs' - all_slots cs))
     \<and> (\<forall>i<length cs. command_buffers (cs' ! i) = command_buffers (cs ! i) \<and> query_pool (cs' ! i) = query_pool (cs ! i))"

lemma ledger_update:
  assumes "\<forall>c\<in>set cs. chunk_ok c" and "i < length cs" and "chunk_ok c'"
    and "q \<in> free_queries (free_bits (cs ! i))"
    and "free_queries (free_bits c') = free_queries (free_bits (cs ! i)) - {q}"
    and "command_buffers c' = command_buffers (cs ! i)" and "query_pool c' = query_pool (cs ! i)"
  shows "alloc_ledger cs (cs[i := c']) {(i, q)}"
proof -
  have "free_slots (cs[i := c']) = free_slots cs - {(i, q)}"
  proof (rule set_eqI, clarify)
    fix c r
    show "(c, r) \<in> free_slots (cs[i := c']) \<longleftrightarrow> (c, r) \<in> free_slots cs - {(i, q)}"
      using assms(2) by (cases "c = i") (simp_all add: free_slots_def assms(5))
  qed
  moreover have "\<forall>c\<in>set (cs[i := c']). chunk_ok c"
    using assms(1,3) set_update_subset_insert by fastforce
  moreover have all: "all_slots (cs[i := c']) = all_slots cs" by (simp add: all_slots_def)
  moreover have "(i, q) \<in> free_slots cs" using assms(2,4) by (simp add: free_slots_def)
  moreover have "\<forall>k<length cs. command_buffers (cs[i := c'] ! k) = command_buffers (cs ! k)
      \<and> query_pool (cs[i := c'] ! k) = query_pool (cs ! k)"
    using assms(2,6,7) by (simp add: nth_list_update)
  ultimately show ?thesis by (simp add: alloc_ledger_def)
qed

lemma ledger_append:
  assumes "\<forall>c\<in>set cs. chunk_ok c" and "chunk_ok c'" and "q \<in> pair_indices"
    and "free_queries (free_bits c') = pair_indices - {q}"
  shows "alloc_ledger cs (cs @ [c']) {(length cs, q)}"
proof -
  have all: "all_slots (cs @ [c']) = all_slots cs \<union> {length cs} \<times> pair_indices"
    by (auto simp: all_slots_def)
  have free: "free_slots (cs @ [c']) = free_slots cs \<union> {length cs} \<times> (pair_indices - {q})"
  proof (rule set_eqI, clarify)
    fix c r
    show "(c, r) \<in> free_slots (cs @ [c']) \<longleftrightarrow> (c, r) \<in> free_slots cs \<union> {length cs} \<times> (pair_indices - {q})"
      using assms(4) by (cases "c = length cs") (auto simp: free_slots_def nth_append)
  qed
  have less: "\<And>x y. (x, y) \<in> free_slots cs \<Longrightarrow> x < length cs" "\<And>x y. (x, y) \<in> all_slots cs \<Longrightarrow> x < length cs"
    by (auto simp: free_slots_def all_slots_def)
  have "free_slots (cs @ [c']) = (free_slots cs \<union> (all_slots (cs @ [c']) - all_slots cs)) - {(length cs, q)}"
  proof (rule set_eqI, clarify)
    fix c r
    show "(c, r) \<in> free_slots (cs @ [c'])
        \<longleftrightarrow> (c, r) \<in> (free_slots cs \<union> (all_slots (cs @ [c']) - all_slots cs)) - {(length cs, q)}"
      using less [of c r] by (cases "c = length cs") (auto simp: all free)
  qed
  moreover have "(length cs, q) \<in> all_slots (cs @ [c']) - all_slots cs"
    using assms(3) less(2) unfolding all by blast
  moreover have "all_slots cs \<subseteq> all_slots (cs @ [c'])" unfolding all by blast
  moreover have "\<forall>c\<in>set (cs @ [c']). chunk_ok c" using assms(1,2) by auto
  moreover have "\<forall>k<length cs. command_buffers ((cs @ [c']) ! k) = command_buffers (cs ! k)
      \<and> query_pool ((cs @ [c']) ! k) = query_pool (cs ! k)"
    by (simp add: nth_append)
  ultimately show ?thesis by (simp add: alloc_ledger_def)
qed

lemma find_or_alloc_ledger:
  assumes "\<forall>c\<in>set cs. chunk_ok c" and "find_or_alloc fns cs = Inr (Some (idx, q, sb, eb), cs')"
  shows "alloc_ledger cs cs' {(idx, q)} \<and> idx < length cs'
    \<and> sb = command_buffers (cs' ! idx) ! q \<and> eb = command_buffers (cs' ! idx) ! (q + 1)"
proof (cases "find_free 0 cs")
  case (Some i)
  then have i: "i < length cs" using find_free_Some [OF Some] by simp
  have ok: "chunk_ok (cs ! i)" using assms(1) i by simp
  obtain c' where t: "take_pair (cs ! i) = Inr ((q, sb, eb), c')" and e: "idx = i" "cs' = cs[i := c']"
    using assms(2) Some by (auto simp: find_or_alloc_def split: sum.splits prod.splits)
  note p = take_pair_props [OF ok t]
  show ?thesis using ledger_update [OF assms(1) i p(3,1,4,5,6)] p(5,7,8) i by (simp add: e)
next
  case None
  then obtain c c' where c: "fst (query_chunk_new fns) = Inr c" and t: "take_pair c = Inr ((q, sb, eb), c')"
      and e: "idx = length cs" "cs' = cs @ [c']"
    using assms(2) by (auto simp: find_or_alloc_def split: sum.splits prod.splits)
  have ok: "chunk_ok c" and f: "free_queries (free_bits c) = pair_indices" using query_chunk_new_ok [OF c] by auto
  note p = take_pair_props [OF ok t]
  show ?thesis using ledger_append [OF assms(1) p(3,2)] p(4,5,7,8) f by (simp add: e)
qed

lemma find_or_alloc_None: "find_or_alloc fns cs = Inr (None, cs') \<Longrightarrow> cs' = cs"
  by (auto simp: find_or_alloc_def split: option.splits sum.splits prod.splits)

lemma ledger_refl: "\<forall>c\<in>set cs. chunk_ok c \<Longrightarrow> alloc_ledger cs cs {}"
  by (auto simp: alloc_ledger_def)

text \<open>\<open>pool_acquire\<close>: a refused call may still have taken a pair.\<close>

lemma pool_acquire_cases:
  assumes "\<forall>c\<in>set (chunks p). chunk_ok c"
  obtains (handle) h p' where "pool_acquire fns p = Inr (Some h, p')" "expiring p' = expiring p"
      "alloc_ledger (chunks p) (chunks p') {(chunk_idx h, query_index h)}" "buffers_ok (chunks p') h"
  | (nothing) "pool_acquire fns p = Inr (None, p)"
  | (leak) p' i q r where "pool_acquire fns p = Inr (None, p')" "expiring p' = expiring p"
      "alloc_ledger (chunks p) (chunks p') {(i, q)}" "i < length (chunks p')"
      "fst (record_pair fns (query_pool (chunks p' ! i)) q
         (command_buffers (chunks p' ! i) ! q) (command_buffers (chunks p' ! i) ! (q + 1))) = Inl r"
proof (cases "find_or_alloc fns (chunks p)")
  case (Inl e)
  then show ?thesis using find_or_alloc_no_panic [OF assms] by blast
next
  case (Inr x)
  obtain y cs where x: "x = (y, cs)" by (cases x)
  show ?thesis
  proof (cases y)
    case None
    then have "find_or_alloc fns (chunks p) = Inr (None, chunks p)"
      using Inr x find_or_alloc_None [of fns "chunks p" cs] by simp
    then have "pool_acquire fns p = Inr (None, p)" by (simp add: pool_acquire_def)
    then show ?thesis by (rule nothing)
  next
    case (Some z)
    obtain i q sb eb where z: "z = (i, q, sb, eb)" by (cases z)
    have f: "find_or_alloc fns (chunks p) = Inr (Some (i, q, sb, eb), cs)" using Inr x Some z by simp
    note l = find_or_alloc_ledger [OF assms f]
    show ?thesis
    proof (cases "fst (record_pair fns (query_pool (cs ! i)) q sb eb)")
      case (Inl r)
      then show ?thesis using leak [of "p\<lparr>chunks := cs\<rparr>" i q r] f l by (simp add: pool_acquire_def)
    next
      case (Inr u)
      then show ?thesis
        using handle [of "\<lparr>chunk_idx = i, query_index = q, start_cb = sb, end_cb = eb, was_submitted = False\<rparr>"
            "p\<lparr>chunks := cs\<rparr>"] f l by (simp add: pool_acquire_def buffers_ok_def)
    qed
  qed
qed

section \<open>Every step keeps the ledger\<close>

definition records_ok :: "pool_fns \<Rightarrow> bool" where
  "records_ok fns \<longleftrightarrow> any_cmd_write_timestamp2 fns \<and> reset_query_pool fns
     \<and> (\<forall>cb. reset_command_buffer fns cb = SUCCESS \<and> begin_command_buffer fns cb = SUCCESS
          \<and> end_command_buffer fns cb = SUCCESS)"

lemma record_pair_ok: "records_ok fns \<Longrightarrow> fst (record_pair fns qp q a b) = Inr ()"
  by (simp add: records_ok_def record_pair_def record_one_def)

definition keeps_ledger :: "bool \<Rightarrow> pool_state \<Rightarrow> pool_state \<Rightarrow> bool" where
  "keeps_ledger rok s t \<longleftrightarrow> pool_inv t \<and> lost_slots s \<subseteq> lost_slots t \<and> (rok \<longrightarrow> lost_slots t \<subseteq> lost_slots s)"

lemma buffers_ok_grow: "alloc_ledger cs cs' taken \<Longrightarrow> buffers_ok cs h \<Longrightarrow> buffers_ok cs' h"
  by (simp add: alloc_ledger_def buffers_ok_def)

lemma held_acquired:
  "distinct (held_slots (s\<lparr>inner := i', live := live s @ [h]\<rparr>)) \<longleftrightarrow>
     (chunk_idx h, query_index h) \<notin> set (held_slots (s\<lparr>inner := i'\<rparr>)) \<and> distinct (held_slots (s\<lparr>inner := i'\<rparr>))"
  "set (held_slots (s\<lparr>inner := i', live := live s @ [h]\<rparr>)) =
     insert (chunk_idx h, query_index h) (set (held_slots (s\<lparr>inner := i'\<rparr>)))"
  by (auto simp: held_slots_def live_slots_def split: option.split)

lemma held_inner: "expiring i' = expiring (inner s) \<Longrightarrow> held_slots (s\<lparr>inner := i'\<rparr>) = held_slots s"
  by (simp add: held_slots_def live_slots_def cong: option.case_cong)

lemma keeps_acquired:
  assumes inv: "pool_inv s" and e: "expiring i' = expiring (inner s)"
    and l: "alloc_ledger (chunks (inner s)) (chunks i') {(chunk_idx h, query_index h)}" and b: "buffers_ok (chunks i') h"
  shows "keeps_ledger rok s (s\<lparr>inner := i', live := live s @ [h]\<rparr>)"
proof -
  let ?t = "s\<lparr>inner := i', live := live s @ [h]\<rparr>"
  let ?x = "(chunk_idx h, query_index h)"
  have held: "set (held_slots ?t) = insert ?x (set (held_slots s))"
    "distinct (held_slots ?t) \<longleftrightarrow> ?x \<notin> set (held_slots s) \<and> distinct (held_slots s)"
    using held_inner [of i' s] e by (simp_all add: held_acquired)
  have s: "set (held_slots s) \<subseteq> all_slots (chunks (inner s)) - free_slots (chunks (inner s))" "distinct (held_slots s)"
    using inv by (simp_all add: pool_inv_def)
  note L = l [unfolded alloc_ledger_def]
  have x: "?x \<in> free_slots (chunks (inner s)) \<union> (all_slots (chunks i') - all_slots (chunks (inner s)))"
    and free: "free_slots (chunks i') = free_slots (chunks (inner s)) \<union> (all_slots (chunks i') - all_slots (chunks (inner s))) - {?x}"
    and all: "all_slots (chunks (inner s)) \<subseteq> all_slots (chunks i')"
    using L by blast+
  have fsub: "free_slots (chunks (inner s)) \<subseteq> all_slots (chunks (inner s))"
    using inv bits.free_slots by (fastforce simp: pool_inv_def free_slots_def all_slots_def chunk_ok_def)
  have new: "?x \<notin> set (held_slots s)" using x s(1) by blast
  have lost: "lost_slots ?t = lost_slots s"
    unfolding lost_slots_def held(1) using free x all s(1) fsub by auto
  have "pool_inv ?t"
    unfolding pool_inv_def held
  proof (intro conjI)
    show "\<forall>c\<in>set (chunks (inner ?t)). chunk_ok c" using L by simp
    show "?x \<notin> set (held_slots s)" by (rule new)
    show "distinct (held_slots s)" by (rule s(2))
    show "insert ?x (set (held_slots s)) \<subseteq> all_slots (chunks (inner ?t)) - free_slots (chunks (inner ?t))"
      using x free s(1) all fsub new by auto
    show "\<forall>h\<in>set (live ?t). buffers_ok (chunks (inner ?t)) h"
      using inv b buffers_ok_grow [OF l] by (auto simp: pool_inv_def)
  qed
  then show ?thesis using lost by (simp add: keeps_ledger_def)
qed

lemma keeps_leak:
  assumes inv: "pool_inv s" and e: "expiring i' = expiring (inner s)"
    and l: "alloc_ledger (chunks (inner s)) (chunks i') taken" and r: "rok \<Longrightarrow> taken = {}"
  shows "keeps_ledger rok s (s\<lparr>inner := i'\<rparr>)" and "taken \<subseteq> lost_slots (s\<lparr>inner := i'\<rparr>)"
proof -
  let ?t = "s\<lparr>inner := i'\<rparr>"
  have held: "held_slots ?t = held_slots s" using held_inner [of i' s] e by simp
  have s: "set (held_slots s) \<subseteq> all_slots (chunks (inner s)) - free_slots (chunks (inner s))" "distinct (held_slots s)"
    using inv by (simp_all add: pool_inv_def)
  note L = l [unfolded alloc_ledger_def]
  have t: "taken \<subseteq> free_slots (chunks (inner s)) \<union> (all_slots (chunks i') - all_slots (chunks (inner s)))"
    and free: "free_slots (chunks i') = free_slots (chunks (inner s)) \<union> (all_slots (chunks i') - all_slots (chunks (inner s))) - taken"
    and all: "all_slots (chunks (inner s)) \<subseteq> all_slots (chunks i')"
    using L by blast+
  have fsub: "free_slots (chunks (inner s)) \<subseteq> all_slots (chunks (inner s))"
    using inv bits.free_slots by (fastforce simp: pool_inv_def free_slots_def all_slots_def chunk_ok_def)
  have lost: "lost_slots ?t = lost_slots s \<union> taken"
    unfolding lost_slots_def held using free t all s(1) fsub by auto
  then show "taken \<subseteq> lost_slots ?t" by blast
  have "pool_inv ?t"
    unfolding pool_inv_def held
  proof (intro conjI)
    show "\<forall>c\<in>set (chunks (inner ?t)). chunk_ok c" using L by simp
    show "distinct (held_slots s)" by (rule s(2))
    show "set (held_slots s) \<subseteq> all_slots (chunks (inner ?t)) - free_slots (chunks (inner ?t))"
      using free s(1) all by auto
    show "\<forall>h\<in>set (live ?t). buffers_ok (chunks (inner ?t)) h"
      using inv buffers_ok_grow [OF l] by (auto simp: pool_inv_def)
  qed
  then show "keeps_ledger rok s ?t" using lost r by (auto simp: keeps_ledger_def)
qed

lemma keeps_same_ledger:
  assumes "pool_inv s" and "chunks (inner t) = chunks (inner s)" and "mset (held_slots t) = mset (held_slots s)"
    and "\<forall>h\<in>set (live t). buffers_ok (chunks (inner s)) h"
  shows "keeps_ledger rok s t"
proof -
  have "set (held_slots t) = set (held_slots s)" "distinct (held_slots t) = distinct (held_slots s)"
    using assms(3) by (metis set_mset_mset, metis mset_eq_imp_distinct_iff)
  then show ?thesis using assms(1,2,4) by (simp add: keeps_ledger_def pool_inv_def lost_slots_def)
qed

lemma keeps_reaped:
  assumes inv: "pool_inv s" and r: "reaping s = Some item"
    and p: "process_expiring item (inner s) = Inr i'"
  shows "keeps_ledger rok s (s\<lparr>inner := i', reaping := None\<rparr>)"
proof -
  let ?c = "e_chunk_idx item" and ?q = "e_query_index item" and ?cs = "chunks (inner s)"
  let ?t = "s\<lparr>inner := i', reaping := None\<rparr>"
  have in_held: "(?c, ?q) \<in> set (held_slots s)" using r by (simp add: held_slots_def)
  then have c: "?c < length ?cs" and q: "?q \<in> pair_indices"
    using inv by (auto simp: pool_inv_def all_slots_def)
  have ok: "chunk_ok (?cs ! ?c)" using inv c by (simp add: pool_inv_def)
  then obtain b where b: "release_pair ?q (free_bits (?cs ! ?c)) = Some b"
      "free_queries b = insert ?q (free_queries (free_bits (?cs ! ?c)))" "bitset_inv b"
    using bits.release_gives [of "free_bits (?cs ! ?c)" ?q] q by (auto simp: chunk_ok_def)
  have i': "i' = (inner s)\<lparr>chunks := ?cs[?c := (?cs ! ?c)\<lparr>free_bits := b\<rparr>]\<rparr>"
    using p c b(1) by (simp add: process_expiring_def Let_def)
  have held: "held_slots s = held_slots ?t @ [(?c, ?q)]"
    using r by (simp add: held_slots_def live_slots_def i')
  have all: "all_slots (chunks i') = all_slots ?cs" by (simp add: all_slots_def i')
  have free: "free_slots (chunks i') = insert (?c, ?q) (free_slots ?cs)"
  proof (rule set_eqI, clarify)
    fix k r
    show "(k, r) \<in> free_slots (chunks i') \<longleftrightarrow> (k, r) \<in> insert (?c, ?q) (free_slots ?cs)"
      using c b(2) by (cases "k = ?c") (simp_all add: free_slots_def i')
  qed
  have oks: "\<forall>c\<in>set (chunks i'). chunk_ok c"
  proof
    fix k assume "k \<in> set (chunks i')"
    then have "k \<in> insert ((?cs ! ?c)\<lparr>free_bits := b\<rparr>) (set ?cs)"
      using set_update_subset_insert by (fastforce simp: i')
    then show "chunk_ok k" using inv ok b(3) by (auto simp: pool_inv_def chunk_ok_def)
  qed
  have bufs: "buffers_ok (chunks i') h \<longleftrightarrow> buffers_ok ?cs h" for h
    using c by (cases "chunk_idx h = ?c") (simp_all add: buffers_ok_def i')
  have "pool_inv ?t"
    using inv held oks bufs by (auto simp: pool_inv_def all free)
  moreover have "lost_slots ?t = lost_slots s"
    using in_held held by (auto simp: lost_slots_def all free)
  ultimately show ?thesis by (simp add: keeps_ledger_def)
qed

lemma pool_step_keeps:
  assumes "pool_step D s t" and inv: "pool_inv s"
  shows "keeps_ledger (\<forall>fns\<in>D. records_ok fns) s t"
  using assms
proof cases
  case (acquired fns h i')
  show ?thesis
    using pool_acquire_cases [of "inner s" fns] inv acquired keeps_acquired [OF inv]
    by (auto simp: pool_inv_def)
next
  case (refused fns i')
  have ok: "\<forall>c\<in>set (chunks (inner s)). chunk_ok c" using inv by (simp add: pool_inv_def)
  show ?thesis
  proof (rule pool_acquire_cases [OF ok, of fns])
    assume "pool_acquire fns (inner s) = Inr (None, inner s)"
    then show ?thesis using refused keeps_leak(1) [OF inv _ ledger_refl [OF ok]] by simp
  next
    fix p' i q r
    assume a: "pool_acquire fns (inner s) = Inr (None, p')" "expiring p' = expiring (inner s)"
      and l: "alloc_ledger (chunks (inner s)) (chunks p') {(i, q)}"
      and "fst (record_pair fns (query_pool (chunks p' ! i)) q (command_buffers (chunks p' ! i) ! q)
        (command_buffers (chunks p' ! i) ! (q + 1))) = Inl r"
    then have "\<not> records_ok fns" using record_pair_ok by fastforce
    then show ?thesis
      using keeps_leak(1) [OF inv a(2) l, of "\<forall>fns\<in>D. records_ok fns"] refused a(1) by auto
  qed (use refused in simp)
next
  case (submitted n)
  have "live_slots t = live_slots s"
    using submitted by (simp add: live_slots_def map_update list_update_same_conv)
  moreover have "\<forall>h\<in>set (live t). buffers_ok (chunks (inner s)) h"
  proof
    fix h assume "h \<in> set (live t)"
    then have "h \<in> insert ((live s ! n)\<lparr>was_submitted := True\<rparr>) (set (live s))"
      using submitted set_update_subset_insert by fastforce
    then show "buffers_ok (chunks (inner s)) h"
      using inv submitted nth_mem by (fastforce simp: pool_inv_def buffers_ok_def)
  qed
  ultimately show ?thesis
    using submitted by (intro keeps_same_ledger [OF inv]) (simp_all add: held_slots_def)
next
  case (dropped xs h ys)
  then show ?thesis
    using inv by (intro keeps_same_ledger [OF inv])
      (simp_all add: held_slots_def live_slots_def handle_drop_def pool_inv_def)
next
  case (popped item rest)
  then show ?thesis
    using inv by (intro keeps_same_ledger [OF inv])
      (simp_all add: held_slots_def live_slots_def pool_inv_def)
next
  case (reaped item i')
  then show ?thesis using keeps_reaped [OF inv] by simp
qed

lemma pool_start_inv: "pool_inv pool_start" and pool_start_lost: "lost_slots pool_start = {}"
  by (simp_all add: pool_start_def pool_new_def pool_inv_def held_slots_def live_slots_def lost_slots_def all_slots_def)

lemma pool_steps_keep:
  "pool_steps D s t \<Longrightarrow> pool_inv s \<Longrightarrow> keeps_ledger (\<forall>fns\<in>D. records_ok fns) s t"
proof (induction rule: pool_steps.induct)
  case (more s t u)
  then have "keeps_ledger (\<forall>fns\<in>D. records_ok fns) t u"
    using pool_step_keeps by (simp add: keeps_ledger_def)
  then show ?case using more by (auto simp: keeps_ledger_def)
qed (simp add: keeps_ledger_def)

lemma process_expiring_no_panic:
  assumes inv: "pool_inv s" and r: "reaping s = Some item"
  shows "process_expiring item (inner s) \<noteq> Inl e"
proof -
  let ?c = "e_chunk_idx item" and ?q = "e_query_index item" and ?cs = "chunks (inner s)"
  have "(?c, ?q) \<in> set (held_slots s)" using r by (simp add: held_slots_def)
  then have c: "?c < length ?cs" and q: "?q \<in> pair_indices"
    using inv by (auto simp: pool_inv_def all_slots_def)
  then have "chunk_ok (?cs ! ?c)" using inv by (simp add: pool_inv_def)
  then obtain b where "release_pair ?q (free_bits (?cs ! ?c)) = Some b"
    using bits.release_gives [of "free_bits (?cs ! ?c)" ?q] q by (auto simp: chunk_ok_def)
  then show ?thesis using c by (simp add: process_expiring_def Let_def)
qed

lemma pool_acquire_no_panic: "pool_inv s \<Longrightarrow> pool_acquire fns (inner s) \<noteq> Inl e"
  by (rule pool_acquire_cases [of "inner s" fns]) (auto simp: pool_inv_def)

text \<open>A driver that answers every call, and one whose command buffers cannot be begun.\<close>

definition good_fns :: pool_fns where
  "good_fns = \<lparr>create_query_pool = (SUCCESS, 7), allocate_command_buffers = (SUCCESS, Suc),
     any_cmd_write_timestamp2 = True, reset_query_pool = True, reset_command_buffer = (\<lambda>_. SUCCESS),
     begin_command_buffer = (\<lambda>_. SUCCESS), end_command_buffer = (\<lambda>_. SUCCESS),
     get_query_pool_results = (\<lambda>_ _ _. (SUCCESS, 5, 1))\<rparr>"

definition stuck_fns :: pool_fns where
  "stuck_fns = good_fns\<lparr>begin_command_buffer := (\<lambda>_. ERROR_UNKNOWN)\<rparr>"

lemma good_fns_ok: "records_ok good_fns"
  by (simp add: records_ok_def good_fns_def)

lemma find_or_alloc_finds:
  assumes "\<forall>c\<in>set cs. chunk_ok c" and "fst (create_query_pool fns) = SUCCESS"
    and "fst (allocate_command_buffers fns) = SUCCESS"
  shows "\<exists>x cs'. find_or_alloc fns cs = Inr (Some x, cs')"
proof -
  obtain c where "fst (query_chunk_new fns) = Inr c"
    using assms(2,3) by (cases "create_query_pool fns"; cases "allocate_command_buffers fns")
      (simp add: query_chunk_new_def)
  then have nn: "find_or_alloc fns cs \<noteq> Inr (None, cs')" for cs'
    by (auto simp: find_or_alloc_def split: option.splits sum.splits prod.splits)
  show ?thesis
  proof (cases "find_or_alloc fns cs")
    case (Inl e)
    then show ?thesis using find_or_alloc_no_panic [OF assms(1)] by blast
  next
    case (Inr y)
    then show ?thesis using nn by (cases y; cases "fst y") auto
  qed
qed

lemma good_acquire: "pool_inv s \<Longrightarrow> \<exists>h i'. pool_acquire good_fns (inner s) = Inr (Some h, i')"
proof (rule pool_acquire_cases [of "inner s" good_fns])
  assume inv: "pool_inv s" and n: "pool_acquire good_fns (inner s) = Inr (None, inner s)"
  then obtain i q a b cs' where f: "find_or_alloc good_fns (chunks (inner s)) = Inr (Some (i, q, a, b), cs')"
    using find_or_alloc_finds [of "chunks (inner s)" good_fns] by (auto simp: pool_inv_def good_fns_def)
  have "\<forall>c\<in>set (chunks (inner s)). chunk_ok c" using inv by (simp add: pool_inv_def)
  from find_or_alloc_ledger [OF this f] show ?thesis
    using f n record_pair_ok [OF good_fns_ok] by (simp add: pool_acquire_def)
qed (auto simp: pool_inv_def record_pair_ok [OF good_fns_ok])

lemma two_handles: "\<exists>s a b. pool_steps {good_fns} pool_start s \<and> live s = [a, b]"
proof -
  obtain a i1 where 1: "pool_acquire good_fns (inner pool_start) = Inr (Some a, i1)"
    using good_acquire [OF pool_start_inv] by blast
  let ?s1 = "pool_start\<lparr>inner := i1, live := live pool_start @ [a]\<rparr>"
  have s1: "pool_steps {good_fns} pool_start ?s1"
    using pool_steps.more [OF pool_steps.none pool_step.acquired [OF _ 1]] by blast
  have "pool_inv ?s1" using pool_steps_keep [OF s1 pool_start_inv] by (simp add: keeps_ledger_def)
  then obtain b i2 where 2: "pool_acquire good_fns (inner ?s1) = Inr (Some b, i2)"
    using good_acquire by blast
  have "pool_steps {good_fns} pool_start (?s1\<lparr>inner := i2, live := live ?s1 @ [b]\<rparr>)"
    using pool_steps.more [OF s1 pool_step.acquired [OF _ 2]] by blast
  then show ?thesis by (force simp: pool_start_def)
qed

section \<open>Properties\<close>



text \<open>
  C2. If recording into the command buffers never fails, no pair is ever lost: at every
  reachable state each pair of each chunk is either free, or held by exactly one live
  handle or dropped handle that the reaper has still to return.
\<close>

theorem pool_conserves_pairs:
  assumes "pool_steps D pool_start s" and "\<forall>fns\<in>D. records_ok fns"
  shows "all_slots (chunks (inner s)) = free_slots (chunks (inner s)) \<union> set (held_slots s)
    \<and> free_slots (chunks (inner s)) \<inter> set (held_slots s) = {} \<and> distinct (held_slots s)"
proof -
  have k: "keeps_ledger True pool_start s" using pool_steps_keep [OF assms(1) pool_start_inv] assms(2) by simp
  then have "lost_slots s = {}" and inv: "pool_inv s" by (auto simp: keeps_ledger_def pool_start_lost)
  moreover have "free_slots (chunks (inner s)) \<subseteq> all_slots (chunks (inner s))"
    using inv bits.free_slots by (fastforce simp: pool_inv_def free_slots_def all_slots_def chunk_ok_def)
  ultimately show ?thesis using inv by (auto simp: pool_inv_def lost_slots_def)
qed

theorem pool_conserves_pairs_witness:
  "\<exists>s. pool_steps {good_fns} pool_start s \<and> length (live s) = 2
     \<and> all_slots (chunks (inner s)) = free_slots (chunks (inner s)) \<union> set (held_slots s)"
proof -
  obtain s a b where s: "pool_steps {good_fns} pool_start s" "live s = [a, b]"
    using two_handles by blast
  then show ?thesis using pool_conserves_pairs [OF s(1)] good_fns_ok by auto
qed

text \<open>
  A recording failure leaks: when \<open>record\<close> fails after the pair was taken, the call
  returns no handle, the pair is in nobody's hands and is not free, and it stays lost in
  every continuation, whatever the later driver answers.
\<close>

theorem failed_record_leaks_pair_forever:
  assumes "pool_steps D pool_start s" and "fns \<in> D"
    and "find_or_alloc fns (chunks (inner s)) = Inr (Some (i, q, sb, eb), cs)"
    and "fst (record_pair fns (query_pool (cs ! i)) q sb eb) = Inl r"
    and "pool_steps D (s\<lparr>inner := (inner s)\<lparr>chunks := cs\<rparr>\<rparr>) t"
  shows "pool_acquire fns (inner s) = Inr (None, (inner s)\<lparr>chunks := cs\<rparr>)
    \<and> (i, q) \<in> all_slots (chunks (inner t)) \<and> (i, q) \<notin> free_slots (chunks (inner t)) \<and> (i, q) \<notin> set (held_slots t)"
proof -
  have inv: "pool_inv s"
    using pool_steps_keep [OF assms(1) pool_start_inv] by (simp add: keeps_ledger_def)
  then have ok: "\<forall>c\<in>set (chunks (inner s)). chunk_ok c" by (simp add: pool_inv_def)
  note l = find_or_alloc_ledger [OF ok assms(3)]
  let ?i = "(inner s)\<lparr>chunks := cs\<rparr>"
  have led: "alloc_ledger (chunks (inner s)) (chunks ?i) {(i, q)}" and e: "expiring ?i = expiring (inner s)"
    using l by simp_all
  have "keeps_ledger False s (s\<lparr>inner := ?i\<rparr>)" "(i, q) \<in> lost_slots (s\<lparr>inner := ?i\<rparr>)"
    using keeps_leak(1) [OF inv e led, of False] keeps_leak(2) [OF inv e led, of False] by simp_all
  then have "(i, q) \<in> lost_slots t"
    using pool_steps_keep [OF assms(5)] by (auto simp: keeps_ledger_def)
  moreover have "pool_acquire fns (inner s) = Inr (None, ?i)"
    using assms(3,4) l by (simp add: pool_acquire_def)
  ultimately show ?thesis by (simp add: lost_slots_def)
qed

theorem failed_record_leaks_pair_forever_witness:
  "\<exists>i q p. pool_acquire stuck_fns pool_new = Inr (None, p)
     \<and> (i, q) \<in> all_slots (chunks p) \<and> (i, q) \<notin> free_slots (chunks p)"
proof -
  have empty: "chunks (inner pool_start) = []" "inner pool_start = pool_new"
    by (simp_all add: pool_start_def pool_new_def)
  obtain i q a b cs where f: "find_or_alloc stuck_fns (chunks (inner pool_start)) = Inr (Some (i, q, a, b), cs)"
    using find_or_alloc_finds [of "[]" stuck_fns] by (force simp: empty(1) stuck_fns_def good_fns_def)
  have r: "fst (record_pair stuck_fns (query_pool (cs ! i)) q a b) = Inl ERROR_UNKNOWN"
    by (simp add: record_pair_def record_one_def stuck_fns_def good_fns_def)
  show ?thesis
    using failed_record_leaks_pair_forever [OF pool_steps.none _ f r pool_steps.none, of "{stuck_fns}"]
    by (auto simp: empty)
qed

end
