(* ===== verification/Markers.thy ===== *)
theory Markers
  imports Prelude
begin

text \<open>
  The Reflex marker history of \<open>src/strategy/low_latency2/markers.rs\<close>: a bounded deque of
  frames with a sidecar map from present id to absolute frame number. \<open>Inl Panic\<close> is an
  index beyond the deque. Abstractly it is a map from present ids to frames
  (\<open>frame_of\<close>) with eviction of the oldest frame.
\<close>

section \<open>State\<close>

definition HISTORY_CAP :: nat where "HISTORY_CAP = 128"

record frame_markers =
  fm_present_id :: u64
  input_sample_us :: u64
  sim_start_us :: u64
  sim_end_us :: u64
  render_submit_start_us :: u64
  render_submit_end_us :: u64
  present_start_us :: u64
  present_end_us :: u64
  display_actual_us :: u64
  gpu_render_start_us :: u64
  gpu_render_end_us :: u64

definition frame_default :: "u64 \<Rightarrow> frame_markers" where
  "frame_default pid = \<lparr>fm_present_id = pid, input_sample_us = 0, sim_start_us = 0, sim_end_us = 0,
     render_submit_start_us = 0, render_submit_end_us = 0, present_start_us = 0, present_end_us = 0,
     display_actual_us = 0, gpu_render_start_us = 0, gpu_render_end_us = 0\<rparr>"

record history =
  frames :: "frame_markers list"
  by_present_id :: "u64 \<rightharpoonup> u64"
  head_index :: u64

definition history_new :: history where
  "history_new = \<lparr>frames = [], by_present_id = Map.empty, head_index = 0\<rparr>"

datatype latency_marker =
    SIMULATION_START | SIMULATION_END | RENDERSUBMIT_START | RENDERSUBMIT_END
  | PRESENT_START | PRESENT_END | INPUT_SAMPLE | OTHER_MARKER

section \<open>Operations\<close>

definition stamp :: "latency_marker \<Rightarrow> u64 \<Rightarrow> frame_markers \<Rightarrow> frame_markers" where
  "stamp m now_us f =
     (case m of
        INPUT_SAMPLE \<Rightarrow> f\<lparr>input_sample_us := now_us\<rparr>
      | SIMULATION_START \<Rightarrow> f\<lparr>sim_start_us := now_us\<rparr>
      | SIMULATION_END \<Rightarrow> f\<lparr>sim_end_us := now_us\<rparr>
      | RENDERSUBMIT_START \<Rightarrow> f\<lparr>render_submit_start_us := now_us\<rparr>
      | RENDERSUBMIT_END \<Rightarrow> f\<lparr>render_submit_end_us := now_us\<rparr>
      | PRESENT_START \<Rightarrow> f\<lparr>present_start_us := now_us\<rparr>
      | PRESENT_END \<Rightarrow> f\<lparr>present_end_us := now_us\<rparr>
      | OTHER_MARKER \<Rightarrow> f)"

definition update_slot :: "u64 \<Rightarrow> (frame_markers \<Rightarrow> frame_markers) \<Rightarrow> history \<Rightarrow> panic + history" where
  "update_slot ai g h =
     (let slot = unat (ai - head_index h) in
      if slot < length (frames h) then Inr (h\<lparr>frames := (frames h)[slot := g (frames h ! slot)]\<rparr>)
      else Inl Panic)"

text \<open>The frame of a present id seen for the first time: evict at capacity, then append.\<close>

definition evict_oldest :: "history \<Rightarrow> history" where
  "evict_oldest h =
     (if length (frames h) = HISTORY_CAP then
        (case frames h of
           [] \<Rightarrow> h\<lparr>head_index := head_index h + 1\<rparr>
         | old # rest \<Rightarrow> h\<lparr>frames := rest, by_present_id := (by_present_id h)(fm_present_id old := None),
             head_index := head_index h + 1\<rparr>)
      else h)"

definition append_frame :: "frame_markers \<Rightarrow> history \<Rightarrow> history" where
  "append_frame f h = h\<lparr>frames := frames h @ [f],
     by_present_id := (by_present_id h)(fm_present_id f \<mapsto> head_index h + of_nat (length (frames h)))\<rparr>"

definition record_marker :: "u64 \<Rightarrow> u64 \<Rightarrow> latency_marker \<Rightarrow> history \<Rightarrow> panic + history" where
  "record_marker now present_id marker h =
     (let now_us = now div 1000 in
      case by_present_id h present_id of
        Some ai \<Rightarrow> update_slot ai (stamp marker now_us) h
      | None \<Rightarrow> Inr (append_frame (stamp marker now_us (frame_default present_id)) (evict_oldest h)))"

definition record_gpu_timing :: "u64 \<Rightarrow> u64 \<Rightarrow> u64 \<Rightarrow> history \<Rightarrow> panic + history" where
  "record_gpu_timing present_id start_host_ns end_host_ns h =
     (case by_present_id h present_id of
        Some ai \<Rightarrow> update_slot ai
          (\<lambda>f. f\<lparr>gpu_render_start_us := start_host_ns div 1000, gpu_render_end_us := end_host_ns div 1000\<rparr>) h
      | None \<Rightarrow> Inr h)"

definition record_present_actual :: "u64 \<Rightarrow> u64 \<Rightarrow> history \<Rightarrow> panic + history" where
  "record_present_actual present_id actual_host_ns h =
     (case by_present_id h present_id of
        Some ai \<Rightarrow> update_slot ai (\<lambda>f. f\<lparr>display_actual_us := actual_host_ns div 1000\<rparr>) h
      | None \<Rightarrow> Inr h)"

text \<open>The click-to-photon sample of one frame, if it has both endpoints.\<close>

definition frame_latency :: "frame_markers \<Rightarrow> u64 option" where
  "frame_latency f =
     (if input_sample_us f = 0 then None
      else
        (let e = (if display_actual_us f \<noteq> 0 then display_actual_us f else present_end_us f) in
         if e > input_sample_us f then Some (e - input_sample_us f) else None))"

fun first_latency :: "frame_markers list \<Rightarrow> u64" where
  "first_latency [] = 0"
| "first_latency (f # fs) = (case frame_latency f of Some l \<Rightarrow> l | None \<Rightarrow> first_latency fs)"

definition latest_latency_us :: "history \<Rightarrow> u64" where
  "latest_latency_us h = first_latency (rev (frames h))"

fun push_latencies :: "frame_markers list \<Rightarrow> u64 list \<Rightarrow> u64 list" where
  "push_latencies [] out = out"
| "push_latencies (f # fs) out = push_latencies fs (case frame_latency f of Some l \<Rightarrow> out @ [l] | None \<Rightarrow> out)"

definition latencies_us :: "history \<Rightarrow> u64 list \<Rightarrow> u64 list" where
  "latencies_us h out = push_latencies (frames h) out"

text \<open>
  \<open>VkGetLatencyMarkerInfoNV\<close>: \<open>None\<close> is a null \<open>pTimings\<close>. The reports are the frames with
  the present end the application is shown.
\<close>

record timing_info =
  timing_count :: u32
  p_timings :: "frame_markers list option"

definition frame_report :: "frame_markers \<Rightarrow> frame_markers" where
  "frame_report f = f\<lparr>present_end_us := (if present_end_us f \<noteq> 0 then present_end_us f else display_actual_us f),
     display_actual_us := 0\<rparr>"

definition fill :: "timing_info \<Rightarrow> history \<Rightarrow> timing_info" where
  "fill t h =
     (case p_timings t of
        None \<Rightarrow> t\<lparr>timing_count := of_nat (length (frames h))\<rparr>
      | Some buf \<Rightarrow>
          (let to_write = min (unat (timing_count t)) (length (frames h)) in
           t\<lparr>timing_count := of_nat to_write,
             p_timings := Some (map frame_report (take to_write (rev (frames h))) @ drop to_write buf)\<rparr>))"

section \<open>Invariant\<close>

text \<open>The map mirrors the deque: exactly the present ids in it, each at its slot.\<close>

definition history_inv :: "history \<Rightarrow> bool" where
  "history_inv h \<longleftrightarrow> length (frames h) \<le> HISTORY_CAP \<and> distinct (map fm_present_id (frames h))
     \<and> (\<forall>i<length (frames h). by_present_id h (fm_present_id (frames h ! i)) = Some (head_index h + of_nat i))
     \<and> dom (by_present_id h) = fm_present_id ` set (frames h)"

definition frame_of :: "history \<Rightarrow> u64 \<Rightarrow> frame_markers option" where
  "frame_of h pid = find (\<lambda>f. fm_present_id f = pid) (frames h)"

lemma history_new_inv: "history_inv history_new"
  by (simp add: history_inv_def history_new_def HISTORY_CAP_def)

lemma stamp_id [simp]: "fm_present_id (stamp m t f) = fm_present_id f"
  by (simp add: stamp_def split: latency_marker.split)

lemma frame_default_id [simp]: "fm_present_id (frame_default pid) = pid"
  by (simp add: frame_default_def)

lemma not_image: "y \<notin> f ` A \<longleftrightarrow> (\<forall>x\<in>A. f x \<noteq> y)"
  by auto

lemma slot_of_index: "n < HISTORY_CAP \<Longrightarrow> unat (head + of_nat n - (head :: u64)) = n"
  by (simp add: HISTORY_CAP_def unat_of_nat)

lemma frame_of_nth:
  assumes "distinct (map fm_present_id (frames h))" and "i < length (frames h)"
  shows "frame_of h (fm_present_id (frames h ! i)) = Some (frames h ! i)"
proof -
  have "fm_present_id (frames h ! j) \<noteq> fm_present_id (frames h ! i)" if "j < i" for j
    using assms(2) that nth_eq_iff_index_eq [OF assms(1), of j i] by simp
  then show ?thesis
    using assms(2) by (auto simp: frame_of_def find_Some_iff intro!: exI [of _ i])
qed

lemma frame_of_None: "frame_of h pid = None \<longleftrightarrow> pid \<notin> fm_present_id ` set (frames h)"
  by (auto simp: frame_of_def find_None_iff)

lemma frame_of_Some: "frame_of h pid = Some f \<Longrightarrow> f \<in> set (frames h) \<and> fm_present_id f = pid"
  by (auto simp: frame_of_def find_Some_iff)

lemma known_slot:
  assumes "history_inv h" and "by_present_id h pid = Some ai"
  obtains i where "i < length (frames h)" "fm_present_id (frames h ! i) = pid" "unat (ai - head_index h) = i"
proof -
  have "pid \<in> fm_present_id ` set (frames h)" using assms by (auto simp: history_inv_def)
  then obtain i where i: "i < length (frames h)" "fm_present_id (frames h ! i) = pid"
    by (auto simp: in_set_conv_nth)
  then have "ai = head_index h + of_nat i" and "i < HISTORY_CAP"
    using assms by (auto simp: history_inv_def)
  then show ?thesis using that i slot_of_index by blast
qed

text \<open>Updating the frame of a known id, without changing its id.\<close>

lemma update_slot_spec:
  assumes inv: "history_inv h" and known: "by_present_id h pid = Some ai"
    and same: "\<And>f. fm_present_id (g f) = fm_present_id f"
  shows "\<exists>h'. update_slot ai g h = Inr h' \<and> history_inv h'
    \<and> (\<forall>q. frame_of h' q = (if q = pid then map_option g (frame_of h pid) else frame_of h q))
    \<and> map fm_present_id (frames h') = map fm_present_id (frames h)"
proof -
  obtain i where i: "i < length (frames h)" "fm_present_id (frames h ! i) = pid" "unat (ai - head_index h) = i"
    using known_slot [OF inv known] .
  let ?h = "h\<lparr>frames := (frames h)[i := g (frames h ! i)]\<rparr>"
  have u: "update_slot ai g h = Inr ?h" using i(1,3) by (simp add: update_slot_def)
  have ids: "map fm_present_id (frames ?h) = map fm_present_id (frames h)"
    using i(1) by (simp add: map_update same list_update_same_conv)
  then have ids_nth: "k < length (frames h) \<Longrightarrow> fm_present_id (frames ?h ! k) = fm_present_id (frames h ! k)" for k
    by (metis length_map nth_map history.select_convs(1) history.surjective history.update_convs(1) length_list_update)
  have set_ids: "fm_present_id ` set (frames ?h) = fm_present_id ` set (frames h)"
    using ids by (metis set_map)
  have inv': "history_inv ?h"
    using inv ids ids_nth set_ids by (simp add: history_inv_def)
  have dist: "distinct (map fm_present_id (frames h))" "distinct (map fm_present_id (frames ?h))"
    using inv inv' by (simp_all add: history_inv_def)
  have "frame_of ?h q = (if q = pid then map_option g (frame_of h pid) else frame_of h q)" for q
  proof (cases "q \<in> fm_present_id ` set (frames h)")
    case True
    then obtain k where k: "k < length (frames h)" "q = fm_present_id (frames h ! k)"
      by (auto simp: in_set_conv_nth)
    have "frame_of ?h q = Some (frames ?h ! k)" "frame_of h q = Some (frames h ! k)"
      using frame_of_nth [OF dist(2), of k] frame_of_nth [OF dist(1), of k] k ids_nth by simp_all
    moreover have "q = pid \<longleftrightarrow> k = i"
      using k i nth_eq_iff_index_eq [OF dist(1), of k i] by auto
    ultimately show ?thesis using k(1) by (cases "q = pid") (auto simp: nth_list_update)
  next
    case False
    then have "frame_of ?h q = None" "frame_of h q = None" using set_ids by (simp_all add: frame_of_None)
    then show ?thesis by auto
  qed
  then show ?thesis using u inv' ids by blast
qed

lemma evict_oldest_inv:
  assumes "history_inv h"
  shows "history_inv (evict_oldest h)" "length (frames (evict_oldest h)) < HISTORY_CAP"
    "frames (evict_oldest h) = (if length (frames h) = HISTORY_CAP then tl (frames h) else frames h)"
proof -
  show fr: "frames (evict_oldest h) = (if length (frames h) = HISTORY_CAP then tl (frames h) else frames h)"
    by (simp add: evict_oldest_def split: list.split)
  show "length (frames (evict_oldest h)) < HISTORY_CAP"
    using assms by (auto simp: fr history_inv_def HISTORY_CAP_def)
  show "history_inv (evict_oldest h)"
  proof (cases "length (frames h) = HISTORY_CAP")
    case True
    then obtain old rest where f: "frames h = old # rest"
      by (cases "frames h") (auto simp: HISTORY_CAP_def)
    have e: "evict_oldest h = h\<lparr>frames := rest, by_present_id := (by_present_id h)(fm_present_id old := None),
        head_index := head_index h + 1\<rparr>"
      using True f by (simp add: evict_oldest_def)
    have new: "\<forall>x\<in>set rest. fm_present_id x \<noteq> fm_present_id old"
      using assms f by (simp add: history_inv_def not_image)
    have m: "by_present_id h (fm_present_id (rest ! i)) = Some (head_index h + 1 + of_nat i)"
        "fm_present_id (rest ! i) \<noteq> fm_present_id old" if "i < length rest" for i
      using assms f that new by (auto simp: history_inv_def add.assoc dest: spec [of _ "Suc i"])
    have "dom (by_present_id h) = insert (fm_present_id old) (fm_present_id ` set rest)"
      using assms f by (simp add: history_inv_def)
    then have "dom ((by_present_id h)(fm_present_id old := None)) = fm_present_id ` set rest"
      using new by auto
    then show ?thesis
      using assms f m by (simp add: e history_inv_def)
  qed (use assms in \<open>simp add: evict_oldest_def\<close>)
qed

lemma append_frame_inv:
  assumes "history_inv h" and "length (frames h) < HISTORY_CAP" and "fm_present_id f \<notin> fm_present_id ` set (frames h)"
  shows "history_inv (append_frame f h)"
proof -
  have ne: "fm_present_id (frames h ! i) \<noteq> fm_present_id f" if "i < length (frames h)" for i
    using assms(3) that by (metis image_eqI nth_mem)
  show ?thesis
    using assms ne by (auto simp: history_inv_def append_frame_def nth_append less_Suc_eq)
qed

lemma find_append: "find P (xs @ ys) = (case find P xs of Some x \<Rightarrow> Some x | None \<Rightarrow> find P ys)"
  by (induction xs) auto

text \<open>The id evicted when an unknown present id is recorded.\<close>

definition evicted :: "history \<Rightarrow> u64 option" where
  "evicted h = (if length (frames h) = HISTORY_CAP then Some (fm_present_id (hd (frames h))) else None)"

lemma frame_of_evict:
  assumes "history_inv h"
  shows "frame_of (evict_oldest h) q = (if evicted h = Some q then None else frame_of h q)"
proof (cases "length (frames h) = HISTORY_CAP")
  case True
  then obtain old rest where f: "frames h = old # rest"
    by (cases "frames h") (auto simp: HISTORY_CAP_def)
  then have "\<forall>x\<in>set rest. fm_present_id x \<noteq> fm_present_id old"
    using assms by (simp add: history_inv_def not_image)
  then have "find (\<lambda>x. fm_present_id x = fm_present_id old) rest = None" by (auto simp: find_None_iff)
  then show ?thesis
    using evict_oldest_inv(3) [OF assms] True f by (auto simp: frame_of_def evicted_def)
qed (use evict_oldest_inv(3) [OF assms] in \<open>simp add: frame_of_def evicted_def\<close>)

lemma known_iff: "history_inv h \<Longrightarrow> by_present_id h pid = None \<longleftrightarrow> frame_of h pid = None"
  by (auto simp: frame_of_None history_inv_def)

lemma record_marker_new:
  fixes now pid :: u64 and m :: latency_marker
  assumes inv: "history_inv h" and new: "by_present_id h pid = None"
  defines "h' \<equiv> append_frame (stamp m (now div 1000) (frame_default pid)) (evict_oldest h)"
  shows "record_marker now pid m h = Inr h'" "history_inv h'"
    "frame_of h' q = (if q = pid then Some (stamp m (now div 1000) (frame_default pid))
       else if evicted h = Some q then None else frame_of h q)"
proof -
  show "record_marker now pid m h = Inr h'" by (simp add: record_marker_def h'_def new)
  have fresh: "pid \<notin> fm_present_id ` set (frames h)" using inv new by (auto simp: history_inv_def)
  then have fresh': "pid \<notin> fm_present_id ` set (frames (evict_oldest h))"
    using evict_oldest_inv(3) [OF inv] list.set_sel(2) [of "frames h"]
    by (cases "frames h") (auto simp: not_image)
  then show "history_inv h'"
    unfolding h'_def using evict_oldest_inv [OF inv] by (intro append_frame_inv) simp_all
  have "frame_of (evict_oldest h) pid = None" using fresh' by (simp add: frame_of_None)
  then show "frame_of h' q = (if q = pid then Some (stamp m (now div 1000) (frame_default pid))
       else if evicted h = Some q then None else frame_of h q)"
    using frame_of_evict [OF inv, of q]
    by (auto simp: h'_def frame_of_def append_frame_def find_append split: option.split)
qed

section \<open>Sequences of operations\<close>

datatype history_op =
    MarkerOp u64 u64 latency_marker
  | GpuTimingOp u64 u64 u64
  | PresentActualOp u64 u64

definition run_history_op :: "history_op \<Rightarrow> history \<Rightarrow> panic + history" where
  "run_history_op op h =
     (case op of
        MarkerOp now pid m \<Rightarrow> record_marker now pid m h
      | GpuTimingOp pid s e \<Rightarrow> record_gpu_timing pid s e h
      | PresentActualOp pid t \<Rightarrow> record_present_actual pid t h)"

fun run_history :: "history_op list \<Rightarrow> history \<Rightarrow> panic + history" where
  "run_history [] h = Inr h"
| "run_history (op # ops) h = (case run_history_op op h of Inl e \<Rightarrow> Inl e | Inr h' \<Rightarrow> run_history ops h')"

text \<open>The effect of one operation on the abstract map.\<close>

definition op_effect :: "history_op \<Rightarrow> history \<Rightarrow> u64 \<Rightarrow> frame_markers option" where
  "op_effect op h q =
     (case op of
        MarkerOp now pid m \<Rightarrow>
          (if q = pid then
             Some (stamp m (now div 1000) (case frame_of h pid of Some f \<Rightarrow> f | None \<Rightarrow> frame_default pid))
           else if frame_of h pid = None \<and> evicted h = Some q then None else frame_of h q)
      | GpuTimingOp pid s e \<Rightarrow>
          (if q = pid then map_option
             (\<lambda>f. f\<lparr>gpu_render_start_us := s div 1000, gpu_render_end_us := e div 1000\<rparr>) (frame_of h pid)
           else frame_of h q)
      | PresentActualOp pid t \<Rightarrow>
          (if q = pid then map_option (\<lambda>f. f\<lparr>display_actual_us := t div 1000\<rparr>) (frame_of h pid)
           else frame_of h q))"

lemma record_marker_effect:
  assumes inv: "history_inv h"
  shows "\<exists>h'. record_marker now pid m h = Inr h' \<and> history_inv h' \<and> (\<forall>q. frame_of h' q = op_effect (MarkerOp now pid m) h q)"
proof (cases "by_present_id h pid")
  case None
  then show ?thesis
    using record_marker_new [OF inv None] known_iff [OF inv, of pid] by (auto simp: op_effect_def)
next
  case (Some ai)
  then have "frame_of h pid \<noteq> None" using known_iff [OF inv, of pid] by auto
  then show ?thesis
    using update_slot_spec [OF inv Some, of "stamp m (now div 1000)"] Some
    by (fastforce simp: record_marker_def op_effect_def)
qed

lemma record_gpu_effect:
  assumes inv: "history_inv h"
  shows "\<exists>h'. record_gpu_timing pid s e h = Inr h' \<and> history_inv h' \<and> (\<forall>q. frame_of h' q = op_effect (GpuTimingOp pid s e) h q)"
proof (cases "by_present_id h pid")
  case None
  then have "frame_of h pid = None" using known_iff [OF inv, of pid] by simp
  then show ?thesis using inv None by (simp add: record_gpu_timing_def op_effect_def)
next
  case (Some ai)
  then show ?thesis
    using update_slot_spec [OF inv Some, of "\<lambda>f. f\<lparr>gpu_render_start_us := s div 1000, gpu_render_end_us := e div 1000\<rparr>"]
    by (auto simp: record_gpu_timing_def op_effect_def)
qed

lemma record_actual_effect:
  assumes inv: "history_inv h"
  shows "\<exists>h'. record_present_actual pid t h = Inr h' \<and> history_inv h' \<and> (\<forall>q. frame_of h' q = op_effect (PresentActualOp pid t) h q)"
proof (cases "by_present_id h pid")
  case None
  then have "frame_of h pid = None" using known_iff [OF inv, of pid] by simp
  then show ?thesis using inv None by (simp add: record_present_actual_def op_effect_def)
next
  case (Some ai)
  then show ?thesis
    using update_slot_spec [OF inv Some, of "\<lambda>f. f\<lparr>display_actual_us := t div 1000\<rparr>"]
    by (auto simp: record_present_actual_def op_effect_def)
qed

lemma run_history_op_effect:
  "history_inv h \<Longrightarrow> \<exists>h'. run_history_op op h = Inr h' \<and> history_inv h' \<and> (\<forall>q. frame_of h' q = op_effect op h q)"
  using record_marker_effect record_gpu_effect record_actual_effect
  by (cases op) (simp_all add: run_history_op_def)

lemma run_history_inv: "history_inv h \<Longrightarrow> \<exists>h'. run_history ops h = Inr h' \<and> history_inv h'"
proof (induction ops arbitrary: h)
  case (Cons op ops)
  obtain h1 where "run_history_op op h = Inr h1" "history_inv h1"
    using run_history_op_effect [OF Cons.prems] by blast
  then show ?case using Cons.IH by simp
qed simp

lemma push_latencies_eq: "push_latencies fs out = out @ List.map_filter frame_latency fs"
  by (induction fs arbitrary: out) (auto simp: List.map_filter_simps split: option.split)

lemma first_latency_eq: "first_latency fs = (case List.map_filter frame_latency fs of [] \<Rightarrow> 0 | l # _ \<Rightarrow> l)"
  by (induction fs) (auto simp: List.map_filter_simps split: option.split)

lemma map_filter_rev: "List.map_filter g (rev xs) = rev (List.map_filter g xs)"
  by (simp add: List.map_filter_def rev_filter rev_map)

section \<open>Properties\<close>

text \<open>
  Whatever markers, GPU timings and present times arrive, in any order: no operation
  indexes outside the deque; the history keeps at most \<open>HISTORY_CAP\<close> frames, one per
  present id, and the sidecar map holds exactly their ids (also when the absolute frame
  numbers wrap around).
\<close>

theorem marker_history_well_formed:
  "\<exists>h. run_history ops history_new = Inr h \<and> length (frames h) \<le> HISTORY_CAP
     \<and> distinct (map fm_present_id (frames h)) \<and> dom (by_present_id h) = fm_present_id ` set (frames h)"
  using run_history_inv [OF history_new_inv] by (fastforce simp: history_inv_def)



text \<open>
  The Vulkan two-call protocol of \<open>vkGetLatencyTimingsNV\<close>: the first call, with a null
  buffer, answers the number of frames; a second call with a buffer of any size \<open>n\<close> answers
  \<open>min n\<close> of that number and writes that many reports, the newest frames first, leaving the
  rest of the buffer alone; with the first call's answer it writes the whole history.
\<close>

theorem fill_two_call_protocol:
  assumes "run_history ops history_new = Inr h" and "length buf = unat n"
  shows "let c = unat (timing_count (fill \<lparr>timing_count = 0, p_timings = None\<rparr> h));
             t = fill \<lparr>timing_count = n, p_timings = Some buf\<rparr> h in
      c = length (frames h) \<and> unat (timing_count t) = min (unat n) c
    \<and> p_timings t = Some (take (min (unat n) c) (map frame_report (rev (frames h))) @ drop (min (unat n) c) buf)
    \<and> (unat n = c \<longrightarrow> p_timings t = Some (map frame_report (rev (frames h))))"
proof -
  have len: "length (frames h) \<le> 128"
    using run_history_inv [OF history_new_inv, of ops] assms(1) by (auto simp: history_inv_def HISTORY_CAP_def)
  then have c: "unat (of_nat (length (frames h)) :: u32) = length (frames h)"
    and m: "unat (of_nat (min (unat n) (length (frames h))) :: u32) = min (unat n) (length (frames h))"
    by (simp_all add: unat_of_nat)
  show ?thesis
    using assms(2) by (simp add: fill_def c m take_map Let_def del: of_nat_min)
qed

theorem fill_two_call_protocol_witness:
  "\<exists>h. run_history [MarkerOp 5000 1 INPUT_SAMPLE, MarkerOp 6000 2 PRESENT_END] history_new = Inr h
     \<and> unat (timing_count (fill \<lparr>timing_count = 0, p_timings = None\<rparr> h)) = length (frames h)"
proof -
  obtain h where r: "run_history [MarkerOp 5000 1 INPUT_SAMPLE, MarkerOp 6000 2 PRESENT_END] history_new = Inr h"
    using run_history_inv [OF history_new_inv] by blast
  show ?thesis using fill_two_call_protocol [OF r, of "[]" 0] r by (simp add: Let_def)
qed

text \<open>
  The per-present telemetry value and the percentile samples agree: the latest latency
  is the last of the samples \<open>latencies_us\<close> appends (\<open>0\<close> when there is none), every sample
  comes from a frame with an input sample strictly before its end point, and the samples
  already in the caller's vector are kept.
\<close>

theorem latest_latency_is_last_sample:
  "\<exists>ls. latencies_us h out = out @ ls \<and> latest_latency_us h = (if ls = [] then 0 else last ls)
     \<and> (\<forall>l\<in>set ls. \<exists>f\<in>set (frames h). frame_latency f = Some l \<and> 0 < l \<and> input_sample_us f \<noteq> 0)"
proof -
  let ?ls = "List.map_filter frame_latency (frames h)"
  have "latest_latency_us h = (case rev ?ls of [] \<Rightarrow> 0 | l # _ \<Rightarrow> l)"
    by (simp add: latest_latency_us_def first_latency_eq map_filter_rev)
  also have "\<dots> = (if ?ls = [] then 0 else last ?ls)"
    by (cases ?ls rule: rev_cases) auto
  finally have "latest_latency_us h = (if ?ls = [] then 0 else last ?ls)" .
  moreover have "\<exists>f\<in>set (frames h). frame_latency f = Some l \<and> 0 < l \<and> input_sample_us f \<noteq> 0"
    if l: "l \<in> set ?ls" for l
  proof -
    obtain f where f: "f \<in> set (frames h)" "frame_latency f = Some l"
      using l by (auto simp: List.map_filter_def)
    then have "l = (if display_actual_us f \<noteq> 0 then display_actual_us f else present_end_us f) - input_sample_us f"
      "input_sample_us f < (if display_actual_us f \<noteq> 0 then display_actual_us f else present_end_us f)" "input_sample_us f \<noteq> 0"
      by (auto simp: frame_latency_def Let_def split: if_splits)
    then have "0 < l" "input_sample_us f \<noteq> 0" by (simp_all add: word_neq_0_conv [symmetric])
    then show ?thesis using f by blast
  qed
  ultimately show ?thesis by (auto simp: latencies_us_def push_latencies_eq)
qed

end
