(* ===== verification/Delay.thy ===== *)
theory Delay
  imports "HOL-Library.Signed_Division" F64
begin

text \<open>
  The pacing controller of \<open>src/delay_controller.rs\<close>: the spin wait, the minimum frame
  interval and the EWMA-driven drain of decoupled-simulation games. The monotonic clock is a
  sequence of readings; every \<open>DeviceClock::now()\<close> of the code consumes the next one, so
  waiting for a clock that never advances is a loop without an end (\<open>None\<close>).
\<close>

section \<open>Spin wait\<close>

partial_function (option) spin_until :: "(nat \<Rightarrow> u64) \<Rightarrow> u64 \<Rightarrow> nat \<Rightarrow> nat option" where
  "spin_until clk deadline_ns k =
     (if deadline_ns \<le> clk k then Some (Suc k) else spin_until clk deadline_ns (Suc k))"

section \<open>Controller\<close>

definition ALPHA :: rat where "ALPHA = f64_lit (1 / 100)"
definition DELTA_GAIN :: rat where "DELTA_GAIN = f64_lit 5"

record frame_info =
  frametime_ns :: i64
  jitter_ns :: i64
  release_ns :: u64

record delay_controller =
  simulation_decoupled :: bool
  previous_frame :: "frame_info option"
  gradient_ewma :: rat
  drain_ns :: i64

definition delay_controller_new :: "bool \<Rightarrow> delay_controller" where
  "delay_controller_new dec = \<lparr>simulation_decoupled = dec, previous_frame = None, gradient_ewma = 0, drain_ns = 0\<rparr>"

definition gradient_of :: "i64 \<Rightarrow> i64 \<Rightarrow> rat" where
  "gradient_of dt_frametime dt_jitter =
     (if dt_jitter = 0 then 0
      else f64_clamp (f64_div (f64_of_int dt_frametime) (f64_of_int dt_jitter)) (- 1) 1)"

definition ewma_step :: "rat \<Rightarrow> rat \<Rightarrow> rat" where
  "ewma_step gradient ewma = f64_add (f64_mul ALPHA gradient) (f64_mul (f64_sub 1 ALPHA) ewma)"

text \<open>The update on the \<open>down\<close> half of the cycle; \<open>clamp(0, frametime)\<close> panics when its bounds are crossed.\<close>

definition update_drain :: "i64 \<Rightarrow> frame_info \<Rightarrow> delay_controller \<Rightarrow> panic + delay_controller" where
  "update_drain ft prev c =
     (let dt_jitter = wrap_i64 (- jitter_ns prev);
          dt_frametime = wrap_i64 (ft - frametime_ns prev);
          e = ewma_step (gradient_of dt_frametime dt_jitter) (gradient_ewma c);
          delta = f64_as_i64 (f64_mul (f64_mul DELTA_GAIN (f64_sub (f64_lit (1 / 2)) e)) (f64_of_int (jitter_ns prev)))
      in if ft < 0 then Inl Panic
         else Inr (c\<lparr>gradient_ewma := e, drain_ns := max 0 (min ft (wrap_i64 (drain_ns c + delta)))\<rparr>))"

definition next_jitter :: "i64 \<Rightarrow> frame_info \<Rightarrow> i64" where
  "next_jitter ft prev = (if jitter_ns prev = 0 then ft sdiv 50 else 0)"

definition set_previous :: "i64 \<Rightarrow> i64 \<Rightarrow> u64 \<Rightarrow> delay_controller \<Rightarrow> delay_controller" where
  "set_previous ft jit release c = c\<lparr>previous_frame := Some \<lparr>frametime_ns = ft, jitter_ns = jit, release_ns = release\<rparr>\<rparr>"

text \<open>
  \<open>delay\<close>: the result is the controller and the index of the next clock reading; \<open>None\<close> when
  a wait never ends.
\<close>

definition delay ::
  "(nat \<Rightarrow> u64) \<Rightarrow> u64 \<Rightarrow> delay_controller \<Rightarrow> nat \<Rightarrow> (panic + delay_controller \<times> nat) option" where
  "delay clk min_delay_ns c k =
     (case previous_frame c of
        None \<Rightarrow> Some (Inr (set_previous 0 0 (clk k) c, Suc k))
      | Some prev \<Rightarrow>
          (let ft = u64_as_i64 (saturating_sub (clk k) (release_ns prev)) in
           case (if min_delay_ns \<noteq> 0 then spin_until clk (release_ns prev + min_delay_ns) (Suc k) else Some (Suc k)) of
             None \<Rightarrow> None
           | Some k1 \<Rightarrow>
               if \<not> simulation_decoupled c then Some (Inr (set_previous ft 0 (clk k1) c, Suc k1))
               else
                 (let jit = next_jitter ft prev in
                  case spin_until clk (clk k1 + i64_as_u64 (max (wrap_i64 (jit + drain_ns c)) 0)) (Suc k1) of
                    None \<Rightarrow> None
                  | Some k2 \<Rightarrow>
                      if jitter_ns prev = 0 then Some (Inr (set_previous ft jit (clk k2) c, Suc k2))
                      else
                        (case update_drain ft prev c of
                           Inl e \<Rightarrow> Some (Inl e)
                         | Inr c' \<Rightarrow> Some (Inr (set_previous ft jit (clk k2) c', Suc k2))))))"

section \<open>Termination of the wait\<close>

lemma spin_until_found:
  assumes "deadline \<le> clk (k + n)"
  shows "\<exists>k'. spin_until clk deadline k = Some k' \<and> k < k' \<and> k' \<le> Suc (k + n) \<and> deadline \<le> clk (k' - 1)
    \<and> (\<forall>j. k \<le> j \<and> j < k' - 1 \<longrightarrow> clk j < deadline)"
  using assms
proof (induction n arbitrary: k)
  case 0
  then show ?case by (subst spin_until.simps) auto
next
  case (Suc n)
  show ?case
  proof (cases "deadline \<le> clk k")
    case True
    then show ?thesis by (subst spin_until.simps) auto
  next
    case False
    obtain k' where k': "spin_until clk deadline (Suc k) = Some k'" "Suc k < k'" "k' \<le> Suc (Suc k + n)"
        "deadline \<le> clk (k' - 1)" "\<forall>j. Suc k \<le> j \<and> j < k' - 1 \<longrightarrow> clk j < deadline"
      using Suc.IH [of "Suc k"] Suc.prems by auto
    have "clk j < deadline" if "k \<le> j" "j < k' - 1" for j
      using that k'(5) False by (cases "j = k") auto
    then show ?thesis
      using k' False by (subst spin_until.simps) auto
  qed
qed

lemma spin_until_reached:
  assumes "spin_until clk deadline k = Some k'"
  shows "k < k' \<and> deadline \<le> clk (k' - 1)"
proof (rule spin_until.raw_induct [where P = "\<lambda>clk deadline k k'. k < k' \<and> deadline \<le> clk (k' - 1)", OF _ assms])
  fix f clk deadline k k'
  assume ih: "\<And>clk deadline k k'. f clk deadline k = Some k' \<Longrightarrow> k < k' \<and> deadline \<le> clk (k' - 1)"
    and eq: "(if deadline \<le> clk k then Some (Suc k) else f clk deadline (Suc k)) = Some k'"
  show "k < k' \<and> deadline \<le> clk (k' - 1)"
    using ih [of clk deadline "Suc k" k'] eq by (auto split: if_splits)
qed

text \<open>A clock that never shows the deadline keeps the thread spinning forever.\<close>

lemma spin_until_diverges: "\<forall>j\<ge>k. clk j < deadline \<Longrightarrow> spin_until clk deadline k = None"
proof (rule ccontr)
  assume less: "\<forall>j\<ge>k. clk j < deadline" and "spin_until clk deadline k \<noteq> None"
  then obtain k' where "spin_until clk deadline k = Some k'" by auto
  then have "k < k'" "deadline \<le> clk (k' - 1)" using spin_until_reached by auto
  then show False using less by (metis Suc_pred' less_Suc_eq_le linorder_not_less not_less_zero gr0I)
qed

section \<open>The gains in double arithmetic\<close>

lemma ALPHA_value: "ALPHA = 5764607523034235 / 2 ^ 59"
proof -
  have il: "ilog2 (1 / 100) = - 7" by (rule ilog2_unique) (simp_all add: power_int_minus)
  have q: "(1 / 100) / (2 :: rat) powi (- 59) = 144115188075855872 / 25" by (simp add: power_int_minus)
  have fl: "\<lfloor>144115188075855872 / 25 :: rat\<rfloor> = 5764607523034234" by (rule floor_unique) simp_all
  have "rne (144115188075855872 / 25) = 5764607523034235" by (simp add: rne_def fl Let_def)
  then show ?thesis
    by (simp add: ALPHA_def f64_lit_def f64_rnd_def ulp_exp_def il power_int_minus)
qed

lemma one_minus_ALPHA_value: "f64_sub 1 ALPHA = 8917127262193582 / 2 ^ 53"
proof -
  let ?y = "1 - 5764607523034235 / 2 ^ 59 :: rat"
  have il: "ilog2 ?y = - 1" by (rule ilog2_unique) (simp_all add: power_int_minus)
  have q: "?y / 2 powi (- 53) = 570696144780389253 / 64" by (simp add: power_int_minus)
  have fl: "\<lfloor>570696144780389253 / 64 :: rat\<rfloor> = 8917127262193582" by (rule floor_unique) simp_all
  have r: "rne (570696144780389253 / 64) = 8917127262193582" by (simp add: rne_def fl Let_def)
  have u: "ulp_exp ?y = - 53" unfolding ulp_exp_def il by simp
  have "f64_rnd ?y = 2 powi (- 53) * of_int (rne (?y / 2 powi (- 53)))"
    unfolding f64_rnd_def u by simp
  then show ?thesis unfolding q r ALPHA_value f64_sub_def by (simp add: power_int_minus)
qed

lemma gains_exact:
  "f64_rnd ALPHA = ALPHA" "f64_rnd (f64_sub 1 ALPHA) = f64_sub 1 ALPHA"
proof -
  show "f64_rnd ALPHA = ALPHA"
    by (rule f64_rnd_grid [of _ "- 59" 5764607523034235]) (simp_all add: ALPHA_value power_int_minus)
  show "f64_rnd (f64_sub 1 ALPHA) = f64_sub 1 ALPHA"
    by (rule f64_rnd_grid [of _ "- 53" 8917127262193582]) (simp_all add: one_minus_ALPHA_value power_int_minus)
qed

lemma gradient_bound: "\<bar>gradient_of a b\<bar> \<le> 1"
  by (simp add: gradient_of_def f64_clamp_def abs_le_iff)

text \<open>The weights sum to less than one, so rounding cannot push the average out of its range.\<close>

lemma ewma_bound:
  assumes "\<bar>g\<bar> \<le> 1" and "\<bar>e\<bar> \<le> 1"
  shows "\<bar>ewma_step g e\<bar> \<le> 1"
proof -
  have "0 \<le> f64_sub 1 ALPHA" unfolding one_minus_ALPHA_value by simp
  moreover have "0 \<le> ALPHA" by (simp add: ALPHA_value)
  ultimately have pos: "0 \<le> ALPHA" "0 \<le> f64_sub 1 ALPHA" by blast+
  have "\<bar>ALPHA * g\<bar> \<le> ALPHA" "\<bar>f64_sub 1 ALPHA * e\<bar> \<le> f64_sub 1 ALPHA"
    using assms pos by (simp_all add: abs_mult mult_left_le)
  then have "\<bar>f64_mul ALPHA g\<bar> \<le> ALPHA" "\<bar>f64_mul (f64_sub 1 ALPHA) e\<bar> \<le> f64_sub 1 ALPHA"
    using f64.rnd_abs_mono gains_exact by (metis f64_mul_def)+
  moreover have "ALPHA + f64_sub 1 ALPHA \<le> 1" unfolding one_minus_ALPHA_value by (simp add: ALPHA_value)
  ultimately have "\<bar>f64_mul ALPHA g + f64_mul (f64_sub 1 ALPHA) e\<bar> \<le> 1" by linarith
  then show ?thesis using f64.rnd_abs_mono [of _ 1] f64.rnd_1 by (metis ewma_step_def f64_add_def)
qed

section \<open>Sequences of frames\<close>

fun delays :: "(nat \<Rightarrow> u64) \<Rightarrow> u64 list \<Rightarrow> delay_controller \<Rightarrow> nat \<Rightarrow> (panic + delay_controller \<times> nat) option" where
  "delays clk [] c k = Some (Inr (c, k))"
| "delays clk (m # ms) c k =
     (case delay clk m c k of
        None \<Rightarrow> None
      | Some (Inl e) \<Rightarrow> Some (Inl e)
      | Some (Inr (c', k')) \<Rightarrow> delays clk ms c' k')"

definition controller_inv :: "delay_controller \<Rightarrow> bool" where
  "controller_inv c \<longleftrightarrow> \<bar>gradient_ewma c\<bar> \<le> 1 \<and> 0 \<le> drain_ns c \<and> drain_ns c \<le> i64_max
     \<and> (\<not> simulation_decoupled c \<longrightarrow> drain_ns c = 0 \<and> gradient_ewma c = 0)
     \<and> (case previous_frame c of None \<Rightarrow> True
        | Some p \<Rightarrow> 0 \<le> frametime_ns p \<and> frametime_ns p \<le> i64_max \<and> 0 \<le> jitter_ns p \<and> jitter_ns p \<le> frametime_ns p)"

lemma delay_controller_new_inv: "controller_inv (delay_controller_new dec)"
  by (simp add: controller_inv_def delay_controller_new_def i64_max_def)

lemma frametime_range:
  assumes "uint (now :: u64) < 2 ^ 63"
  shows "0 \<le> u64_as_i64 (saturating_sub now r)" "u64_as_i64 (saturating_sub now r) \<le> i64_max"
proof -
  have "uint now - uint r < 2 ^ 63" using assms uint_ge_0 [of r] by linarith
  then have "uint (saturating_sub now r) < 2 ^ 63" by (simp add: uint_saturating_sub)
  then show "0 \<le> u64_as_i64 (saturating_sub now r)" "u64_as_i64 (saturating_sub now r) \<le> i64_max"
    by (simp_all add: u64_as_i64_small i64_max_def)
qed

lemma next_jitter_range: "0 \<le> ft \<Longrightarrow> 0 \<le> next_jitter ft p \<and> next_jitter ft p \<le> ft"
  by (simp add: next_jitter_def signed_divide_int_def sgn_if) presburger

lemma update_drain_props:
  assumes "controller_inv c" and "0 \<le> ft" and "ft \<le> i64_max" and "simulation_decoupled c"
  obtains c' where "update_drain ft p c = Inr c'" "\<bar>gradient_ewma c'\<bar> \<le> 1" "0 \<le> drain_ns c'" "drain_ns c' \<le> ft"
    "simulation_decoupled c'" "previous_frame c' = previous_frame c"
proof -
  let ?e = "ewma_step (gradient_of (wrap_i64 (ft - frametime_ns p)) (wrap_i64 (- jitter_ns p))) (gradient_ewma c)"
  have "\<bar>?e\<bar> \<le> 1" using assms(1) by (intro ewma_bound gradient_bound) (simp add: controller_inv_def)
  then show ?thesis
    using that assms(2,4) by (simp add: update_drain_def Let_def linorder_not_less)
qed

lemma delay_inv:
  assumes inv: "controller_inv c" and clk: "\<forall>j. uint (clk j) < 2 ^ 63" and d: "delay clk m c k = Some r"
  shows "\<exists>c' k' p. r = Inr (c', k') \<and> controller_inv c' \<and> previous_frame c' = Some p
    \<and> simulation_decoupled c' = simulation_decoupled c
    \<and> (drain_ns c' = drain_ns c \<or> drain_ns c' \<le> frametime_ns p)"
proof (cases "previous_frame c")
  case None
  then show ?thesis
    using d inv by (auto simp: delay_def set_previous_def controller_inv_def i64_max_def)
next
  case (Some p)
  define ft where "ft = u64_as_i64 (saturating_sub (clk k) (release_ns p))"
  have ft: "0 \<le> ft" "ft \<le> i64_max" unfolding ft_def using clk frametime_range by blast+
  note jit = next_jitter_range [OF ft(1), of p]
  have keep: "controller_inv (set_previous ft j rel c)" if "0 \<le> j" "j \<le> ft" for j rel
    using inv ft that by (simp add: set_previous_def controller_inv_def)
  obtain k1 where k1: "(if m \<noteq> 0 then spin_until clk (release_ns p + m) (Suc k) else Some (Suc k)) = Some k1"
    using d Some by (auto simp: delay_def Let_def split: option.splits if_splits)
  show ?thesis
  proof (cases "simulation_decoupled c")
    case False
    then have "r = Inr (set_previous ft 0 (clk k1) c, Suc k1)"
      using d Some k1 by (simp add: delay_def Let_def ft_def del: if_split_asm split: option.splits)
    then show ?thesis using keep [of 0 "clk k1"] ft by (simp add: set_previous_def)
  next
    case dec: True
    let ?j = "next_jitter ft p"
    obtain k2 where k2: "spin_until clk (clk k1 + i64_as_u64 (max (wrap_i64 (?j + drain_ns c)) 0)) (Suc k1) = Some k2"
      using d Some k1 dec by (cases "m = 0") (auto simp: delay_def Let_def ft_def split: option.splits)
    have r: "r = (if jitter_ns p = 0 then Inr (set_previous ft ?j (clk k2) c, Suc k2)
        else (case update_drain ft p c of Inl e \<Rightarrow> Inl e | Inr c' \<Rightarrow> Inr (set_previous ft ?j (clk k2) c', Suc k2)))"
      using d Some k1 k2 dec
      by (cases "m = 0") (auto simp: delay_def Let_def ft_def [symmetric] split: sum.splits)
    show ?thesis
    proof (cases "jitter_ns p = 0")
      case True
      then show ?thesis using keep [of ?j "clk k2"] jit r dec by (simp add: set_previous_def)
    next
      case False
      obtain c' where c': "update_drain ft p c = Inr c'" "\<bar>gradient_ewma c'\<bar> \<le> 1" "0 \<le> drain_ns c'"
          "drain_ns c' \<le> ft" "simulation_decoupled c'"
        using update_drain_props [OF inv ft dec] by metis
      then have "controller_inv (set_previous ft ?j (clk k2) c')"
        using ft jit by (simp add: controller_inv_def set_previous_def)
      then show ?thesis using False r c' dec by (simp add: set_previous_def)
    qed
  qed
qed

lemma delays_inv:
  assumes "\<forall>j. uint (clk j) < 2 ^ 63"
  shows "controller_inv c \<Longrightarrow> delays clk ms c k = Some r \<Longrightarrow>
    \<exists>c' k'. r = Inr (c', k') \<and> controller_inv c' \<and> simulation_decoupled c' = simulation_decoupled c"
proof (induction ms arbitrary: c k)
  case (Cons m ms)
  obtain x where x: "delay clk m c k = Some x" using Cons.prems(2) by (auto split: option.splits)
  obtain c1 k1 where c1: "x = Inr (c1, k1)" "controller_inv c1" "simulation_decoupled c1 = simulation_decoupled c"
    using delay_inv [OF Cons.prems(1) assms x] by blast
  then show ?case using Cons.IH [OF c1(2), of k1] Cons.prems(2) x by simp
qed auto

text \<open>With a clock that eventually passes every value the call returns.\<close>

lemma spin_until_iff: "spin_until clk d n = None \<longleftrightarrow> (\<forall>j\<ge>n. clk j < d)"
proof
  assume none: "spin_until clk d n = None"
  show "\<forall>j\<ge>n. clk j < d"
  proof (intro allI impI, rule ccontr)
    fix j assume "n \<le> j" "\<not> clk j < d"
    then have "d \<le> clk (n + (j - n))" by simp
    then show False using spin_until_found none by fastforce
  qed
qed (rule spin_until_diverges)

lemma delay_total:
  assumes "\<forall>d n. \<exists>j\<ge>n. d \<le> clk j"
  shows "\<exists>r. delay clk m c k = Some r"
proof -
  have "spin_until clk d n \<noteq> None" for d n
    using assms spin_until_iff [of clk d n] by (meson linorder_not_less)
  then have ex: "\<exists>n'. spin_until clk d n = Some n'" for d n by blast
  show ?thesis
  proof (cases "previous_frame c")
    case (Some p)
    obtain k1 where "(if m \<noteq> 0 then spin_until clk (release_ns p + m) (Suc k) else Some (Suc k)) = Some k1"
      using ex by (cases "m = 0") auto
    moreover obtain k2 where "spin_until clk (clk k1 + i64_as_u64 (max (wrap_i64
        (next_jitter (u64_as_i64 (saturating_sub (clk k) (release_ns p))) p + drain_ns c)) 0)) (Suc k1) = Some k2"
      using ex by blast
    ultimately show ?thesis
      using Some by (cases "m = 0") (simp_all add: delay_def Let_def split: sum.split)
  qed (simp add: delay_def)
qed

text \<open>A coupled game never reaches the clamp.\<close>

lemma delay_coupled_ok: "\<not> simulation_decoupled c \<Longrightarrow> delay clk m c k = Some r \<Longrightarrow> \<exists>x. r = Inr x"
  by (auto simp: delay_def Let_def split: option.splits if_splits)

section \<open>Properties\<close>



text \<open>
  C25. Pacing: with a monotone clock, a call that has a previous frame releases the new one
  no earlier than \<open>min_delay\<close> after it (when the sum fits in 64 bits), and in decoupled mode
  additionally no earlier than the jitter and drain it decided to add; the interval it
  reports as frametime is measured before any of that waiting.
\<close>

theorem delay_paces_frames:
  assumes mono: "\<forall>i j. i \<le> j \<longrightarrow> clk i \<le> clk j" and prev: "previous_frame c = Some p"
    and d: "delay clk m c k = Some (Inr (c', k'))" and fits: "uint (release_ns p) + uint m < 2 ^ 64"
  shows "\<exists>p'. previous_frame c' = Some p' \<and> release_ns p' = clk (k' - 1)
    \<and> (m \<noteq> 0 \<longrightarrow> uint (release_ns p) + uint m \<le> uint (release_ns p'))
    \<and> frametime_ns p' = u64_as_i64 (saturating_sub (clk k) (release_ns p))
    \<and> (simulation_decoupled c \<longrightarrow> (\<exists>j. k < j \<and> j < k' \<and> clk j + i64_as_u64 (max (wrap_i64 (next_jitter (frametime_ns p') p + drain_ns c)) 0) \<le> release_ns p'))"
proof -
  define ft where "ft = u64_as_i64 (saturating_sub (clk k) (release_ns p))"
  obtain k1 where k1: "(if m \<noteq> 0 then spin_until clk (release_ns p + m) (Suc k) else Some (Suc k)) = Some k1"
    using d prev by (auto simp: delay_def Let_def split: option.splits if_splits)
  have paced: "uint (release_ns p) + uint m \<le> uint (clk i)" if "m \<noteq> 0" "k1 \<le> i" for i
  proof -
    have "release_ns p + m \<le> clk (k1 - 1)" using k1 that(1) spin_until_reached by auto
    also have "\<dots> \<le> clk i" using mono that(2) by auto
    finally show ?thesis using uint_add_small [OF fits] by (simp add: word_le_def)
  qed
  have k1k: "k < k1" using k1 spin_until_reached [of clk "release_ns p + m" "Suc k" k1] by (auto split: if_splits)
  show ?thesis
  proof (cases "simulation_decoupled c")
    case False
    then have "c' = set_previous ft 0 (clk k1) c" "k' = Suc k1"
      using d prev k1 by (simp_all add: delay_def Let_def ft_def del: if_split_asm split: option.splits)
    then show ?thesis using paced [of k1] False by (simp add: set_previous_def ft_def)
  next
    case dec: True
    let ?w = "i64_as_u64 (max (wrap_i64 (next_jitter ft p + drain_ns c)) 0)"
    obtain k2 where k2: "spin_until clk (clk k1 + ?w) (Suc k1) = Some k2"
      using d prev k1 dec by (cases "m = 0") (auto simp: delay_def Let_def ft_def split: option.splits)
    have reached: "Suc k1 < k2" "clk k1 + ?w \<le> clk (k2 - 1)" using spin_until_reached [OF k2] by auto
    have "clk (k2 - 1) \<le> clk k2" using mono by simp
    then have wait: "clk k1 + ?w \<le> clk k2" using reached(2) by (rule order.trans [rotated])
    obtain j c2 where c': "c' = set_previous ft j (clk k2) c2" "k' = Suc k2"
      using d prev k1 k2 dec
      by (cases "m = 0"; cases "jitter_ns p = 0")
        (auto simp: delay_def Let_def ft_def [symmetric] split: sum.splits)
    have "k1 \<le> k2" using reached(1) by simp
    then show ?thesis using paced [of k2] wait k1k reached(1)
      by (auto simp: c' set_previous_def ft_def [symmetric] intro!: exI [of _ k1])
  qed
qed

theorem delay_paces_frames_witness:
  "\<exists>p'. delay (\<lambda>_. 9) 3 (set_previous 0 0 2 (delay_controller_new False)) 4
      = Some (Inr (set_previous 7 0 9 (delay_controller_new False), 7))
    \<and> previous_frame (set_previous 7 0 9 (delay_controller_new False)) = Some p' \<and> 5 \<le> uint (release_ns p')"
proof -
  have w: "spin_until (\<lambda>_. 9) 5 5 = Some 6" by (subst spin_until.simps) simp
  have d: "delay (\<lambda>_. 9) 3 (set_previous 0 0 2 (delay_controller_new False)) 4
      = Some (Inr (set_previous 7 0 9 (delay_controller_new False), 7))"
    by (simp add: delay_def set_previous_def delay_controller_new_def w saturating_sub_def u64_as_i64_def wrap_i64_def)
  show ?thesis
    using delay_paces_frames [OF _ _ d, of "\<lparr>frametime_ns = 0, jitter_ns = 0, release_ns = 2\<rparr>"] d
    by (auto simp: set_previous_def)
qed

text \<open>
  When the call returns: for a coupled game it hangs exactly when there is a minimum
  delay to wait for and no later clock reading reaches its end; with a clock that
  eventually passes every value it always returns, in both modes.
\<close>

theorem delay_returns:
  "(\<not> simulation_decoupled c \<longrightarrow>
      (delay clk m c k = None \<longleftrightarrow>
        (\<exists>p. previous_frame c = Some p \<and> m \<noteq> 0 \<and> (\<forall>j>k. clk j < release_ns p + m))))
   \<and> ((\<forall>d n. \<exists>j\<ge>n. d \<le> clk j) \<longrightarrow> delay clk m c k \<noteq> None)"
proof (intro conjI impI)
  show "delay clk m c k = None \<longleftrightarrow>
        (\<exists>p. previous_frame c = Some p \<and> m \<noteq> 0 \<and> (\<forall>j>k. clk j < release_ns p + m))"
    if "\<not> simulation_decoupled c"
  proof (cases "previous_frame c")
    case (Some p)
    show ?thesis
      using Some that spin_until_iff [of clk "release_ns p + m" "Suc k"]
      by (cases "spin_until clk (release_ns p + m) (Suc k)"; cases "m = 0")
        (simp_all add: delay_def Let_def Suc_le_eq)
  qed (simp add: delay_def)
  assume "\<forall>d n. \<exists>j\<ge>n. d \<le> clk j"
  then show "delay clk m c k \<noteq> None" using delay_total by fastforce
qed

theorem delay_returns_witness:
  "delay (\<lambda>_. 4) 3 (set_previous 0 0 2 (delay_controller_new False)) 0 = None
   \<and> delay (\<lambda>_. - 1) 3 (set_previous 0 0 2 (delay_controller_new True)) 0 \<noteq> None"
  using delay_returns [of "set_previous 0 0 2 (delay_controller_new False)" "\<lambda>_. 4" 3 0]
    delay_returns [of "set_previous 0 0 2 (delay_controller_new True)" "\<lambda>_. - 1" 3 0]
  by (auto simp: set_previous_def delay_controller_new_def)

end
