(* ===== verification/Span.thy ===== *)
theory Span
  imports Prelude
begin

text \<open>
  The submission span of one frame (\<open>src/submission_span.rs\<close>): first and last timestamp
  handle, the probes and reads over them, and the bounded wait for the last one. The reads
  of a handle are parameters here; the timestamp pool provides them.
\<close>

section \<open>Spans\<close>

record 'h submission_span =
  span_head :: 'h
  span_tail :: "'h option"

definition span_new :: "'h \<Rightarrow> 'h submission_span" where
  "span_new h = \<lparr>span_head = h, span_tail = None\<rparr>"

definition span_extend :: "'h \<Rightarrow> 'h submission_span \<Rightarrow> 'h submission_span" where
  "span_extend h s = s\<lparr>span_tail := Some h\<rparr>"

definition span_last :: "'h submission_span \<Rightarrow> 'h" where
  "span_last s = (case span_tail s of Some h \<Rightarrow> h | None \<Rightarrow> span_head s)"

definition has_completed :: "('h \<Rightarrow> bool) \<Rightarrow> 'h submission_span \<Rightarrow> bool" where
  "has_completed has_end s = has_end (span_last s)"

definition completion_times_ns ::
  "('h \<Rightarrow> u64 option) \<Rightarrow> ('h \<Rightarrow> u64 option) \<Rightarrow> 'h submission_span \<Rightarrow> (u64 \<times> u64) option" where
  "completion_times_ns start_ns end_ns s =
     (case start_ns (span_head s) of
        None \<Rightarrow> None
      | Some a \<Rightarrow> (case end_ns (span_last s) of None \<Rightarrow> None | Some b \<Rightarrow> Some (a, b)))"

text \<open>
  \<open>await_completed\<close> reads the end of the last handle and drops the answer: the read waits in the
  driver for as long as the GPU takes. \<open>None\<close> is a read, and a call, that never returns.
\<close>

definition await_completed :: "('h \<Rightarrow> u64 option option) \<Rightarrow> 'h submission_span \<Rightarrow> unit option" where
  "await_completed end_ns s = map_option (\<lambda>_. ()) (end_ns (span_last s))"

text \<open>What a queue strategy makes of the handles of one frame, in submission order.\<close>

definition extend_or_init :: "'h \<Rightarrow> 'h submission_span option \<Rightarrow> 'h submission_span option" where
  "extend_or_init h slot = (case slot of Some s \<Rightarrow> Some (span_extend h s) | None \<Rightarrow> Some (span_new h))"

definition span_of :: "'h list \<Rightarrow> 'h submission_span option" where
  "span_of hs = fold extend_or_init hs None"

lemma span_of_snoc: "span_of (hs @ [h]) = extend_or_init h (span_of hs)"
  by (simp add: span_of_def)

lemma span_of_Nil [simp]: "span_of [] = None"
  by (simp add: span_of_def)

lemma span_of_Cons:
  "span_of (h # hs) = Some \<lparr>span_head = h, span_tail = (if hs = [] then None else Some (last hs))\<rparr>"
proof (induction hs rule: rev_induct)
  case Nil
  then show ?case by (simp add: span_of_def extend_or_init_def span_new_def)
next
  case (snoc x xs)
  then show ?case
    using span_of_snoc [of "h # xs" x] by (simp add: extend_or_init_def span_extend_def)
qed

section \<open>The interface of a queue strategy\<close>

text \<open>
  What the present and input handlers rely on: a take hands over exactly the handles
  submitted under that key since the last take, as long as the tracker has room.
\<close>

locale submission_tracker =
  fixes submit :: "'k \<Rightarrow> 'h \<Rightarrow> 's \<Rightarrow> 's"
    and take_span :: "'k \<Rightarrow> 's \<Rightarrow> 'h submission_span option \<times> 's"
    and fits :: "nat \<Rightarrow> 's \<Rightarrow> bool"
  assumes submit_same: "fits (Suc n) s \<Longrightarrow> fst (take_span k (submit k h s)) = extend_or_init h (fst (take_span k s))"
    and submit_other: "fits (Suc n) s \<Longrightarrow> k' \<noteq> k \<Longrightarrow> fst (take_span k' (submit k h s)) = fst (take_span k' s)"
    and submit_fits: "fits (Suc n) s \<Longrightarrow> fits n (submit k h s)"
    and take_same: "fst (take_span k (snd (take_span k s))) = None"
begin

lemma take_submits:
  "fits (length subs) s \<Longrightarrow>
     fst (take_span k (fold (\<lambda>(k, h). submit k h) subs s))
     = fold extend_or_init (map snd (filter (\<lambda>(k', h). k' = k) subs)) (fst (take_span k s))"
proof (induction subs arbitrary: s)
  case (Cons x subs)
  obtain k' h where x: "x = (k', h)" by (cases x)
  have f: "fits (Suc (length subs)) s" using Cons.prems by simp
  show ?case
    using Cons.IH [OF submit_fits [OF f, of k' h]] submit_same [OF f, of k' h] submit_other [OF f, of k k' h]
    by (cases "k' = k") (simp_all add: x)
qed simp

lemma take_since_last_take:
  "fits (length hs) (snd (take_span k s)) \<Longrightarrow>
     fst (take_span k (fold (submit k) hs (snd (take_span k s)))) = span_of hs"
proof -
  assume f: "fits (length hs) (snd (take_span k s))"
  have e: "fold (\<lambda>(k, h). submit k h) (map (Pair k) hs) t = fold (submit k) hs t" for t
    by (induction hs arbitrary: t) auto
  have m: "map snd (filter (\<lambda>(k', h). k' = k) (map (Pair k) hs)) = hs"
    by (induction hs) auto
  show ?thesis
    using take_submits [of "map (Pair k) hs" "snd (take_span k s)" k] f e m take_same
    by (simp add: span_of_def)
qed

end

section \<open>The bounded wait\<close>

datatype wait_action = SpinLoop | YieldNow | SleepNs u64

definition SPIN_ITERS :: nat where "SPIN_ITERS = 32"
definition YIELD_ITERS :: nat where "YIELD_ITERS = 8"

definition backoff :: "nat \<Rightarrow> u64 \<Rightarrow> u64 \<Rightarrow> wait_action" where
  "backoff iters deadline now =
     (if iters < SPIN_ITERS then SpinLoop
      else if iters < SPIN_ITERS + YIELD_ITERS then YieldNow
      else SleepNs (min (deadline - now) 100000))"

text \<open>
  \<open>await_completed_until\<close>: \<open>fin k\<close> and \<open>clk k\<close> are the probe and the clock reading of the
  \<open>k\<close>-th round; the 32-bit round counter saturates. \<open>None\<close> is a loop that never ends.
\<close>

partial_function (option) await_completed_until ::
  "(nat \<Rightarrow> bool) \<Rightarrow> (nat \<Rightarrow> u64) \<Rightarrow> u64 \<Rightarrow> nat \<Rightarrow> (bool \<times> wait_action list) option" where
  "await_completed_until fin clk deadline k =
     (if fin k then Some (True, [])
      else if deadline \<le> clk k then Some (False, [])
      else Option.bind (await_completed_until fin clk deadline (Suc k))
        (\<lambda>r. Some (fst r, backoff (min k (2 ^ 32 - 1)) deadline (clk k) # snd r)))"

lemma await_until_rounds:
  assumes "deadline \<le> clk (k + n)"
  shows "\<exists>r acts. await_completed_until fin clk deadline k = Some (r, acts) \<and> length acts \<le> n
    \<and> (r \<longleftrightarrow> fin (k + length acts)) \<and> (\<not> r \<longrightarrow> deadline \<le> clk (k + length acts))
    \<and> (\<forall>i<length acts. \<not> fin (k + i) \<and> clk (k + i) < deadline
         \<and> acts ! i = backoff (min (k + i) (2 ^ 32 - 1)) deadline (clk (k + i)))"
  using assms
proof (induction n arbitrary: k)
  case 0
  then show ?case by (subst await_completed_until.simps) auto
next
  case (Suc n)
  show ?case
  proof (cases "fin k \<or> deadline \<le> clk k")
    case True
    then show ?thesis by (subst await_completed_until.simps) auto
  next
    case False
    obtain r acts where IH: "await_completed_until fin clk deadline (Suc k) = Some (r, acts)" "length acts \<le> n"
        "r \<longleftrightarrow> fin (Suc k + length acts)" "\<not> r \<longrightarrow> deadline \<le> clk (Suc k + length acts)"
        "\<forall>i<length acts. \<not> fin (Suc k + i) \<and> clk (Suc k + i) < deadline
           \<and> acts ! i = backoff (min (Suc k + i) (2 ^ 32 - 1)) deadline (clk (Suc k + i))"
      using Suc.IH [of "Suc k"] Suc.prems by (auto simp del: power_numeral)
    have nk: "\<not> fin k" "clk k < deadline" using False by auto
    let ?acts = "backoff (min k (2 ^ 32 - 1)) deadline (clk k) # acts"
    have "await_completed_until fin clk deadline k = Some (r, ?acts)"
      using False IH(1) by (subst await_completed_until.simps) simp
    moreover have "\<not> fin (k + i) \<and> clk (k + i) < deadline
         \<and> ?acts ! i = backoff (min (k + i) (2 ^ 32 - 1)) deadline (clk (k + i))" if "i < length ?acts" for i
      using that nk IH(5) by (cases i) (simp_all del: power_numeral)
    ultimately show ?thesis using IH(2-4) by (intro exI [of _ r] exI [of _ ?acts]) (simp del: power_numeral)
  qed
qed

text \<open>
  A wait with a deadline ends: if the clock shows the deadline in round \<open>n\<close> at the
  latest, the call returns after at most \<open>n\<close> rounds; it answers \<open>true\<close> exactly when the probe
  of the last round succeeded, answers \<open>false\<close> only at or after the deadline, and no sleep in
  between is longer than 100 microseconds or reaches beyond the deadline.
\<close>

theorem await_completed_until_bounded:
  assumes "deadline \<le> clk n"
  shows "\<exists>r acts. await_completed_until fin clk deadline 0 = Some (r, acts) \<and> length acts \<le> n
    \<and> (r \<longleftrightarrow> fin (length acts)) \<and> (\<not> r \<longrightarrow> deadline \<le> clk (length acts))
    \<and> (\<forall>i<length acts. \<forall>s. acts ! i = SleepNs s \<longrightarrow>
         uint s \<le> 100000 \<and> uint (clk i) + uint s \<le> uint deadline)"
proof -
  obtain r acts where a: "await_completed_until fin clk deadline 0 = Some (r, acts)" "length acts \<le> n"
      "r \<longleftrightarrow> fin (length acts)" "\<not> r \<longrightarrow> deadline \<le> clk (length acts)"
      "\<forall>i<length acts. clk i < deadline \<and> acts ! i = backoff (min i (2 ^ 32 - 1)) deadline (clk i)"
    using await_until_rounds [of deadline clk 0 n fin] assms by (auto simp del: power_numeral)
  have "uint s \<le> 100000 \<and> uint (clk i) + uint s \<le> uint deadline"
    if i: "i < length acts" and s: "acts ! i = SleepNs s" for i s
  proof -
    have lt: "clk i < deadline" and "s = min (deadline - clk i) 100000"
      using a(5) i s by (auto simp: backoff_def split: if_splits)
    then have "s \<le> 100000" "s \<le> deadline - clk i" by simp_all
    moreover have "uint (deadline - clk i) = uint deadline - uint (clk i)"
      using lt by (simp add: uint_sub_le)
    ultimately show ?thesis by (simp add: word_le_def)
  qed
  then show ?thesis using a by blast
qed

theorem await_completed_until_bounded_witness:
  "\<exists>r acts. await_completed_until (\<lambda>_. False) (\<lambda>n. if n < 50 then 0 else 9) 9 0 = Some (r, acts)
     \<and> \<not> r \<and> length acts \<le> 50"
  using await_completed_until_bounded [of 9 "\<lambda>n. if n < 50 then 0 else 9" 50 "\<lambda>_. False"] by auto

end
