(* ===== verification/LowLatency2.thy ===== *)
theory LowLatency2
  imports Span
begin

text \<open>
  The queue side of the NV low-latency strategy (\<open>LowLatency2QueueStrategy\<close> of
  \<open>src/strategy/low_latency2/mod.rs\<close>): submissions grouped by present id with a list of
  present ids that bounds the map, and the timeline-semaphore signaller of
  \<open>semaphore_signal.rs\<close>.
\<close>

section \<open>Queue strategy\<close>

definition MAX_TRACKED_PRESENTS :: nat where "MAX_TRACKED_PRESENTS = 50"

record 'h ll2_queue =
  submissions :: "u64 \<rightharpoonup> 'h submission_span"
  stale_present_ids :: "u64 list"
  is_out_of_band :: bool

definition ll2_queue_new :: "'h ll2_queue" where
  "ll2_queue_new = \<lparr>submissions = Map.empty, stale_present_ids = [], is_out_of_band = False\<rparr>"

definition mark_out_of_band :: "'h ll2_queue \<Rightarrow> 'h ll2_queue" where
  "mark_out_of_band q = q\<lparr>is_out_of_band := True\<rparr>"

definition take_by_present_id :: "u64 \<Rightarrow> 'h ll2_queue \<Rightarrow> 'h submission_span option \<times> 'h ll2_queue" where
  "take_by_present_id pid q = (submissions q pid, q\<lparr>submissions := (submissions q)(pid := None)\<rparr>)"

text \<open>\<open>present_id\<close> is the id found in the pNext chain of the submission, if any.\<close>

definition ll2_notify_submit :: "u64 option \<Rightarrow> 'h \<Rightarrow> 'h ll2_queue \<Rightarrow> 'h ll2_queue" where
  "ll2_notify_submit present_id h q =
     (let pid = (case present_id of Some p \<Rightarrow> p | None \<Rightarrow> 0);
          subs = (submissions q)(pid := extend_or_init h (submissions q pid))
      in if pid = 0 then q\<lparr>submissions := subs\<rparr>
         else
           (let stale = stale_present_ids q @ [pid] in
            if length stale > MAX_TRACKED_PRESENTS then
              (case stale of
                 [] \<Rightarrow> q\<lparr>submissions := subs, stale_present_ids := stale\<rparr>
               | old # rest \<Rightarrow> q\<lparr>submissions := subs(old := None), stale_present_ids := rest\<rparr>)
            else q\<lparr>submissions := subs, stale_present_ids := stale\<rparr>))"

abbreviation ll2_submit :: "u64 \<Rightarrow> 'h \<Rightarrow> 'h ll2_queue \<Rightarrow> 'h ll2_queue" where
  "ll2_submit pid h q \<equiv> ll2_notify_submit (Some pid) h q"

definition ll2_room :: "nat \<Rightarrow> 'h ll2_queue \<Rightarrow> bool" where
  "ll2_room n q \<longleftrightarrow> length (stale_present_ids q) + n \<le> MAX_TRACKED_PRESENTS"

interpretation ll2: submission_tracker ll2_submit take_by_present_id ll2_room
proof unfold_locales
  fix n k k' and h :: 'h and s :: "'h ll2_queue"
  show "ll2_room (Suc n) s \<Longrightarrow>
      fst (take_by_present_id k (ll2_submit k h s)) = extend_or_init h (fst (take_by_present_id k s))"
    by (simp add: ll2_room_def ll2_notify_submit_def take_by_present_id_def Let_def)
  show "ll2_room (Suc n) s \<Longrightarrow> k' \<noteq> k \<Longrightarrow>
      fst (take_by_present_id k' (ll2_submit k h s)) = fst (take_by_present_id k' s)"
    by (auto simp: ll2_room_def ll2_notify_submit_def take_by_present_id_def Let_def)
  show "ll2_room (Suc n) s \<Longrightarrow> ll2_room n (ll2_submit k h s)"
    by (simp add: ll2_room_def ll2_notify_submit_def Let_def)
  show "fst (take_by_present_id k (snd (take_by_present_id k s))) = None"
    by (simp add: take_by_present_id_def)
qed

text \<open>Only present ids on the stale list, and 0, can have a span.\<close>

definition ll2_inv :: "'h ll2_queue \<Rightarrow> bool" where
  "ll2_inv q \<longleftrightarrow> length (stale_present_ids q) \<le> MAX_TRACKED_PRESENTS
     \<and> dom (submissions q) \<subseteq> insert 0 (set (stale_present_ids q))"

lemma ll2_new_inv: "ll2_inv ll2_queue_new"
  by (simp add: ll2_inv_def ll2_queue_new_def)

lemma ll2_take_inv: "ll2_inv q \<Longrightarrow> ll2_inv (snd (take_by_present_id pid q))"
  by (auto simp: ll2_inv_def take_by_present_id_def split: if_splits)

lemma ll2_submit_inv:
  assumes "ll2_inv q"
  shows "ll2_inv (ll2_notify_submit p h q)"
proof -
  define pid where "pid = (case p of Some p \<Rightarrow> p | None \<Rightarrow> 0)"
  let ?subs = "(submissions q)(pid := extend_or_init h (submissions q pid))"
  have dom: "dom ?subs \<subseteq> insert pid (insert 0 (set (stale_present_ids q)))"
    using assms by (auto simp: ll2_inv_def split: if_splits)
  show ?thesis
  proof (cases "pid = 0 \<or> length (stale_present_ids q) < MAX_TRACKED_PRESENTS")
    case True
    then show ?thesis
      using assms dom by (auto simp: ll2_inv_def ll2_notify_submit_def pid_def [symmetric] Let_def)
  next
    case False
    then obtain old rest where s: "stale_present_ids q = old # rest"
      using assms by (cases "stale_present_ids q") (auto simp: ll2_inv_def MAX_TRACKED_PRESENTS_def)
    have n: "ll2_notify_submit p h q = q\<lparr>submissions := ?subs(old := None), stale_present_ids := rest @ [pid]\<rparr>"
      using False s by (simp add: ll2_notify_submit_def pid_def [symmetric] Let_def)
    have "dom (?subs(old := None)) \<subseteq> insert 0 (set (rest @ [pid]))"
      using dom s by (auto simp del: fun_upd_apply simp: dom_def) (auto split: if_splits)
    then show ?thesis using assms s False by (simp add: ll2_inv_def n)
  qed
qed

section \<open>Semaphore signals\<close>

record semaphore_signal =
  sig_semaphore :: nat
  sig_value :: u64

text \<open>
  The timeline semaphores of the device: whether both entry points are loaded, the result of
  reading a counter, the counters, and the \<open>vkSignalSemaphore\<close> calls made so far.
\<close>

record semaphores =
  entrypoints_loaded :: bool
  read_result :: "nat \<Rightarrow> vk_result"
  counter_value :: "nat \<Rightarrow> u64"
  signal_calls :: "(nat \<times> u64) list"

definition signal_semaphore :: "semaphore_signal \<Rightarrow> semaphores \<Rightarrow> semaphores" where
  "signal_semaphore sg d =
     (if \<not> entrypoints_loaded d then d
      else if read_result d (sig_semaphore sg) \<noteq> SUCCESS \<or> sig_value sg \<le> counter_value d (sig_semaphore sg) then d
      else d\<lparr>counter_value := (counter_value d)(sig_semaphore sg := sig_value sg),
             signal_calls := signal_calls d @ [(sig_semaphore sg, sig_value sg)]\<rparr>)"

definition calls_of :: "nat \<Rightarrow> semaphores \<Rightarrow> u64 list" where
  "calls_of sem d = map snd (filter (\<lambda>(s, v). s = sem) (signal_calls d))"

definition healthy :: "semaphores \<Rightarrow> bool" where
  "healthy d \<longleftrightarrow> entrypoints_loaded d \<and> (\<forall>s. read_result d s = SUCCESS)"

lemma signal_semaphore_static [simp]:
  "entrypoints_loaded (signal_semaphore sg d) = entrypoints_loaded d"
  "read_result (signal_semaphore sg d) = read_result d"
  by (simp_all add: signal_semaphore_def)

lemma signal_counter:
  "healthy d \<Longrightarrow> counter_value (signal_semaphore sg d) s
     = (if s = sig_semaphore sg then max (counter_value d s) (sig_value sg) else counter_value d s)"
  by (auto simp: signal_semaphore_def healthy_def max_def)

lemma healthy_signal [simp]: "healthy (signal_semaphore sg d) = healthy d"
  by (simp add: healthy_def)

lemma signals_counter:
  "healthy d \<Longrightarrow> counter_value (fold signal_semaphore sgs d) s
     = fold max (map sig_value (filter (\<lambda>g. sig_semaphore g = s) sgs)) (counter_value d s)"
  by (induction sgs arbitrary: d) (auto simp: signal_counter max.commute)

text \<open>The calls of one semaphore are strictly increasing and end below or at its counter.\<close>

definition calls_inv :: "semaphores \<Rightarrow> semaphores \<Rightarrow> bool" where
  "calls_inv d0 d \<longleftrightarrow> (\<forall>s. \<exists>vs. calls_of s d = calls_of s d0 @ vs
     \<and> sorted_wrt (<) vs \<and> (\<forall>v\<in>set vs. counter_value d0 s < v \<and> v \<le> counter_value d s)
     \<and> counter_value d0 s \<le> counter_value d s)"

lemma calls_inv_signal:
  assumes "calls_inv d0 d"
  shows "calls_inv d0 (signal_semaphore sg d)"
proof (cases "signal_semaphore sg d = d")
  case False
  let ?s = "sig_semaphore sg" and ?v = "sig_value sg"
  have lt: "counter_value d ?s < ?v"
    and d': "signal_semaphore sg d = d\<lparr>counter_value := (counter_value d)(?s := ?v), signal_calls := signal_calls d @ [(?s, ?v)]\<rparr>"
    using False by (auto simp: signal_semaphore_def split: if_splits)
  show ?thesis
    unfolding calls_inv_def
  proof
    fix s
    obtain vs where vs: "calls_of s d = calls_of s d0 @ vs" "sorted_wrt (<) vs"
        "\<forall>v\<in>set vs. counter_value d0 s < v \<and> v \<le> counter_value d s" "counter_value d0 s \<le> counter_value d s"
      using assms unfolding calls_inv_def by blast
    show "\<exists>vs. calls_of s (signal_semaphore sg d) = calls_of s d0 @ vs \<and> sorted_wrt (<) vs
      \<and> (\<forall>v\<in>set vs. counter_value d0 s < v \<and> v \<le> counter_value (signal_semaphore sg d) s)
      \<and> counter_value d0 s \<le> counter_value (signal_semaphore sg d) s"
    proof (cases "s = ?s")
      case True
      then show ?thesis
        using vs lt by (intro exI [of _ "vs @ [?v]"]) (force simp: d' calls_of_def sorted_wrt_append)
    next
      case False
      then show ?thesis using vs by (intro exI [of _ vs]) (auto simp: d' calls_of_def)
    qed
  qed
qed (use assms in simp)

lemma calls_inv_refl: "calls_inv d d"
  by (auto simp: calls_inv_def)

lemma calls_inv_signals: "calls_inv d0 d \<Longrightarrow> calls_inv d0 (fold signal_semaphore sgs d)"
  by (induction sgs arbitrary: d) (auto intro: calls_inv_signal)

section \<open>Operations of a queue\<close>

datatype 'h ll2_op = SubmitOp "u64 option" 'h | TakeOp u64

fun run_ll2 :: "'h ll2_op \<Rightarrow> 'h ll2_queue \<Rightarrow> 'h ll2_queue" where
  "run_ll2 (SubmitOp p h) q = ll2_notify_submit p h q"
| "run_ll2 (TakeOp pid) q = snd (take_by_present_id pid q)"

lemma run_ll2_inv: "ll2_inv q \<Longrightarrow> ll2_inv (fold run_ll2 ops q)"
proof (induction ops arbitrary: q)
  case (Cons op ops)
  then show ?case by (cases op) (simp_all add: ll2_submit_inv ll2_take_inv)
qed simp

text \<open>With the list full of one id, every further submission of it removes its own span.\<close>

lemma submit_until_full:
  assumes "pid \<noteq> 0"
  shows "length hs \<le> MAX_TRACKED_PRESENTS \<Longrightarrow>
    stale_present_ids (fold (ll2_submit pid) hs ll2_queue_new) = replicate (length hs) pid"
proof (induction hs rule: rev_induct)
  case (snoc h hs)
  then show ?case
    using assms by (simp add: ll2_notify_submit_def Let_def MAX_TRACKED_PRESENTS_def replicate_append_same [symmetric])
qed (simp add: ll2_queue_new_def)

lemma submit_when_full:
  assumes "pid \<noteq> 0" and "stale_present_ids q = replicate MAX_TRACKED_PRESENTS pid"
  shows "stale_present_ids (ll2_submit pid h q) = replicate MAX_TRACKED_PRESENTS pid"
    "submissions (ll2_submit pid h q) pid = None"
proof -
  have r: "replicate MAX_TRACKED_PRESENTS pid = pid # replicate 49 pid" "replicate MAX_TRACKED_PRESENTS pid = replicate 49 pid @ [pid]"
    by (simp_all add: MAX_TRACKED_PRESENTS_def numeral_eq_Suc replicate_append_same)
  have n: "ll2_submit pid h q = q\<lparr>submissions := ((submissions q)(pid := extend_or_init h (submissions q pid)))(pid := None),
      stale_present_ids := replicate 49 pid @ [pid]\<rparr>"
    using assms r(1) by (simp add: ll2_notify_submit_def Let_def MAX_TRACKED_PRESENTS_def)
  show "stale_present_ids (ll2_submit pid h q) = replicate MAX_TRACKED_PRESENTS pid"
    unfolding n r(2) by simp
  show "submissions (ll2_submit pid h q) pid = None" unfolding n by simp
qed

section \<open>Properties\<close>

text \<open>
  A queue keeps what the presents need: over any sequence of at most
  \<open>MAX_TRACKED_PRESENTS\<close> submissions, with any interleaving of present ids, taking a present
  id hands over exactly the span of its handles: the first one submitted under it and the
  last one.
\<close>

theorem ll2_queue_tracks_presents:
  assumes "length subs \<le> MAX_TRACKED_PRESENTS"
  shows "fst (take_by_present_id pid (fold (\<lambda>(p, h). ll2_submit p h) subs ll2_queue_new))
    = span_of (map snd (filter (\<lambda>(p, h). p = pid) subs))"
  using ll2.take_submits [of subs ll2_queue_new pid] assms
  by (simp add: ll2_room_def ll2_queue_new_def take_by_present_id_def span_of_def)

theorem ll2_queue_tracks_presents_witness:
  "fst (take_by_present_id 7 (fold (\<lambda>(p, h). ll2_submit p h) [(7, 1), (8, 2), (7, 3 :: nat)] ll2_queue_new))
     = Some \<lparr>span_head = 1, span_tail = Some 3\<rparr>"
  using ll2_queue_tracks_presents [of "[(7, 1), (8, 2), (7, 3 :: nat)]" 7]
  by (simp add: MAX_TRACKED_PRESENTS_def span_of_Cons)

text \<open>
  The memory of a queue is bounded over any history of submissions and takes: at most
  \<open>MAX_TRACKED_PRESENTS\<close> non-zero present ids have a span.
\<close>

theorem ll2_queue_bounded:
  "finite (dom (submissions (fold run_ll2 ops ll2_queue_new)))
   \<and> card (dom (submissions (fold run_ll2 ops ll2_queue_new)) - {0}) \<le> MAX_TRACKED_PRESENTS"
proof -
  let ?q = "fold run_ll2 ops ll2_queue_new"
  have inv: "ll2_inv ?q" by (rule run_ll2_inv) (rule ll2_new_inv)
  then have sub: "dom (submissions ?q) - {0} \<subseteq> set (stale_present_ids ?q)"
    and fin: "finite (dom (submissions ?q))" by (auto simp: ll2_inv_def intro: finite_subset)
  have "card (dom (submissions ?q) - {0}) \<le> card (set (stale_present_ids ?q))"
    using sub by (intro card_mono) simp_all
  also have "\<dots> \<le> MAX_TRACKED_PRESENTS"
    using inv card_length [of "stale_present_ids ?q"] by (simp add: ll2_inv_def)
  finally show ?thesis using fin by simp
qed

text \<open>
  The bound counts submissions, not presents: a frame with more than
  \<open>MAX_TRACKED_PRESENTS\<close> submissions under its present id evicts its own span, and the
  present then finds nothing to wait for.
\<close>

theorem ll2_busy_frame_loses_its_span:
  assumes "pid \<noteq> 0" and "MAX_TRACKED_PRESENTS < length hs"
  shows "fst (take_by_present_id pid (fold (ll2_submit pid) hs ll2_queue_new)) = None"
proof -
  have "stale_present_ids (fold (ll2_submit pid) hs q) = replicate MAX_TRACKED_PRESENTS pid
      \<and> (hs \<noteq> [] \<longrightarrow> submissions (fold (ll2_submit pid) hs q) pid = None)"
    if "stale_present_ids q = replicate MAX_TRACKED_PRESENTS pid" for hs and q :: "'a ll2_queue"
  proof (induction hs rule: rev_induct)
    case Nil
    then show ?case using that by simp
  next
    case (snoc h hs)
    then have "stale_present_ids (fold (ll2_submit pid) hs q) = replicate MAX_TRACKED_PRESENTS pid" by blast
    from submit_when_full [OF assms(1) this, of h] show ?case by simp
  qed
  note full = this
  let ?a = "take MAX_TRACKED_PRESENTS hs" and ?b = "drop MAX_TRACKED_PRESENTS hs"
  have "stale_present_ids (fold (ll2_submit pid) ?a ll2_queue_new) = replicate MAX_TRACKED_PRESENTS pid"
    using submit_until_full [OF assms(1), of ?a] assms(2) by simp
  from full [OF this, of ?b] have "submissions (fold (ll2_submit pid) ?b (fold (ll2_submit pid) ?a ll2_queue_new)) pid = None"
    using assms(2) by simp
  moreover have "fold (ll2_submit pid) ?b (fold (ll2_submit pid) ?a ll2_queue_new) = fold (ll2_submit pid) hs ll2_queue_new"
    by (metis append_take_drop_id fold_append comp_apply)
  ultimately show ?thesis by (simp add: take_by_present_id_def)
qed

theorem ll2_busy_frame_loses_its_span_witness:
  "fst (take_by_present_id 9 (fold (ll2_submit 9) (replicate 51 CHR ''x'') ll2_queue_new)) = None"
  using ll2_busy_frame_loses_its_span [of 9 "replicate 51 CHR ''x''"] by (simp add: MAX_TRACKED_PRESENTS_def)

text \<open>
  Timeline semaphores only move forward: on a healthy device any sequence of signals,
  repeated and decreasing values included, leaves each counter at the maximum of its start
  and the values asked for, and the \<open>vkSignalSemaphore\<close> calls made are strictly increasing
  and above the starting value, as the Vulkan rule demands.
\<close>

theorem semaphore_signals_monotone:
  assumes "healthy d"
  shows "counter_value (fold signal_semaphore sgs d) s
      = fold max (map sig_value (filter (\<lambda>g. sig_semaphore g = s) sgs)) (counter_value d s)
    \<and> (\<exists>vs. calls_of s (fold signal_semaphore sgs d) = calls_of s d @ vs \<and> sorted_wrt (<) vs
         \<and> (\<forall>v\<in>set vs. counter_value d s < v \<and> v \<le> counter_value (fold signal_semaphore sgs d) s))"
  using signals_counter [OF assms] calls_inv_signals [OF calls_inv_refl, of d sgs]
  unfolding calls_inv_def by blast

theorem semaphore_signals_monotone_witness:
  "\<exists>vs. calls_of 4 (fold signal_semaphore [\<lparr>sig_semaphore = 4, sig_value = 1\<rparr>, \<lparr>sig_semaphore = 4, sig_value = 1\<rparr>]
      \<lparr>entrypoints_loaded = True, read_result = (\<lambda>_. SUCCESS), counter_value = (\<lambda>_. 0), signal_calls = []\<rparr>) = vs
     \<and> sorted_wrt (<) vs"
  using semaphore_signals_monotone [of "\<lparr>entrypoints_loaded = True, read_result = (\<lambda>_. SUCCESS),
      counter_value = (\<lambda>_. 0), signal_calls = []\<rparr>"
      "[\<lparr>sig_semaphore = 4, sig_value = 1\<rparr>, \<lparr>sig_semaphore = 4, sig_value = 1\<rparr>]" 4]
  by (auto simp: healthy_def calls_of_def)

end
