(* ===== verification/Monitor.thy ===== *)
theory Monitor
  imports "HOL-Library.Multiset" Text LowLatency2 Markers Delay WorkerLoop
begin

text \<open>
  The swapchain monitor of \<open>src/strategy/low_latency2/swapchain_monitor.rs\<close>: its state, the
  calls of the application threads, the work done for one pending semaphore, and the step
  relation of the worker thread with its owner.
\<close>

section \<open>State and calls\<close>

record 'sp tagged_spans =
  tg_present_id :: u64
  tg_spans :: "'sp list"

record 'sp pending_signal =
  ps_signal :: semaphore_signal
  ps_groups :: "'sp tagged_spans list"

record 'sp monitor =
  pending_signals :: "'sp pending_signal list"
  pending_groups :: "'sp tagged_spans list"
  present_delay_ns :: u64
  requested :: bool
  mon_delay :: delay_controller

definition monitor_new :: "bool \<Rightarrow> 'sp monitor" where
  "monitor_new decoupled = \<lparr>pending_signals = [], pending_groups = [], present_delay_ns = 0, requested = False,
     mon_delay = delay_controller_new decoupled\<rparr>"

definition update_params :: "bool \<Rightarrow> u64 \<Rightarrow> 'sp monitor \<Rightarrow> 'sp monitor" where
  "update_params req minimum_interval_us m =
     m\<lparr>requested := req, present_delay_ns := saturating_mul minimum_interval_us 1000\<rparr>"

text \<open>The flag answers whether the signal was queued; otherwise the caller signals at once.\<close>

definition notify_semaphore :: "semaphore_signal \<Rightarrow> 'sp monitor \<Rightarrow> bool \<times> 'sp monitor" where
  "notify_semaphore sg m =
     (if \<not> requested m then (False, m)
      else (True, m\<lparr>pending_groups := [],
              pending_signals := pending_signals m @ [\<lparr>ps_signal = sg, ps_groups = pending_groups m\<rparr>]\<rparr>))"

definition attach_work :: "u64 \<Rightarrow> 'sp list \<Rightarrow> 'sp monitor \<Rightarrow> 'sp monitor" where
  "attach_work pid spans m =
     (if \<not> requested m then m
      else m\<lparr>pending_groups := pending_groups m @ [\<lparr>tg_present_id = pid, tg_spans = spans\<rparr>]\<rparr>)"

section \<open>Work for one semaphore\<close>

definition DEFAULT_WAIT_BUDGET_US :: u64 where "DEFAULT_WAIT_BUDGET_US = 4000"

definition wait_budget_ns :: "ustr option \<Rightarrow> u64" where
  "wait_budget_ns env =
     (case Option.bind env parse_u64_str of Some us \<Rightarrow> us * 1000 | None \<Rightarrow> DEFAULT_WAIT_BUDGET_US * 1000)"

definition record_widest :: "u64 \<Rightarrow> u64 \<Rightarrow> u64 \<Rightarrow> history \<Rightarrow> panic + history" where
  "record_widest pid s e h = record_gpu_timing pid s e h"

text \<open>
  The spans of one group: \<open>in_time\<close> says whether the bounded wait for a span succeeds, \<open>tms\<close>
  what \<open>completion_times_ns\<close> reads (\<open>None\<close> also when the device has no clock). The count is
  the number of spans that completed.
\<close>

fun process_spans ::
  "('sp \<Rightarrow> bool) \<Rightarrow> ('sp \<Rightarrow> (u64 \<times> u64) option) \<Rightarrow> u64 \<Rightarrow> 'sp list \<Rightarrow> history \<Rightarrow> panic + nat \<times> history" where
  "process_spans in_time tms pid [] h = Inr (0, h)"
| "process_spans in_time tms pid (s # ss) h =
     (if \<not> in_time s then Inr (0, h)
      else
        (case (case tms s of None \<Rightarrow> Inr h | Some (a, b) \<Rightarrow> record_widest pid a b h) of
           Inl e \<Rightarrow> Inl e
         | Inr h' \<Rightarrow>
             (case process_spans in_time tms pid ss h' of
                Inl e \<Rightarrow> Inl e
              | Inr (n, h'') \<Rightarrow> Inr (Suc n, h''))))"

fun process_groups ::
  "('sp \<Rightarrow> bool) \<Rightarrow> ('sp \<Rightarrow> (u64 \<times> u64) option) \<Rightarrow> 'sp tagged_spans list \<Rightarrow> history \<Rightarrow> panic + history" where
  "process_groups in_time tms [] h = Inr h"
| "process_groups in_time tms (g # gs) h =
     (case process_spans in_time tms (tg_present_id g) (tg_spans g) h of
        Inl e \<Rightarrow> Inl e
      | Inr (_, h') \<Rightarrow> process_groups in_time tms gs h')"

text \<open>
  One round of the worker after the pop: markers, delay controller, semaphores. Once the
  stop flag is set the waits and the delay are skipped.
\<close>

definition process_pending ::
  "bool \<Rightarrow> ('sp \<Rightarrow> bool) \<Rightarrow> ('sp \<Rightarrow> (u64 \<times> u64) option) \<Rightarrow> (nat \<Rightarrow> u64) \<Rightarrow> u64 \<Rightarrow> u64 \<Rightarrow> 'sp pending_signal
     \<Rightarrow> history \<times> delay_controller \<times> semaphores \<times> nat \<Rightarrow> (panic + history \<times> delay_controller \<times> semaphores \<times> nat) option" where
  "process_pending stopped in_time tms clk app_delay layer_delay p st =
     (case st of (h, dc, sems, k) \<Rightarrow>
        if stopped then Some (Inr (h, dc, signal_semaphore (ps_signal p) sems, k))
        else
          (case process_groups in_time tms (ps_groups p) h of
             Inl e \<Rightarrow> Some (Inl e)
           | Inr h' \<Rightarrow>
               (case delay clk (max app_delay layer_delay) dc k of
                  None \<Rightarrow> None
                | Some (Inl e) \<Rightarrow> Some (Inl e)
                | Some (Inr (dc', k')) \<Rightarrow> Some (Inr (h', dc', signal_semaphore (ps_signal p) sems, k')))))"

lemma record_widest_ok:
  assumes "history_inv h"
  shows "\<exists>h'. record_widest pid a b h = Inr h' \<and> history_inv h'
    \<and> (\<forall>q. frame_of h' q = op_effect (GpuTimingOp pid a b) h q)"
  using record_gpu_effect [OF assms] by (simp add: record_widest_def)

lemma process_spans_ok:
  "history_inv h \<Longrightarrow> \<exists>n h'. process_spans in_time tms pid ss h = Inr (n, h') \<and> history_inv h' \<and> n \<le> length ss"
proof (induction ss arbitrary: h)
  case (Cons s ss)
  show ?case
  proof (cases "in_time s")
    case True
    obtain h1 where h1: "(case tms s of None \<Rightarrow> Inr h | Some (a, b) \<Rightarrow> record_widest pid a b h) = Inr h1" "history_inv h1"
      using record_widest_ok [OF Cons.prems, of pid "fst (the (tms s))" "snd (the (tms s))"] Cons.prems
      by (cases "tms s") auto
    obtain n h2 where "process_spans in_time tms pid ss h1 = Inr (n, h2)" "history_inv h2" "n \<le> length ss"
      using Cons.IH [OF h1(2)] by blast
    then show ?thesis using True h1 by simp
  qed (use Cons.prems in simp)
qed simp

lemma process_groups_ok:
  "history_inv h \<Longrightarrow> \<exists>h'. process_groups in_time tms gs h = Inr h' \<and> history_inv h'"
proof (induction gs arbitrary: h)
  case (Cons g gs)
  obtain n h1 where "process_spans in_time tms (tg_present_id g) (tg_spans g) h = Inr (n, h1)" "history_inv h1"
    using process_spans_ok [OF Cons.prems] by blast
  then show ?case using Cons.IH by simp
qed simp

text \<open>
  A stuck submission never holds back the game: whatever spans time out and whatever
  their timestamps are, the round does not panic in the marker history, signals exactly the
  semaphore of the popped entry, and does so after a pacing delay that returns whenever the
  clock eventually passes every value; in drain mode it signals at once.
\<close>

theorem monitor_round_always_signals:
  assumes "history_inv h" and "\<forall>d n. \<exists>j\<ge>n. d \<le> clk j"
  shows "\<exists>r. process_pending stopped in_time tms clk a l p (h, dc, sems, k) = Some r
    \<and> (\<forall>h' dc' sems' k'. r = Inr (h', dc', sems', k') \<longrightarrow>
         history_inv h' \<and> sems' = signal_semaphore (ps_signal p) sems)
    \<and> (stopped \<longrightarrow> r = Inr (h, dc, signal_semaphore (ps_signal p) sems, k))
    \<and> (\<not> simulation_decoupled dc \<longrightarrow> (\<exists>x. r = Inr x))"
proof (cases stopped)
  case True
  then show ?thesis using assms(1) by (simp add: process_pending_def)
next
  case False
  obtain h1 where h1: "process_groups in_time tms (ps_groups p) h = Inr h1" "history_inv h1"
    using process_groups_ok [OF assms(1)] by blast
  obtain x where x: "delay clk (max a l) dc k = Some x"
    using delay_total [OF assms(2)] by blast
  have co: "\<exists>y. x = Inr y" if "\<not> simulation_decoupled dc"
    using delay_coupled_ok [OF that x] .
  show ?thesis
    using False h1 x co
    by (cases x) (auto simp: process_pending_def split: prod.splits)
qed

theorem monitor_round_always_signals_witness:
  "\<exists>x. process_pending False (\<lambda>_. False) (\<lambda>_. None) (\<lambda>_. - 1) 5 0
      \<lparr>ps_signal = \<lparr>sig_semaphore = 3, sig_value = 9\<rparr>, ps_groups = [\<lparr>tg_present_id = 1, tg_spans = [()]\<rparr>]\<rparr>
      (history_new, delay_controller_new False, \<lparr>entrypoints_loaded = True, read_result = (\<lambda>_. SUCCESS), counter_value = (\<lambda>_. 0), signal_calls = []\<rparr>, 0) = Some (Inr x)"
proof -
  let ?p = "\<lparr>ps_signal = \<lparr>sig_semaphore = 3, sig_value = 9\<rparr>, ps_groups = [\<lparr>tg_present_id = 1, tg_spans = [()]\<rparr>]\<rparr>"
  have c: "\<forall>d n. \<exists>j\<ge>n. d \<le> (\<lambda>_. - 1 :: u64) (j :: nat)" by auto
  have nd: "\<not> simulation_decoupled (delay_controller_new False)" by (simp add: delay_controller_new_def)
  obtain r where "process_pending False (\<lambda>_. False) (\<lambda>_. None) (\<lambda>_. - 1) 5 0 ?p
      (history_new, delay_controller_new False, \<lparr>entrypoints_loaded = True, read_result = (\<lambda>_. SUCCESS), counter_value = (\<lambda>_. 0), signal_calls = []\<rparr>, 0) = Some r" "\<exists>x. r = Inr x"
    using monitor_round_always_signals [OF history_new_inv c, of False "\<lambda>_. False" "\<lambda>_. None" 5 0 ?p
        "delay_controller_new False" "\<lparr>entrypoints_loaded = True, read_result = (\<lambda>_. SUCCESS), counter_value = (\<lambda>_. 0), signal_calls = []\<rparr>" 0] nd by blast
  then show ?thesis by blast
qed

text \<open>
  The GPU interval reported for a frame is that of its last completed span, not the
  envelope of its spans: over a group whose spans all complete with readable times, a known
  frame ends with exactly the times of the last one.
\<close>

theorem frame_gets_last_span_times:
  assumes "history_inv h" and "frame_of h pid = Some f" and "ss \<noteq> []"
    and "\<forall>s\<in>set ss. in_time s \<and> tms s = Some (start s, finish s)"
  shows "\<exists>h'. process_spans in_time tms pid ss h = Inr (length ss, h')
    \<and> map_option gpu_render_start_us (frame_of h' pid) = Some (start (last ss) div 1000)
    \<and> map_option gpu_render_end_us (frame_of h' pid) = Some (finish (last ss) div 1000)"
  using assms
proof (induction ss arbitrary: h f)
  case (Cons s ss)
  obtain h1 where h1: "record_widest pid (start s) (finish s) h = Inr h1" "history_inv h1"
      "frame_of h1 pid = Some (f\<lparr>gpu_render_start_us := start s div 1000, gpu_render_end_us := finish s div 1000\<rparr>)"
    using record_widest_ok [OF Cons.prems(1), of pid "start s" "finish s"] Cons.prems(2) by (auto simp: op_effect_def)
  have s: "in_time s" "tms s = Some (start s, finish s)" using Cons.prems(4) by simp_all
  show ?case
  proof (cases "ss = []")
    case True
    then show ?thesis using h1 s by simp
  next
    case False
    then show ?thesis
      using Cons.IH [OF h1(2,3) False] Cons.prems(4) h1(1) s by auto
  qed
qed simp

theorem frame_gets_last_span_times_witness:
  "\<exists>h'. process_spans (\<lambda>_. True) (\<lambda>n. Some (of_nat n * 1000, of_nat n * 2000)) 1 [9, 4 :: nat]
        (append_frame (frame_default 1) history_new) = Inr (2, h')
     \<and> map_option gpu_render_end_us (frame_of h' 1) = Some 8"
proof -
  let ?h = "append_frame (frame_default 1) history_new"
  have inv: "history_inv ?h"
    by (rule append_frame_inv [OF history_new_inv]) (simp_all add: history_new_def HISTORY_CAP_def)
  have f: "frame_of ?h 1 = Some (frame_default 1)"
    by (simp add: frame_of_def append_frame_def history_new_def)
  let ?tms = "\<lambda>n :: nat. Some (of_nat n * 1000 :: u64, of_nat n * 2000 :: u64)"
  have ne: "[9, 4 :: nat] \<noteq> []" by simp
  have all: "\<forall>n\<in>set [9, 4 :: nat]. (\<lambda>_. True) n \<and> ?tms n = Some ((\<lambda>n. of_nat n * 1000) n, (\<lambda>n. of_nat n * 2000) n)"
    by simp
  have e: "length [9, 4 :: nat] = 2" "of_nat (last [9, 4 :: nat]) * 2000 div 1000 = (8 :: u64)" by simp_all
  show ?thesis
    using frame_gets_last_span_times [OF inv f ne all] unfolding e by blast
qed

section \<open>Worker thread and owner\<close>

text \<open>
  \<open>MLocked\<close> and \<open>MParking\<close> hold the state lock; the calls of application threads need it.
  \<open>direct\<close>, \<open>queued_log\<close>, \<open>popped_log\<close> and \<open>signalled\<close> are histories of the semaphores
  signalled by the caller, queued, popped and signalled by the worker.
\<close>

datatype 'sp monitor_pc =
    MIdle | MLocked | MParking | MParked | MProcessing "'sp pending_signal" | MExited

record 'sp monitor_sys =
  mon :: "'sp monitor"
  mpc :: "'sp monitor_pc"
  mstop :: bool
  mowner :: owner_pc
  mowed :: nat
  direct :: "semaphore_signal list"
  queued_log :: "semaphore_signal list"
  popped_log :: "semaphore_signal list"
  signalled :: "semaphore_signal list"

definition monitor_start :: "bool \<Rightarrow> 'sp monitor_sys" where
  "monitor_start decoupled = \<lparr>mon = monitor_new decoupled, mpc = MIdle, mstop = False, mowner = Running, mowed = 0,
     direct = [], queued_log = [], popped_log = [], signalled = []\<rparr>"

definition state_locked :: "'sp monitor_pc \<Rightarrow> bool" where
  "state_locked pc \<longleftrightarrow> pc = MLocked \<or> pc = MParking"

definition mwake :: "'sp monitor_pc \<Rightarrow> 'sp monitor_pc" where
  "mwake pc = (case pc of MParked \<Rightarrow> MIdle | _ \<Rightarrow> pc)"

fun monitor_work :: "'sp monitor_sys \<Rightarrow> 'sp monitor_sys option" where
  "monitor_work s =
     (case mpc s of
        MIdle \<Rightarrow> Some (s\<lparr>mpc := MLocked\<rparr>)
      | MLocked \<Rightarrow>
          (case pending_signals (mon s) of
             p # rest \<Rightarrow> Some (s\<lparr>mon := (mon s)\<lparr>pending_signals := rest\<rparr>, mpc := MProcessing p,
                               popped_log := popped_log s @ [ps_signal p]\<rparr>)
           | [] \<Rightarrow> Some (s\<lparr>mpc := (if mstop s then MExited else MParking)\<rparr>))
      | MParking \<Rightarrow> Some (s\<lparr>mpc := MParked\<rparr>)
      | MParked \<Rightarrow> None
      | MProcessing p \<Rightarrow> Some (s\<lparr>mpc := MIdle, signalled := signalled s @ [ps_signal p]\<rparr>)
      | MExited \<Rightarrow> None)"

inductive monitor_step :: "'sp monitor_sys \<Rightarrow> 'sp monitor_sys \<Rightarrow> bool" where
  work: "monitor_work s = Some t \<Longrightarrow> monitor_step s t"
| params: "mowner s = Running \<Longrightarrow> \<not> state_locked (mpc s) \<Longrightarrow>
     monitor_step s (s\<lparr>mon := update_params req us (mon s)\<rparr>)"
| attach: "mowner s = Running \<Longrightarrow> \<not> state_locked (mpc s) \<Longrightarrow>
     monitor_step s (s\<lparr>mon := attach_work pid spans (mon s)\<rparr>)"
| notify_direct: "mowner s = Running \<Longrightarrow> \<not> state_locked (mpc s) \<Longrightarrow> notify_semaphore sg (mon s) = (False, m) \<Longrightarrow>
     monitor_step s (s\<lparr>mon := m, direct := direct s @ [sg]\<rparr>)"
| notify_queued: "mowner s = Running \<Longrightarrow> \<not> state_locked (mpc s) \<Longrightarrow> notify_semaphore sg (mon s) = (True, m) \<Longrightarrow>
     monitor_step s (s\<lparr>mon := m, queued_log := queued_log s @ [sg], mowed := Suc (mowed s)\<rparr>)"
| wake_one: "mowner s = Running \<Longrightarrow> mowed s = Suc n \<Longrightarrow> monitor_step s (s\<lparr>mowed := n, mpc := mwake (mpc s)\<rparr>)"
| set_stop: "mowner s = Running \<Longrightarrow> mowed s = 0 \<Longrightarrow> monitor_step s (s\<lparr>mstop := True, mowner := StopSet\<rparr>)"
| notify_all: "mowner s = StopSet \<Longrightarrow> monitor_step s (s\<lparr>mpc := mwake (mpc s), mowner := Joining\<rparr>)"
| join: "mowner s = Joining \<Longrightarrow> mpc s = MExited \<Longrightarrow> monitor_step s (s\<lparr>mowner := Joined\<rparr>)"

inductive_simps monitor_step_simps: "monitor_step s t"

definition queued_signals :: "'sp monitor_sys \<Rightarrow> semaphore_signal list" where
  "queued_signals s = map ps_signal (pending_signals (mon s))"

lemma monitor_calls_queue [simp]:
  "pending_signals (update_params r u m) = pending_signals m"
  "pending_signals (attach_work pid sp m) = pending_signals m"
  by (simp_all add: update_params_def attach_work_def)

interpretation mon: fifo_worker monitor_step queued_log queued_signals popped_log
proof unfold_locales
  fix s t :: "'sp monitor_sys"
  assume "monitor_step s t"
  then show "(queued_log t = queued_log s \<and> queued_signals t = queued_signals s \<and> popped_log t = popped_log s)
    \<or> (\<exists>x. queued_log t = queued_log s @ [x] \<and> queued_signals t = queued_signals s @ [x] \<and> popped_log t = popped_log s)
    \<or> (\<exists>x. queued_log t = queued_log s \<and> queued_signals s = x # queued_signals t \<and> popped_log t = popped_log s @ [x])"
  proof cases
    case work
    then show ?thesis
      by (auto simp: queued_signals_def split: monitor_pc.splits list.splits if_splits)
  qed (auto simp: queued_signals_def notify_semaphore_def split: if_splits)
qed

definition in_progress :: "'sp monitor_pc \<Rightarrow> semaphore_signal list" where
  "in_progress pc = (case pc of MProcessing p \<Rightarrow> [ps_signal p] | _ \<Rightarrow> [])"

definition monitor_inv :: "'sp monitor_sys \<Rightarrow> bool" where
  "monitor_inv s \<longleftrightarrow> popped_log s = signalled s @ in_progress (mpc s)
     \<and> (mowner s \<noteq> Running \<longleftrightarrow> mstop s)
     \<and> (mpc s = MExited \<longrightarrow> mstop s \<and> pending_signals (mon s) = [])
     \<and> (mpc s = MParking \<longrightarrow> pending_signals (mon s) = [])
     \<and> (mpc s = MParked \<and> pending_signals (mon s) \<noteq> [] \<longrightarrow> 0 < mowed s)
     \<and> (mowner s \<noteq> Running \<longrightarrow> mowed s = 0)"

lemma monitor_start_inv: "monitor_inv (monitor_start d)"
  by (simp add: monitor_inv_def monitor_start_def in_progress_def)

lemma mwake_simps [simp]:
  "in_progress (mwake pc) = in_progress pc" "mwake pc = MParking \<longleftrightarrow> pc = MParking"
  "mwake pc = MExited \<longleftrightarrow> pc = MExited" "mwake pc \<noteq> MParked"
  by (simp_all add: mwake_def in_progress_def split: monitor_pc.split)

lemma monitor_work_inv: "monitor_work s = Some t \<Longrightarrow> monitor_inv s \<Longrightarrow> monitor_inv t"
  by (auto simp: monitor_inv_def in_progress_def split: monitor_pc.splits list.splits if_splits)

lemma monitor_step_inv: "monitor_step s t \<Longrightarrow> monitor_inv s \<Longrightarrow> monitor_inv t"
proof (induction rule: monitor_step.induct)
  case (work s t)
  then show ?case by (rule monitor_work_inv)
qed (auto simp: monitor_inv_def notify_semaphore_def state_locked_def split: if_splits)

interpretation mi: invariant_system monitor_step monitor_inv
  by unfold_locales (rule monitor_step_inv)

lemma monitor_reach:
  assumes "rtranclp monitor_step (monitor_start d) s"
  shows "queued_log s = signalled s @ in_progress (mpc s) @ queued_signals s" "monitor_inv s"
proof -
  show inv: "monitor_inv s" using mi.steps_inv [OF assms monitor_start_inv] .
  have "queued_log s = popped_log s @ queued_signals s"
    using mon.fifo_order [OF assms] by (simp add: monitor_start_def monitor_new_def queued_signals_def)
  then show "queued_log s = signalled s @ in_progress (mpc s) @ queued_signals s"
    using inv by (simp add: monitor_inv_def)
qed

fun mpc_rank :: "'sp monitor_pc \<Rightarrow> nat" where
  "mpc_rank MExited = 0"
| "mpc_rank MLocked = 1"
| "mpc_rank MIdle = 2"
| "mpc_rank (MProcessing p) = 3"
| "mpc_rank MParking = 4"
| "mpc_rank MParked = 5"

lemma monitor_work_progress:
  assumes "mstop s" and "mpc s \<notin> {MParking, MParked, MExited}"
  shows "\<exists>t. monitor_work s = Some t \<and> mstop t \<and> mowner t = mowner s \<and> mpc t \<notin> {MParking, MParked}
    \<and> 3 * length (pending_signals (mon t)) + mpc_rank (mpc t) < 3 * length (pending_signals (mon s)) + mpc_rank (mpc s)"
  using assms by (cases "mpc s") (simp_all split: list.split)

interpretation md: winding_down monitor_step "\<lambda>s. mstop s \<and> mpc s \<notin> {MParking, MParked}" "\<lambda>s. mpc s = MExited"
    "\<lambda>s. 3 * length (pending_signals (mon s)) + mpc_rank (mpc s)" mowner
  by unfold_locales (use monitor_work_progress monitor_step.work in blast)

text \<open>
  Every semaphore handed to the monitor while pacing is on is signalled exactly once and
  in the order of the calls: at any moment the worker has signalled a prefix of the calls,
  the rest is the one in work and the queue; when the worker has exited (before the
  monitor's destructor returns) nothing is left over; and while the application runs a
  sleeping worker with queued semaphores always has a notification coming.
\<close>

theorem monitor_signals_each_once_in_order:
  assumes "rtranclp monitor_step (monitor_start d) s"
  shows "queued_log s = signalled s @ in_progress (mpc s) @ queued_signals s
    \<and> (mpc s = MExited \<longrightarrow> signalled s = queued_log s)
    \<and> (mowner s = Joined \<longrightarrow> mstop s)
    \<and> (mpc s = MParked \<and> queued_signals s \<noteq> [] \<longrightarrow> mowner s = Running \<and> 0 < mowed s)"
  using monitor_reach [OF assms] by (auto simp: monitor_inv_def in_progress_def queued_signals_def)

theorem monitor_signals_each_once_in_order_witness:
  "\<exists>s. rtranclp monitor_step (monitor_start False :: nat monitor_sys) s
     \<and> queued_log s = [\<lparr>sig_semaphore = 4, sig_value = 2\<rparr>]
     \<and> queued_log s = signalled s @ in_progress (mpc s) @ queued_signals s"
proof -
  let ?a = "monitor_start False :: nat monitor_sys"
  let ?b = "?a\<lparr>mon := update_params True 0 (mon ?a)\<rparr>"
  let ?m = "snd (notify_semaphore \<lparr>sig_semaphore = 4, sig_value = 2\<rparr> (mon ?b))"
  let ?c = "?b\<lparr>mon := ?m, queued_log := queued_log ?b @ [\<lparr>sig_semaphore = 4, sig_value = 2\<rparr>], mowed := Suc (mowed ?b)\<rparr>"
  have "monitor_step ?a ?b"
    by (rule monitor_step.params) (simp_all add: monitor_start_def state_locked_def)
  moreover have "monitor_step ?b ?c"
    by (rule monitor_step.notify_queued)
      (simp_all add: monitor_start_def state_locked_def update_params_def notify_semaphore_def)
  ultimately have r: "rtranclp monitor_step ?a ?c" by (meson rtranclp.rtrancl_refl rtranclp.rtrancl_into_rtrancl)
  have "queued_log ?c = [\<lparr>sig_semaphore = 4, sig_value = 2\<rparr>]" by (simp add: monitor_start_def)
  then show ?thesis using monitor_signals_each_once_in_order [OF r] r by blast
qed

text \<open>
  Destroying a swapchain drains its monitor, unless the stop notification is lost: from
  every reachable state in which the stop flag has just been set and the worker is not
  between its test and its wait, the join can return, with every queued semaphore signalled.
  In that window the destructor hangs, because flag and notification bypass the lock.
\<close>

theorem monitor_drop_drains_or_hangs:
  assumes "rtranclp monitor_step (monitor_start d) s" and "mowner s = StopSet"
  shows "(mpc s \<noteq> MParking \<longrightarrow>
      (\<exists>t. rtranclp monitor_step s t \<and> mowner t = Joined \<and> signalled t = queued_log t))
    \<and> (mpc s = MParking \<longrightarrow>
      (\<exists>t. rtranclp monitor_step s t \<and> mowner t = Joining \<and> mpc t = MParked \<and> (\<forall>u. \<not> monitor_step t u)))"
proof (intro conjI impI)
  let ?s = "s\<lparr>mpc := mwake (mpc s), mowner := Joining\<rparr>"
  have 1: "monitor_step s ?s" using assms(2) by (rule monitor_step.notify_all)
  have inv: "monitor_inv s" using monitor_reach(2) [OF assms(1)] .
  then have stop: "mstop s" "mowed s = 0" using assms(2) by (auto simp: monitor_inv_def)
  show "\<exists>t. rtranclp monitor_step s t \<and> mowner t = Joined \<and> signalled t = queued_log t" if pc: "mpc s \<noteq> MParking"
  proof -
    obtain t where t: "rtranclp monitor_step ?s t" "mpc t = MExited" "mowner t = Joining"
      using md.winds_down [of ?s] stop pc by auto
    have "monitor_step t (t\<lparr>mowner := Joined\<rparr>)" using t(3,2) by (rule monitor_step.join)
    then have r: "rtranclp monitor_step s (t\<lparr>mowner := Joined\<rparr>)"
      using converse_rtranclp_into_rtranclp [of monitor_step, OF 1] t(1) rtranclp.rtrancl_into_rtrancl by metis
    then have "rtranclp monitor_step (monitor_start d) (t\<lparr>mowner := Joined\<rparr>)"
      using assms(1) by (meson rtranclp_trans)
    from monitor_reach [OF this] have "signalled t = queued_log t"
      using t(2) by (simp add: monitor_inv_def in_progress_def queued_signals_def)
    then show ?thesis using r by (intro exI [of _ "t\<lparr>mowner := Joined\<rparr>"]) simp
  qed
  show "\<exists>t. rtranclp monitor_step s t \<and> mowner t = Joining \<and> mpc t = MParked \<and> (\<forall>u. \<not> monitor_step t u)"
    if pc: "mpc s = MParking"
  proof -
    let ?t = "?s\<lparr>mpc := MParked\<rparr>"
    have "monitor_step ?s ?t" using pc by (intro monitor_step.work) (simp add: mwake_def)
    then have r: "rtranclp monitor_step s ?t"
      using 1 by (meson rtranclp.rtrancl_refl rtranclp.rtrancl_into_rtrancl)
    have "\<not> monitor_step ?t u" for u by (simp add: monitor_step_simps)
    then show ?thesis using r by (intro exI [of _ ?t]) simp
  qed
qed

theorem monitor_drop_drains_or_hangs_witness:
  "\<exists>s t. rtranclp monitor_step (monitor_start False :: nat monitor_sys) s \<and> mpc s = MParking
     \<and> rtranclp monitor_step s t \<and> mowner t = Joining \<and> (\<forall>u. \<not> monitor_step t u)"
proof -
  let ?a = "monitor_start False :: nat monitor_sys"
  let ?b = "?a\<lparr>mpc := MLocked\<rparr>"
  let ?c = "?b\<lparr>mpc := MParking\<rparr>"
  let ?d = "?c\<lparr>mstop := True, mowner := StopSet\<rparr>"
  have "monitor_step ?a ?b" by (rule monitor_step.work) (simp add: monitor_start_def)
  moreover have "monitor_step ?b ?c" by (rule monitor_step.work) (simp add: monitor_start_def monitor_new_def)
  moreover have "monitor_step ?c ?d" by (rule monitor_step.set_stop) (simp_all add: monitor_start_def)
  ultimately have r: "rtranclp monitor_step ?a ?d" by (meson rtranclp.rtrancl_refl rtranclp.rtrancl_into_rtrancl)
  have "mowner ?d = StopSet" "mpc ?d = MParking" by simp_all
  then show ?thesis using monitor_drop_drains_or_hangs [OF r] r by blast
qed

end
