(* ===== verification/Config.thy ===== *)
theory Config
  imports Text
begin

text \<open>
  The layer configuration of \<open>src/config.rs\<close>: the preset table, the environment, the
  reader of the per-application file and the resolution for one application. The
  environment and the file system are arguments.
\<close>

section \<open>Presets\<close>

record spoof_profile =
  device_id :: u32
  device_name :: ustr

definition preset :: "string \<Rightarrow> u32 \<Rightarrow> string \<Rightarrow> ustr \<times> spoof_profile" where
  "preset key i name = (lit key, \<lparr>device_id = i, device_name = lit name\<rparr>)"

definition NVIDIA_PRESETS :: "(ustr \<times> spoof_profile) list" where
  "NVIDIA_PRESETS =
   [preset ''RTX_2060'' 0x1F08 ''NVIDIA GeForce RTX 2060'',
    preset ''RTX_2060_SUPER'' 0x1F47 ''NVIDIA GeForce RTX 2060 SUPER'',
    preset ''RTX_2070'' 0x1F02 ''NVIDIA GeForce RTX 2070'',
    preset ''RTX_2070_SUPER'' 0x1E84 ''NVIDIA GeForce RTX 2070 SUPER'',
    preset ''RTX_2080'' 0x1E87 ''NVIDIA GeForce RTX 2080'',
    preset ''RTX_2080_SUPER'' 0x1E81 ''NVIDIA GeForce RTX 2080 SUPER'',
    preset ''RTX_2080_TI'' 0x1E07 ''NVIDIA GeForce RTX 2080 Ti'',
    preset ''RTX_3050'' 0x2507 ''NVIDIA GeForce RTX 3050'',
    preset ''RTX_3060'' 0x2504 ''NVIDIA GeForce RTX 3060'',
    preset ''RTX_3060_TI'' 0x2489 ''NVIDIA GeForce RTX 3060 Ti'',
    preset ''RTX_3070'' 0x2484 ''NVIDIA GeForce RTX 3070'',
    preset ''RTX_3070_TI'' 0x2482 ''NVIDIA GeForce RTX 3070 Ti'',
    preset ''RTX_3080'' 0x2206 ''NVIDIA GeForce RTX 3080'',
    preset ''RTX_3080_TI'' 0x2208 ''NVIDIA GeForce RTX 3080 Ti'',
    preset ''RTX_3090'' 0x2204 ''NVIDIA GeForce RTX 3090'',
    preset ''RTX_3090_TI'' 0x2203 ''NVIDIA GeForce RTX 3090 Ti'',
    preset ''RTX_4060'' 0x2882 ''NVIDIA GeForce RTX 4060'',
    preset ''RTX_4060_TI'' 0x2803 ''NVIDIA GeForce RTX 4060 Ti'',
    preset ''RTX_4070'' 0x2786 ''NVIDIA GeForce RTX 4070'',
    preset ''RTX_4070_SUPER'' 0x2783 ''NVIDIA GeForce RTX 4070 SUPER'',
    preset ''RTX_4070_TI'' 0x2782 ''NVIDIA GeForce RTX 4070 Ti'',
    preset ''RTX_4070_TI_SUPER'' 0x2705 ''NVIDIA GeForce RTX 4070 Ti SUPER'',
    preset ''RTX_4080'' 0x2704 ''NVIDIA GeForce RTX 4080'',
    preset ''RTX_4080_SUPER'' 0x2702 ''NVIDIA GeForce RTX 4080 SUPER'',
    preset ''RTX_4090'' 0x2684 ''NVIDIA GeForce RTX 4090'',
    preset ''RTX_5060'' 0x2D04 ''NVIDIA GeForce RTX 5060'',
    preset ''RTX_5060_TI'' 0x2D03 ''NVIDIA GeForce RTX 5060 Ti'',
    preset ''RTX_5070'' 0x2C05 ''NVIDIA GeForce RTX 5070'',
    preset ''RTX_5070_TI'' 0x2C04 ''NVIDIA GeForce RTX 5070 Ti'',
    preset ''RTX_5080'' 0x2C02 ''NVIDIA GeForce RTX 5080'',
    preset ''RTX_5090'' 0x2B85 ''NVIDIA GeForce RTX 5090'']"

definition DEFAULT_PRESET :: ustr where "DEFAULT_PRESET = lit ''RTX_5090''"

definition DEFAULT_VRR_OFFSET_HZ :: u32 where "DEFAULT_VRR_OFFSET_HZ = 3"

definition DECOUPLED_SIMULATION_APPS :: "ustr list" where
  "DECOUPLED_SIMULATION_APPS = [lit ''Marvel-Win64-Shipping.exe'']"

definition to_ascii_uppercase :: "ustr \<Rightarrow> ustr" where
  "to_ascii_uppercase s = map (\<lambda>c. if 97 \<le> c \<and> c \<le> 122 then c - 32 else c) s"

text \<open>\<open>Inl Panic\<close> is the failed \<open>expect\<close> on the default preset.\<close>

definition resolve_spoof_profile :: "ustr option \<Rightarrow> ustr option \<Rightarrow> panic + spoof_profile" where
  "resolve_spoof_profile env_val explicit =
     (let requested = (case explicit of Some s \<Rightarrow> Some s | None \<Rightarrow> env_val);
          key_upper = to_ascii_uppercase (case requested of Some k \<Rightarrow> k | None \<Rightarrow> DEFAULT_PRESET)
      in case map_of NVIDIA_PRESETS key_upper of
           Some p \<Rightarrow> Inr p
         | None \<Rightarrow> (case map_of NVIDIA_PRESETS DEFAULT_PRESET of Some p \<Rightarrow> Inr p | None \<Rightarrow> Inl Panic))"

section \<open>Configuration records\<close>

record app_override =
  app_name :: ustr
  ao_expose_reflex :: "bool option"
  ao_spoof_nvidia :: "bool option"
  ao_force_decoupled :: "bool option"
  ao_fps_cap :: "u32 option"
  ao_vrr_enabled :: "bool option"
  ao_vrr_offset_hz :: "u32 option"
  ao_spoof_model :: "ustr option"

record layer_config =
  expose_reflex :: bool
  spoof_nvidia :: bool
  force_decoupled :: bool
  spoof_profile :: spoof_profile
  fps_cap :: u32
  vrr_enabled :: bool
  vrr_offset_hz :: u32
  per_app :: "app_override list"

definition new_override :: "ustr \<Rightarrow> app_override" where
  "new_override name = \<lparr>app_name = name, ao_expose_reflex = None, ao_spoof_nvidia = None,
     ao_force_decoupled = None, ao_fps_cap = None, ao_vrr_enabled = None, ao_vrr_offset_hz = None,
     ao_spoof_model = None\<rparr>"

section \<open>The per-application file\<close>

definition parse_bool :: "ustr \<Rightarrow> bool option" where
  "parse_bool s =
     (if s = lit ''true'' \<or> s = lit ''1'' then Some True
      else if s = lit ''false'' \<or> s = lit ''0'' then Some False
      else None)"

definition QUOTE :: nat where "QUOTE = 34"

definition strip_quotes :: "ustr \<Rightarrow> ustr" where
  "strip_quotes s =
     (if 2 \<le> byte_len s \<and> s \<noteq> [] \<and> hd s = QUOTE \<and> last s = QUOTE then butlast (tl s) else s)"

text \<open>One \<open>key = value\<close> line of a section.\<close>

definition apply_key :: "ustr \<Rightarrow> ustr \<Rightarrow> app_override \<Rightarrow> app_override" where
  "apply_key k v cur =
     (if k = lit ''expose_reflex'' then cur\<lparr>ao_expose_reflex := parse_bool v\<rparr>
      else if k = lit ''spoof_nvidia'' then cur\<lparr>ao_spoof_nvidia := parse_bool v\<rparr>
      else if k = lit ''force_decoupled'' then cur\<lparr>ao_force_decoupled := parse_bool v\<rparr>
      else if k = lit ''fps_cap'' then cur\<lparr>ao_fps_cap := parse_u32_str v\<rparr>
      else if k = lit ''vrr'' then cur\<lparr>ao_vrr_enabled := parse_bool v\<rparr>
      else if k = lit ''vrr_offset'' then cur\<lparr>ao_vrr_offset_hz := parse_u32_str v\<rparr>
      else if k = lit ''spoof_model'' then cur\<lparr>ao_spoof_model := Some v\<rparr>
      else cur)"

text \<open>The reader's loop state: finished sections and the current one.\<close>

type_synonym toml_state = "app_override list \<times> app_override option"

definition finish_section :: "toml_state \<Rightarrow> app_override list" where
  "finish_section st = (case snd st of Some prev \<Rightarrow> fst st @ [prev] | None \<Rightarrow> fst st)"

definition toml_line :: "ustr \<Rightarrow> toml_state \<Rightarrow> toml_state" where
  "toml_line raw_line st =
     (let line = trim (hd (split_on 35 raw_line)) in
      if line = [] then st
      else
        (case strip_prefix (lit ''[app.'') line of
           Some rest \<Rightarrow>
             (finish_section st, Some (new_override (strip_quotes (trim_end_matches (\<lambda>c. c = 93) rest))))
         | None \<Rightarrow>
             (case snd st of
                None \<Rightarrow> st
              | Some cur \<Rightarrow>
                  (case split_once 61 line of
                     None \<Rightarrow> st
                   | Some (k, v) \<Rightarrow> (fst st, Some (apply_key (trim k) (strip_quotes (trim v)) cur))))))"

text \<open>\<open>str::lines\<close>: fragments between line feeds, without a last empty one and without the CR of a CRLF.\<close>

definition strip_cr :: "ustr \<Rightarrow> ustr" where
  "strip_cr l = (if l \<noteq> [] \<and> last l = 13 then butlast l else l)"

definition lines_of :: "ustr \<Rightarrow> ustr list" where
  "lines_of s =
     (let ls = split_on 10 s in map strip_cr (butlast ls) @ (if last ls = [] then [] else [last ls]))"

definition parse_toml :: "ustr \<Rightarrow> app_override list" where
  "parse_toml contents = finish_section (fold toml_line (lines_of contents) ([], None))"

section \<open>Environment and file\<close>

datatype file_result = Contents ustr | NotFound | ReadError

text \<open>
  \<open>env_var\<close> is \<open>env::var(..).ok()\<close> (absent, or not Unicode, is \<open>None\<close>), \<open>env_os\<close> is
  \<open>env::var_os\<close>.
\<close>

record environ =
  env_var :: "string \<Rightarrow> ustr option"
  env_os :: "string \<Rightarrow> ustr option"
  read_file :: "ustr \<Rightarrow> file_result"

definition path_join :: "ustr \<Rightarrow> ustr \<Rightarrow> ustr" where
  "path_join base c =
     (if c \<noteq> [] \<and> hd c = 47 then c
      else if base = [] \<or> last base = 47 then base @ c else base @ 47 # c)"

definition locate_toml :: "environ \<Rightarrow> ustr option" where
  "locate_toml env =
     (case env_var env ''VKPACE_CONFIG'' of
        Some p \<Rightarrow> Some p
      | None \<Rightarrow>
          map_option (\<lambda>base. path_join (path_join base (lit ''vkpace'')) (lit ''config.toml''))
            (case env_os env ''XDG_CONFIG_HOME'' of
               Some x \<Rightarrow> Some x
             | None \<Rightarrow> map_option (\<lambda>h. path_join h (lit ''.config'')) (env_os env ''HOME'')))"

definition load_toml :: "environ \<Rightarrow> app_override list option" where
  "load_toml env =
     (case locate_toml env of
        None \<Rightarrow> None
      | Some path \<Rightarrow> (case read_file env path of Contents s \<Rightarrow> Some (parse_toml s) | NotFound \<Rightarrow> None | ReadError \<Rightarrow> None))"

definition env_flag :: "environ \<Rightarrow> string \<Rightarrow> bool" where
  "env_flag env name \<longleftrightarrow> env_var env name = Some (lit ''1'')"

definition from_env :: "environ \<Rightarrow> panic + layer_config" where
  "from_env env =
     (case resolve_spoof_profile (env_var env ''VKPACE_SPOOF_MODEL'') None of
        Inl e \<Rightarrow> Inl e
      | Inr profile \<Rightarrow>
          Inr \<lparr>expose_reflex = env_flag env ''VKPACE_REFLEX'',
               spoof_nvidia = env_flag env ''VKPACE_SPOOF_NVIDIA'',
               force_decoupled = env_flag env ''VKPACE_FORCE_DECOUPLED'',
               spoof_profile = profile,
               fps_cap = (case Option.bind (env_var env ''VKPACE_FPS_CAP'') parse_u32_str of Some n \<Rightarrow> n | None \<Rightarrow> 0),
               vrr_enabled = env_flag env ''VKPACE_VRR'',
               vrr_offset_hz = (case Option.bind (env_var env ''VKPACE_VRR_OFFSET'') parse_u32_str of
                  Some n \<Rightarrow> n | None \<Rightarrow> DEFAULT_VRR_OFFSET_HZ),
               per_app = (case load_toml env of Some os \<Rightarrow> os | None \<Rightarrow> [])\<rparr>)"

section \<open>Resolution for one application\<close>

definition or_default :: "'a option \<Rightarrow> 'a \<Rightarrow> 'a" where
  "or_default v d = (case v of Some x \<Rightarrow> x | None \<Rightarrow> d)"

definition apply_override :: "environ \<Rightarrow> app_override \<Rightarrow> layer_config \<Rightarrow> panic + layer_config" where
  "apply_override env o1 c =
     (let out = c\<lparr>expose_reflex := or_default (ao_expose_reflex o1) (expose_reflex c),
                  spoof_nvidia := or_default (ao_spoof_nvidia o1) (spoof_nvidia c),
                  force_decoupled := or_default (ao_force_decoupled o1) (force_decoupled c),
                  fps_cap := or_default (ao_fps_cap o1) (fps_cap c),
                  vrr_enabled := or_default (ao_vrr_enabled o1) (vrr_enabled c),
                  vrr_offset_hz := or_default (ao_vrr_offset_hz o1) (vrr_offset_hz c)\<rparr>
      in case ao_spoof_model o1 of
           None \<Rightarrow> Inr out
         | Some model \<Rightarrow>
             (case resolve_spoof_profile (env_var env ''VKPACE_SPOOF_MODEL'') (Some model) of
                Inl e \<Rightarrow> Inl e
              | Inr p \<Rightarrow> Inr (out\<lparr>spoof_profile := p\<rparr>)))"

definition finalize_for_app :: "environ \<Rightarrow> ustr option \<Rightarrow> layer_config \<Rightarrow> panic + layer_config" where
  "finalize_for_app env name c =
     (case name of
        None \<Rightarrow> Inr c
      | Some n \<Rightarrow>
          (case find (\<lambda>o1. app_name o1 = n) (per_app c) of
             None \<Rightarrow> Inr c
           | Some o1 \<Rightarrow> apply_override env o1 c))"

definition is_known_decoupled :: "ustr option \<Rightarrow> layer_config \<Rightarrow> bool" where
  "is_known_decoupled name c \<longleftrightarrow> force_decoupled c \<or> (\<exists>n. name = Some n \<and> n \<in> set DECOUPLED_SIMULATION_APPS)"

definition fps_cap_min_delay_ns :: "layer_config \<Rightarrow> u64" where
  "fps_cap_min_delay_ns c = (if fps_cap c = 0 then 0 else 1000000000 div ucast (fps_cap c))"

lemma is_known_decoupled_code [code]:
  "is_known_decoupled name c = (force_decoupled c \<or> (case name of None \<Rightarrow> False | Some n \<Rightarrow> n \<in> set DECOUPLED_SIMULATION_APPS))"
  by (simp add: is_known_decoupled_def split: option.split)

section \<open>Rendering a file and reading it back\<close>

definition quoted :: "ustr \<Rightarrow> ustr" where
  "quoted s = QUOTE # s @ [QUOTE]"

definition header_line :: "ustr \<Rightarrow> ustr" where
  "header_line name = lit ''[app.'' @ quoted name @ [93]"

definition key_line :: "string \<Rightarrow> ustr \<Rightarrow> ustr" where
  "key_line k w = lit k @ [32, 61, 32] @ w"

definition show_bool :: "bool \<Rightarrow> ustr" where
  "show_bool b = lit (if b then ''true'' else ''false'')"

definition opt_line :: "string \<Rightarrow> ('a \<Rightarrow> ustr) \<Rightarrow> 'a option \<Rightarrow> ustr list" where
  "opt_line k sh v = (case v of None \<Rightarrow> [] | Some x \<Rightarrow> [key_line k (sh x)])"

definition render_override :: "app_override \<Rightarrow> ustr list" where
  "render_override o1 =
     header_line (app_name o1)
     # opt_line ''expose_reflex'' show_bool (ao_expose_reflex o1)
     @ opt_line ''spoof_nvidia'' show_bool (ao_spoof_nvidia o1)
     @ opt_line ''force_decoupled'' show_bool (ao_force_decoupled o1)
     @ opt_line ''fps_cap'' (\<lambda>n. show_dec (unat n)) (ao_fps_cap o1)
     @ opt_line ''vrr'' show_bool (ao_vrr_enabled o1)
     @ opt_line ''vrr_offset'' (\<lambda>n. show_dec (unat n)) (ao_vrr_offset_hz o1)
     @ opt_line ''spoof_model'' quoted (ao_spoof_model o1)"

definition render_toml :: "app_override list \<Rightarrow> ustr" where
  "render_toml os = concat (map (\<lambda>l. l @ [10]) (concat (map render_override os)))"

text \<open>Text the format can carry: no line feed and no comment sign.\<close>

definition plain_text :: "ustr \<Rightarrow> bool" where
  "plain_text s \<longleftrightarrow> 10 \<notin> set s \<and> 35 \<notin> set s"

definition plain_override :: "app_override \<Rightarrow> bool" where
  "plain_override o1 \<longleftrightarrow> plain_text (app_name o1) \<and> (\<forall>m. ao_spoof_model o1 = Some m \<longrightarrow> plain_text m)"

lemma lit_simps [simp]: "lit [] = []" "lit (c # cs) = of_char c # lit cs"
  by (simp_all add: lit_def)

lemma strip_quotes_quoted [simp]: "strip_quotes (quoted s) = s"
proof -
  have "2 \<le> byte_len (quoted s)"
    using byte_len_simps(2) [of "[QUOTE]" "s @ [QUOTE]"] byte_len_simps(2) [of s "[QUOTE]"]
    by (simp add: quoted_def byte_len_def utf8_width_def QUOTE_def)
  then show ?thesis by (simp add: strip_quotes_def quoted_def butlast_append)
qed

lemma strip_quotes_unquoted: "s \<noteq> [] \<Longrightarrow> hd s \<noteq> QUOTE \<Longrightarrow> strip_quotes s = s"
  by (simp add: strip_quotes_def)

lemma toml_line_header:
  assumes "plain_text name"
  shows "toml_line (header_line name) st = (finish_section st, Some (new_override name))"
proof -
  have "35 \<notin> set (header_line name)"
    using assms by (simp add: header_line_def quoted_def QUOTE_def plain_text_def)
  then have s: "split_on 35 (header_line name) = [header_line name]" by (rule split_on_last)
  have t: "trim (header_line name) = header_line name"
    unfolding trim_def by (rule trim_matches_id) (simp_all add: header_line_def is_ws_def)
  have e: "trim_end_matches (\<lambda>c. c = 93) (quoted name @ [93]) = quoted name"
    by (simp add: trim_end_matches_def quoted_def QUOTE_def)
  have p: "strip_prefix (lit ''[app.'') (header_line name) = Some (quoted name @ [93])"
    by (simp only: header_line_def strip_prefix_append)
  have n: "header_line name \<noteq> []" by (simp add: header_line_def)
  show ?thesis
    using n by (simp only: toml_line_def s t p e list.sel Let_def if_False option.case strip_quotes_quoted)
qed

definition value_ok :: "ustr \<Rightarrow> bool" where
  "value_ok w \<longleftrightarrow> w \<noteq> [] \<and> \<not> is_ws (hd w) \<and> \<not> is_ws (last w) \<and> 35 \<notin> set w \<and> 10 \<notin> set w"

definition key_ok :: "string \<Rightarrow> bool" where
  "key_ok k \<longleftrightarrow> k \<noteq> [] \<and> (\<forall>c\<in>set (lit k). \<not> is_ws c \<and> c \<noteq> 10 \<and> c \<noteq> 35 \<and> c \<noteq> 61 \<and> c \<noteq> 91)"

lemma trim_right_space: "s \<noteq> [] \<Longrightarrow> \<not> is_ws (hd s) \<Longrightarrow> \<not> is_ws (last s) \<Longrightarrow> trim (s @ [32]) = s"
  by (simp add: trim_def trim_matches_def trim_end_matches_def dropWhile_hd hd_rev hd_append is_ws_def)

lemma trim_left_space: "s \<noteq> [] \<Longrightarrow> \<not> is_ws (hd s) \<Longrightarrow> \<not> is_ws (last s) \<Longrightarrow> trim (32 # s) = s"
  using trim_matches_id [of s is_ws] by (simp add: trim_def trim_matches_def is_ws_def)

lemma toml_line_key:
  assumes k: "key_ok k" and w: "value_ok w"
  shows "toml_line (key_line k w) (os, Some cur) = (os, Some (apply_key (lit k) (strip_quotes w) cur))"
proof -
  have ne: "lit k \<noteq> []" using k by (simp add: key_ok_def lit_def)
  have all: "\<forall>c\<in>set (lit k). \<not> is_ws c \<and> c \<noteq> 10 \<and> c \<noteq> 35 \<and> c \<noteq> 61 \<and> c \<noteq> 91"
    using k by (simp add: key_ok_def)
  then have kne: "lit k \<noteq> []" "\<not> is_ws (hd (lit k))" "\<not> is_ws (last (lit k))" "35 \<notin> set (lit k)" "61 \<notin> set (lit k)" "hd (lit k) \<noteq> 91"
    using ne hd_in_set [OF ne] last_in_set [OF ne] by auto
  have hd: "hd (key_line k w) = hd (lit k)" using kne(1) by (simp add: key_line_def)
  have ne: "key_line k w \<noteq> []" by (simp add: key_line_def)
  have "35 \<notin> set (key_line k w)" using kne w by (simp add: key_line_def value_ok_def)
  then have s: "split_on 35 (key_line k w) = [key_line k w]" by (rule split_on_last)
  have t: "trim (key_line k w) = key_line k w"
    unfolding trim_def using hd ne kne w by (intro trim_matches_id) (simp_all add: key_line_def value_ok_def)
  have p: "strip_prefix (lit ''[app.'') (key_line k w) = None"
    using hd ne kne(6) by (cases "key_line k w") (simp_all add: strip_prefix_def)
  have o: "split_once 61 (key_line k w) = Some (lit k @ [32], 32 # w)"
    using split_once_append [of 61 "lit k @ [32]" "32 # w"] kne(5) by (simp add: key_line_def)
  have tk: "trim (lit k @ [32]) = lit k" using trim_right_space [OF kne(1-3)] .
  have tv: "trim (32 # w) = w" using trim_left_space w by (simp add: value_ok_def)
  show ?thesis
    using ne by (simp only: toml_line_def s t p o tk tv list.sel Let_def if_False option.case prod.case snd_conv fst_conv)
qed

lemma digits_value_ok:
  "value_ok (show_dec n)" "strip_quotes (show_dec n) = show_dec n"
proof -
  have ne: "show_dec n \<noteq> []" by (simp add: show_dec_def show_radix_nonempty)
  have d: "\<forall>c\<in>set (show_dec n). (48 \<le> c \<and> c \<le> 57) \<or> (97 \<le> c \<and> c \<le> 102)"
    unfolding show_dec_def by (rule show_radix_digits) simp_all
  have e: "(48 \<le> hd (show_dec n) \<and> hd (show_dec n) \<le> 57) \<or> (97 \<le> hd (show_dec n) \<and> hd (show_dec n) \<le> 102)"
    "(48 \<le> last (show_dec n) \<and> last (show_dec n) \<le> 57) \<or> (97 \<le> last (show_dec n) \<and> last (show_dec n) \<le> 102)"
    using d hd_in_set [OF ne] last_in_set [OF ne] by blast+
  have "10 \<notin> set (show_dec n)" "35 \<notin> set (show_dec n)" using d by force+
  then show "value_ok (show_dec n)" using ne e by (auto simp: value_ok_def is_ws_def)
  show "strip_quotes (show_dec n) = show_dec n"
    using e by (intro strip_quotes_unquoted [OF ne]) (auto simp: QUOTE_def)
qed

lemma parse_u32_show: "parse_u32_str (show_dec (unat n)) = Some n"
proof -
  have "unat n < 2 ^ 32" using unsigned_less [of n] by simp
  then show ?thesis by (simp add: parse_u32_str_def show_dec_def parse_uint_show)
qed

lemma bool_value_ok: "value_ok (show_bool b)" "strip_quotes (show_bool b) = show_bool b" "parse_bool (show_bool b) = Some b"
  by (simp_all add: value_ok_def show_bool_def is_ws_def strip_quotes_def QUOTE_def parse_bool_def del: lit_simps)
    (simp_all)

lemma quoted_value_ok: "plain_text m \<Longrightarrow> value_ok (quoted m)"
  by (simp add: value_ok_def quoted_def plain_text_def QUOTE_def is_ws_def)

text \<open>An optional line, when present, sets exactly the value it was rendered from.\<close>

lemma opt_line_step:
  assumes "key_ok k" and "\<And>x. v = Some x \<Longrightarrow> value_ok (sh x)"
  shows "fold toml_line (opt_line k sh v) (os, Some cur)
    = (os, Some (case v of None \<Rightarrow> cur | Some x \<Rightarrow> apply_key (lit k) (strip_quotes (sh x)) cur))"
  using assms by (cases v) (simp_all add: opt_line_def toml_line_key)

lemma keys_ok:
  "key_ok ''expose_reflex''" "key_ok ''spoof_nvidia''" "key_ok ''force_decoupled''" "key_ok ''fps_cap''"
  "key_ok ''vrr''" "key_ok ''vrr_offset''" "key_ok ''spoof_model''"
  by (simp_all add: key_ok_def is_ws_def)

text \<open>The keys set the fields they name.\<close>

lemma key_sets:
  "ao_expose_reflex cur = None \<Longrightarrow>
     (case v1 of None \<Rightarrow> cur | Some x \<Rightarrow> apply_key (lit ''expose_reflex'') (strip_quotes (show_bool x)) cur) = cur\<lparr>ao_expose_reflex := v1\<rparr>"
  "ao_spoof_nvidia cur = None \<Longrightarrow>
     (case v2 of None \<Rightarrow> cur | Some x \<Rightarrow> apply_key (lit ''spoof_nvidia'') (strip_quotes (show_bool x)) cur) = cur\<lparr>ao_spoof_nvidia := v2\<rparr>"
  "ao_force_decoupled cur = None \<Longrightarrow>
     (case v3 of None \<Rightarrow> cur | Some x \<Rightarrow> apply_key (lit ''force_decoupled'') (strip_quotes (show_bool x)) cur) = cur\<lparr>ao_force_decoupled := v3\<rparr>"
  "ao_fps_cap cur = None \<Longrightarrow>
     (case v4 of None \<Rightarrow> cur | Some x \<Rightarrow> apply_key (lit ''fps_cap'') (strip_quotes ((\<lambda>n. show_dec (unat n)) x)) cur) = cur\<lparr>ao_fps_cap := v4\<rparr>"
  "ao_vrr_enabled cur = None \<Longrightarrow>
     (case v5 of None \<Rightarrow> cur | Some x \<Rightarrow> apply_key (lit ''vrr'') (strip_quotes (show_bool x)) cur) = cur\<lparr>ao_vrr_enabled := v5\<rparr>"
  "ao_vrr_offset_hz cur = None \<Longrightarrow>
     (case v6 of None \<Rightarrow> cur | Some x \<Rightarrow> apply_key (lit ''vrr_offset'') (strip_quotes ((\<lambda>n. show_dec (unat n)) x)) cur) = cur\<lparr>ao_vrr_offset_hz := v6\<rparr>"
  "ao_spoof_model cur = None \<Longrightarrow>
     (case v7 of None \<Rightarrow> cur | Some x \<Rightarrow> apply_key (lit ''spoof_model'') (strip_quotes (quoted x)) cur) = cur\<lparr>ao_spoof_model := v7\<rparr>"
  by (simp_all add: apply_key_def bool_value_ok(2,3) digits_value_ok(2) parse_u32_show del: lit_simps split: option.split)

lemma render_override_read:
  assumes "plain_override o1"
  shows "fold toml_line (render_override o1) st = (finish_section st, Some o1)"
proof -
  have m: "\<And>m. ao_spoof_model o1 = Some m \<Longrightarrow> value_ok (quoted m)"
    using assms by (simp add: plain_override_def quoted_value_ok)
  have sp: "fold toml_line (opt_line ''spoof_model'' quoted (ao_spoof_model o1)) (os, Some cur)
      = (os, Some (case ao_spoof_model o1 of None \<Rightarrow> cur | Some x \<Rightarrow> apply_key (lit ''spoof_model'') (strip_quotes (quoted x)) cur))"
    for os cur by (rule opt_line_step [OF keys_ok(7)]) (rule m)
  have n: "plain_text (app_name o1)" using assms by (simp add: plain_override_def)
  note steps = opt_line_step [OF keys_ok(1) bool_value_ok(1)]
      opt_line_step [OF keys_ok(2) bool_value_ok(1)] opt_line_step [OF keys_ok(3) bool_value_ok(1)]
      opt_line_step [OF keys_ok(4) digits_value_ok(1)] opt_line_step [OF keys_ok(5) bool_value_ok(1)]
      opt_line_step [OF keys_ok(6) digits_value_ok(1)]
  have "fold toml_line (render_override o1) st = (finish_section st, Some ((new_override (app_name o1))
      \<lparr>ao_expose_reflex := ao_expose_reflex o1, ao_spoof_nvidia := ao_spoof_nvidia o1,
       ao_force_decoupled := ao_force_decoupled o1, ao_fps_cap := ao_fps_cap o1, ao_vrr_enabled := ao_vrr_enabled o1,
       ao_vrr_offset_hz := ao_vrr_offset_hz o1, ao_spoof_model := ao_spoof_model o1\<rparr>))"
    unfolding render_override_def fold_simps fold_append comp_apply toml_line_header [OF n] steps sp
    by (simp add: key_sets new_override_def)
  then show ?thesis by (simp add: new_override_def)
qed

lemma renders_read:
  "\<forall>o1\<in>set os. plain_override o1 \<Longrightarrow>
     finish_section (fold toml_line (concat (map render_override os)) st) = finish_section st @ os"
proof (induction os arbitrary: st)
  case (Cons o1 os)
  then show ?case
    using render_override_read [of o1 st] by (simp add: finish_section_def)
qed simp

lemma split_lines: "\<forall>l\<in>set ls. 10 \<notin> set l \<Longrightarrow> split_on 10 (concat (map (\<lambda>l. l @ [10]) ls)) = ls @ [[]]"
  by (induction ls) (simp_all add: split_on_append)

lemma lines_of_rendered:
  assumes "\<forall>l\<in>set ls. 10 \<notin> set l \<and> l \<noteq> [] \<and> last l \<noteq> 13"
  shows "lines_of (concat (map (\<lambda>l. l @ [10]) ls)) = ls"
proof -
  have "map strip_cr ls = ls" using assms by (induction ls) (simp_all add: strip_cr_def)
  then show ?thesis using split_lines [of ls] assms by (simp add: lines_of_def butlast_append)
qed

lemma opt_line_clean:
  assumes "key_ok k" and "\<And>x. v = Some x \<Longrightarrow> value_ok (sh x)"
  shows "\<forall>l\<in>set (opt_line k sh v). 10 \<notin> set l \<and> l \<noteq> [] \<and> last l \<noteq> 13"
proof (cases v)
  case (Some x)
  have "10 \<notin> set (lit k)" using assms(1) by (auto simp: key_ok_def)
  moreover have "sh x \<noteq> []" "10 \<notin> set (sh x)" "\<not> is_ws (last (sh x))" using assms(2) Some by (simp_all add: value_ok_def)
  moreover from this(3) have "last (sh x) \<noteq> 13" by (auto simp: is_ws_def)
  ultimately show ?thesis using Some by (simp add: opt_line_def key_line_def)
qed (simp add: opt_line_def)

lemma render_override_clean:
  assumes "plain_override o1"
  shows "\<forall>l\<in>set (render_override o1). 10 \<notin> set l \<and> l \<noteq> [] \<and> last l \<noteq> 13"
proof -
  have m: "\<And>m. ao_spoof_model o1 = Some m \<Longrightarrow> value_ok (quoted m)"
    using assms by (simp add: plain_override_def quoted_value_ok)
  have "10 \<notin> set (header_line (app_name o1)) \<and> header_line (app_name o1) \<noteq> [] \<and> last (header_line (app_name o1)) \<noteq> 13"
    using assms by (simp add: header_line_def quoted_def QUOTE_def plain_override_def plain_text_def)
  moreover have "\<forall>l\<in>set (opt_line ''spoof_model'' quoted (ao_spoof_model o1)). 10 \<notin> set l \<and> l \<noteq> [] \<and> last l \<noteq> 13"
    by (rule opt_line_clean [OF keys_ok(7)]) (rule m)
  ultimately show ?thesis
    unfolding render_override_def list.set(2) set_append ball_Un ball_simps(7)
    by (intro conjI opt_line_clean [OF keys_ok(1)] opt_line_clean [OF keys_ok(2)] opt_line_clean [OF keys_ok(3)]
      opt_line_clean [OF keys_ok(4)] opt_line_clean [OF keys_ok(5)] opt_line_clean [OF keys_ok(6)]
      bool_value_ok(1) digits_value_ok(1)) blast+
qed

section \<open>Presets resolve\<close>

lemma preset_lookup:
  "distinct (map fst NVIDIA_PRESETS)"
  "map_of NVIDIA_PRESETS DEFAULT_PRESET = Some \<lparr>device_id = 0x2B85, device_name = lit ''NVIDIA GeForce RTX 5090''\<rparr>"
  by (simp_all add: NVIDIA_PRESETS_def preset_def DEFAULT_PRESET_def del: lit_simps)

lemma resolve_ok: "\<exists>p. resolve_spoof_profile e x = Inr p"
  by (auto simp: resolve_spoof_profile_def preset_lookup(2) Let_def split: option.split)

section \<open>Properties\<close>



text \<open>
  Resolving the spoofed GPU never fails and always yields a preset of the table: the
  application's model comes before the environment's, keys are compared without regard to
  case, and an unknown or missing key falls back to the RTX 5090.
\<close>

theorem spoof_profile_resolves:
  "\<exists>p. resolve_spoof_profile env_val explicit = Inr p \<and> p \<in> snd ` set NVIDIA_PRESETS
     \<and> (let key = to_ascii_uppercase (or_default explicit (or_default env_val DEFAULT_PRESET)) in
         (\<forall>q. (key, q) \<in> set NVIDIA_PRESETS \<longrightarrow> p = q)
         \<and> (key \<notin> fst ` set NVIDIA_PRESETS \<longrightarrow> device_id p = 0x2B85))"
proof -
  let ?key = "to_ascii_uppercase (or_default explicit (or_default env_val DEFAULT_PRESET))"
  have key: "to_ascii_uppercase (case (case explicit of Some s \<Rightarrow> Some s | None \<Rightarrow> env_val) of Some k \<Rightarrow> k | None \<Rightarrow> DEFAULT_PRESET) = ?key"
    by (simp add: or_default_def split: option.split)
  show ?thesis
  proof (cases "map_of NVIDIA_PRESETS ?key")
    case None
    then have no: "?key \<notin> fst ` set NVIDIA_PRESETS" by (simp add: map_of_eq_None_iff)
    then have "\<forall>q. (?key, q) \<notin> set NVIDIA_PRESETS" by (metis fst_conv image_eqI)
    moreover have "resolve_spoof_profile env_val explicit
        = Inr \<lparr>device_id = 0x2B85, device_name = lit ''NVIDIA GeForce RTX 5090''\<rparr>"
      using None by (simp add: resolve_spoof_profile_def key preset_lookup(2) Let_def)
    moreover have "\<lparr>device_id = 0x2B85, device_name = lit ''NVIDIA GeForce RTX 5090''\<rparr> \<in> snd ` set NVIDIA_PRESETS"
      using map_of_SomeD [OF preset_lookup(2)] by (rule rev_image_eqI) simp
    ultimately show ?thesis unfolding Let_def
      by (intro exI [of _ "\<lparr>device_id = 0x2B85, device_name = lit ''NVIDIA GeForce RTX 5090''\<rparr>"] conjI) simp_all
  next
    case (Some p)
    then have mem: "(?key, p) \<in> set NVIDIA_PRESETS" by (rule map_of_SomeD)
    then have "p \<in> snd ` set NVIDIA_PRESETS" "?key \<in> fst ` set NVIDIA_PRESETS"
      by (metis snd_conv image_eqI, metis fst_conv image_eqI)
    moreover have "p = q" if "(?key, q) \<in> set NVIDIA_PRESETS" for q
      using map_of_is_SomeI [OF preset_lookup(1) that] Some by simp
    moreover have "resolve_spoof_profile env_val explicit = Inr p"
      using Some by (simp add: resolve_spoof_profile_def key Let_def)
    ultimately show ?thesis unfolding Let_def by blast
  qed
qed

text \<open>
  Precedence: for an application, every field of the final configuration is the value
  of the first section of the file that names it, if that section sets the field, and
  otherwise what the environment gives, with the documented defaults; the resolution never
  fails, and an application without a section gets the environment's configuration.
\<close>

theorem config_precedence:
  "\<exists>base out. from_env env = Inr base \<and> finalize_for_app env (Some name) base = Inr out
    \<and> (case find (\<lambda>o1. app_name o1 = name) (or_default (load_toml env) []) of
         None \<Rightarrow> out = base
       | Some o1 \<Rightarrow>
           expose_reflex out = or_default (ao_expose_reflex o1) (env_var env ''VKPACE_REFLEX'' = Some (lit ''1''))
         \<and> spoof_nvidia out = or_default (ao_spoof_nvidia o1) (env_var env ''VKPACE_SPOOF_NVIDIA'' = Some (lit ''1''))
         \<and> force_decoupled out = or_default (ao_force_decoupled o1) (env_var env ''VKPACE_FORCE_DECOUPLED'' = Some (lit ''1''))
         \<and> vrr_enabled out = or_default (ao_vrr_enabled o1) (env_var env ''VKPACE_VRR'' = Some (lit ''1''))
         \<and> fps_cap out = or_default (ao_fps_cap o1) (or_default (Option.bind (env_var env ''VKPACE_FPS_CAP'') parse_u32_str) 0)
         \<and> vrr_offset_hz out = or_default (ao_vrr_offset_hz o1)
             (or_default (Option.bind (env_var env ''VKPACE_VRR_OFFSET'') parse_u32_str) 3)
         \<and> Inr (spoof_profile out) = resolve_spoof_profile (env_var env ''VKPACE_SPOOF_MODEL'') (ao_spoof_model o1))"
proof -
  obtain p where p: "resolve_spoof_profile (env_var env ''VKPACE_SPOOF_MODEL'') None = Inr p"
    using resolve_ok by blast
  define base where "base = \<lparr>expose_reflex = (env_var env ''VKPACE_REFLEX'' = Some (lit ''1'')),
      spoof_nvidia = (env_var env ''VKPACE_SPOOF_NVIDIA'' = Some (lit ''1'')),
      force_decoupled = (env_var env ''VKPACE_FORCE_DECOUPLED'' = Some (lit ''1'')), spoof_profile = p,
      fps_cap = or_default (Option.bind (env_var env ''VKPACE_FPS_CAP'') parse_u32_str) 0,
      vrr_enabled = (env_var env ''VKPACE_VRR'' = Some (lit ''1'')),
      vrr_offset_hz = or_default (Option.bind (env_var env ''VKPACE_VRR_OFFSET'') parse_u32_str) 3,
      per_app = or_default (load_toml env) []\<rparr>"
  have "from_env env = Inr base"
    using p by (simp add: from_env_def env_flag_def or_default_def DEFAULT_VRR_OFFSET_HZ_def base_def
        del: lit_simps cong: option.case_cong)
  note b = this
  have b9: "spoof_profile base = p" by (simp add: base_def)
  show ?thesis
  proof (cases "find (\<lambda>o1. app_name o1 = name) (or_default (load_toml env) [])")
    case None
    then show ?thesis using b by (simp add: finalize_for_app_def base_def)
  next
    case (Some o1)
    obtain q where q: "resolve_spoof_profile (env_var env ''VKPACE_SPOOF_MODEL'') (ao_spoof_model o1) = Inr q"
      using resolve_ok by blast
    have "\<exists>out. apply_override env o1 base = Inr out \<and> spoof_profile out = q
        \<and> expose_reflex out = or_default (ao_expose_reflex o1) (expose_reflex base)
        \<and> spoof_nvidia out = or_default (ao_spoof_nvidia o1) (spoof_nvidia base)
        \<and> force_decoupled out = or_default (ao_force_decoupled o1) (force_decoupled base)
        \<and> vrr_enabled out = or_default (ao_vrr_enabled o1) (vrr_enabled base)
        \<and> fps_cap out = or_default (ao_fps_cap o1) (fps_cap base)
        \<and> vrr_offset_hz out = or_default (ao_vrr_offset_hz o1) (vrr_offset_hz base)"
      using q p b9 by (cases "ao_spoof_model o1") (simp_all add: apply_override_def Let_def)
    then show ?thesis using Some b q by (auto simp: finalize_for_app_def base_def)
  qed
qed

end
