(* ===== verification/AntiLag.thy ===== *)
theory AntiLag
  imports Span Markers Delay
begin

text \<open>
  The AMD anti-lag strategy (\<open>src/strategy/anti_lag.rs\<close>, \<open>src/amd_anti_lag.rs\<close>): the input
  and present markers of the application, the window in which submissions are tracked, the
  spans of the queues and the pacing at the next input.
\<close>

section \<open>Data\<close>

definition ANTI_LAG_MODE_OFF :: int where "ANTI_LAG_MODE_OFF = 2"
definition ANTI_LAG_STAGE_INPUT :: int where "ANTI_LAG_STAGE_INPUT = 0"
definition ANTI_LAG_STAGE_PRESENT :: int where "ANTI_LAG_STAGE_PRESENT = 1"

record presentation_info =
  pi_stage :: int
  pi_frame_index :: u64

record anti_lag_data =
  al_mode :: int
  al_max_fps :: u32
  al_presentation :: "presentation_info option"

record anti_lag_state =
  frame_index :: "u64 option"
  al_enabled :: bool
  al_delay :: delay_controller

record anti_lag =
  al_state :: anti_lag_state
  al_markers :: history

definition anti_lag_new :: "bool \<Rightarrow> anti_lag" where
  "anti_lag_new decoupled =
     \<lparr>al_state = \<lparr>frame_index = None, al_enabled = False, al_delay = delay_controller_new decoupled\<rparr>,
      al_markers = history_new\<rparr>"

definition should_track_submissions :: "anti_lag \<Rightarrow> bool" where
  "should_track_submissions s \<longleftrightarrow> al_enabled (al_state s) \<and> frame_index (al_state s) \<noteq> None"

definition compute_min_delay_ns :: "u32 \<Rightarrow> u64" where
  "compute_min_delay_ns max_fps = (if max_fps = 0 then 0 else 1000000000 div ucast max_fps)"

section \<open>Queues\<close>

text \<open>The queue strategy is one optional span.\<close>

type_synonym 'h anti_lag_queue = "'h submission_span option"

definition al_notify_submit :: "'h \<Rightarrow> 'h anti_lag_queue \<Rightarrow> 'h anti_lag_queue" where
  "al_notify_submit h q = extend_or_init h q"

definition take_submission_span :: "'h anti_lag_queue \<Rightarrow> 'h submission_span option \<times> 'h anti_lag_queue" where
  "take_submission_span q = (q, None)"

interpretation alq: submission_tracker "\<lambda>_ :: unit. al_notify_submit" "\<lambda>_. take_submission_span" "\<lambda>_ _. True"
  by unfold_locales (simp_all add: al_notify_submit_def take_submission_span_def)

text \<open>Taking the span of every queue, in the order the device iterates them.\<close>

fun steal_spans :: "'h anti_lag_queue list \<Rightarrow> 'h submission_span list \<times> 'h anti_lag_queue list" where
  "steal_spans [] = ([], [])"
| "steal_spans (q # qs) =
     (case take_submission_span q of (sp, q') \<Rightarrow>
        (case steal_spans qs of (work, qs') \<Rightarrow>
           ((case sp of Some s \<Rightarrow> s # work | None \<Rightarrow> work), q' # qs')))"

section \<open>The update\<close>

text \<open>
  What the first critical section decides: stop here, or go on to wait and pace. The clock
  readings of the two present records are consecutive; \<open>k\<close> is the next one.
\<close>

definition anti_lag_stage ::
  "(nat \<Rightarrow> u64) \<Rightarrow> u64 \<Rightarrow> anti_lag_data \<Rightarrow> anti_lag \<Rightarrow> nat \<Rightarrow> panic + (u64 option \<times> anti_lag \<times> nat)" where
  "anti_lag_stage clk layer_cap d s k =
     (let st = (al_state s)\<lparr>al_enabled := (al_mode d \<noteq> ANTI_LAG_MODE_OFF)\<rparr>;
          min_delay = max (compute_min_delay_ns (al_max_fps d)) layer_cap
      in case al_presentation d of
           None \<Rightarrow> Inr (None, s\<lparr>al_state := st\<rparr>, k)
         | Some pres \<Rightarrow>
             if \<not> al_enabled st then Inr (None, s\<lparr>al_state := st\<rparr>, k)
             else if pi_stage pres = ANTI_LAG_STAGE_PRESENT then
               (case record_marker (clk k) (pi_frame_index pres) PRESENT_END (al_markers s) of
                  Inl e \<Rightarrow> Inl e
                | Inr h \<Rightarrow>
                    (case record_present_actual (pi_frame_index pres) (clk (Suc k)) h of
                       Inl e \<Rightarrow> Inl e
                     | Inr h' \<Rightarrow> Inr (None, s\<lparr>al_state := st\<lparr>frame_index := None\<rparr>, al_markers := h'\<rparr>, Suc (Suc k))))
             else if pi_stage pres = ANTI_LAG_STAGE_INPUT then
               (case record_marker (clk k) (pi_frame_index pres) INPUT_SAMPLE (al_markers s) of
                  Inl e \<Rightarrow> Inl e
                | Inr h \<Rightarrow> Inr (Some min_delay,
                    s\<lparr>al_state := st\<lparr>frame_index := Some (pi_frame_index pres)\<rparr>, al_markers := h\<rparr>, Suc k))
             else Inr (Some min_delay, s\<lparr>al_state := st\<lparr>frame_index := Some (pi_frame_index pres)\<rparr>\<rparr>, k))"

text \<open>
  \<open>notify_update\<close>: \<open>wait_ends\<close> says that waiting for a span's last timestamp returns (it blocks
  without a deadline, only when the device has a clock). \<open>None\<close> is a call that never returns.
\<close>

definition notify_update ::
  "(nat \<Rightarrow> u64) \<Rightarrow> bool \<Rightarrow> ('h submission_span \<Rightarrow> bool) \<Rightarrow> u64 \<Rightarrow> anti_lag_data
     \<Rightarrow> anti_lag \<times> 'h anti_lag_queue list \<times> nat
     \<Rightarrow> (panic + 'h submission_span list \<times> anti_lag \<times> 'h anti_lag_queue list \<times> nat) option" where
  "notify_update clk has_clock wait_ends layer_cap d x =
     (case x of (s, qs, k) \<Rightarrow>
        (case anti_lag_stage clk layer_cap d s k of
           Inl e \<Rightarrow> Some (Inl e)
         | Inr (None, s', k') \<Rightarrow> Some (Inr ([], s', qs, k'))
         | Inr (Some min_delay, s', k') \<Rightarrow>
             (case steal_spans qs of (work, qs') \<Rightarrow>
                if has_clock \<and> \<not> list_all wait_ends work then None
                else
                  (case delay clk min_delay (al_delay (al_state s')) k' of
                     None \<Rightarrow> None
                   | Some (Inl e) \<Rightarrow> Some (Inl e)
                   | Some (Inr (dc, k'')) \<Rightarrow>
                       Some (Inr (work, s'\<lparr>al_state := (al_state s')\<lparr>al_delay := dc\<rparr>\<rparr>, qs', k''))))))"

section \<open>The tracking window\<close>

text \<open>Whether an update opens the window, closes it, or leaves it.\<close>

definition window_after :: "anti_lag_data \<Rightarrow> u64 option \<Rightarrow> u64 option" where
  "window_after d w =
     (case al_presentation d of
        None \<Rightarrow> w
      | Some p \<Rightarrow>
          if al_mode d = ANTI_LAG_MODE_OFF then w
          else if pi_stage p = ANTI_LAG_STAGE_PRESENT then None
          else Some (pi_frame_index p))"

lemma anti_lag_stage_ok:
  assumes "history_inv (al_markers s)"
  shows "\<exists>go s' k'. anti_lag_stage clk cap d s k = Inr (go, s', k') \<and> history_inv (al_markers s')
    \<and> al_enabled (al_state s') = (al_mode d \<noteq> ANTI_LAG_MODE_OFF)
    \<and> frame_index (al_state s') = window_after d (frame_index (al_state s))
    \<and> al_delay (al_state s') = al_delay (al_state s)
    \<and> (go \<noteq> None \<longleftrightarrow> al_mode d \<noteq> ANTI_LAG_MODE_OFF \<and> (\<exists>p. al_presentation d = Some p \<and> pi_stage p \<noteq> ANTI_LAG_STAGE_PRESENT))
    \<and> (\<forall>m. go = Some m \<longrightarrow> m = max (compute_min_delay_ns (al_max_fps d)) cap)"
proof (cases "al_presentation d")
  case None
  then show ?thesis using assms by (simp add: anti_lag_stage_def window_after_def Let_def)
next
  case (Some p)
  obtain h1 where h1: "record_marker (clk k) (pi_frame_index p) PRESENT_END (al_markers s) = Inr h1" "history_inv h1"
    using record_marker_effect [OF assms] by blast
  obtain h2 where h2: "record_present_actual (pi_frame_index p) (clk (Suc k)) h1 = Inr h2" "history_inv h2"
    using record_actual_effect [OF h1(2)] by blast
  obtain h3 where h3: "record_marker (clk k) (pi_frame_index p) INPUT_SAMPLE (al_markers s) = Inr h3" "history_inv h3"
    using record_marker_effect [OF assms] by blast
  show ?thesis
    using Some assms h1 h2 h3
    by (simp add: anti_lag_stage_def window_after_def Let_def ANTI_LAG_STAGE_INPUT_def ANTI_LAG_STAGE_PRESENT_def)
qed

lemma steal_spans_all: "steal_spans qs = (List.map_filter id qs, map (\<lambda>_. None) qs)"
  by (induction qs) (auto simp: take_submission_span_def List.map_filter_simps split: option.split)

text \<open>A sequence of updates, each with the queues' submissions before it.\<close>

fun run_updates ::
  "(nat \<Rightarrow> u64) \<Rightarrow> bool \<Rightarrow> ('h submission_span \<Rightarrow> bool) \<Rightarrow> u64 \<Rightarrow> anti_lag_data list
     \<Rightarrow> anti_lag \<times> 'h anti_lag_queue list \<times> nat
     \<Rightarrow> (panic + anti_lag \<times> 'h anti_lag_queue list \<times> nat) option" where
  "run_updates clk hc we cap [] x = Some (Inr x)"
| "run_updates clk hc we cap (d # ds) x =
     (case notify_update clk hc we cap d x of
        None \<Rightarrow> None
      | Some (Inl e) \<Rightarrow> Some (Inl e)
      | Some (Inr (work, y)) \<Rightarrow> run_updates clk hc we cap ds y)"

lemma notify_update_window:
  assumes "history_inv (al_markers s)" and "notify_update clk hc we cap d (s, qs, k) = Some (Inr (work, s', qs', k'))"
  shows "history_inv (al_markers s') \<and> al_enabled (al_state s') = (al_mode d \<noteq> ANTI_LAG_MODE_OFF)
    \<and> frame_index (al_state s') = window_after d (frame_index (al_state s))"
proof -
  obtain go s1 k1 where a: "anti_lag_stage clk cap d s k = Inr (go, s1, k1)" "history_inv (al_markers s1)"
      "al_enabled (al_state s1) = (al_mode d \<noteq> ANTI_LAG_MODE_OFF)"
      "frame_index (al_state s1) = window_after d (frame_index (al_state s))"
    using anti_lag_stage_ok [OF assms(1)] by blast
  show ?thesis
    using assms(2) a by (auto simp: notify_update_def split: option.splits prod.splits if_splits sum.splits)
qed

lemma run_updates_window:
  "history_inv (al_markers s) \<Longrightarrow> run_updates clk hc we cap ds (s, qs, k) = Some (Inr (s', qs', k')) \<Longrightarrow>
     frame_index (al_state s') = fold window_after ds (frame_index (al_state s))
     \<and> (ds \<noteq> [] \<longrightarrow> al_enabled (al_state s') = (al_mode (last ds) \<noteq> ANTI_LAG_MODE_OFF))"
proof (induction ds arbitrary: s qs k)
  case (Cons d ds)
  obtain work s1 qs1 k1 where n: "notify_update clk hc we cap d (s, qs, k) = Some (Inr (work, s1, qs1, k1))"
    using Cons.prems(2) by (auto split: option.splits sum.splits)
  note w = notify_update_window [OF Cons.prems(1) n]
  then show ?case
    using Cons.IH [of s1 qs1 k1] Cons.prems(2) n by (cases ds) auto
qed simp

section \<open>Properties\<close>

text \<open>
  The hot-path gate is the application's input-to-present window: after any sequence of
  updates that return, submissions are tracked exactly when the last update did not turn
  the mode off and the last staged marker accepted while the mode was on was not a
  present; the frame index is that marker's.
\<close>

theorem anti_lag_window:
  assumes "run_updates clk hc we cap ds (anti_lag_new dec, qs, k) = Some (Inr (s, qs', k'))" and "ds \<noteq> []"
  shows "should_track_submissions s
      \<longleftrightarrow> al_mode (last ds) \<noteq> ANTI_LAG_MODE_OFF \<and> fold window_after ds None \<noteq> None"
  using run_updates_window [OF _ assms(1)] assms(2)
  by (simp add: anti_lag_new_def history_new_inv should_track_submissions_def)

theorem anti_lag_window_witness:
  "\<exists>s qs k. run_updates (\<lambda>_. 5) False (\<lambda>_. True) 0
      [\<lparr>al_mode = 1, al_max_fps = 0, al_presentation = Some \<lparr>pi_stage = 7, pi_frame_index = 3\<rparr>\<rparr>]
      (anti_lag_new False, [] :: nat anti_lag_queue list, 0) = Some (Inr (s, qs, k)) \<and> should_track_submissions s"
proof -
  let ?ds = "[\<lparr>al_mode = 1, al_max_fps = 0, al_presentation = Some \<lparr>pi_stage = 7, pi_frame_index = 3\<rparr>\<rparr>]"
  have "\<exists>s qs k. run_updates (\<lambda>_. 5) False (\<lambda>_. True) 0 ?ds
      (anti_lag_new False, [] :: nat anti_lag_queue list, 0) = Some (Inr (s, qs, k))"
    by (simp add: notify_update_def anti_lag_stage_def Let_def anti_lag_new_def delay_def delay_controller_new_def
        ANTI_LAG_MODE_OFF_def ANTI_LAG_STAGE_INPUT_def ANTI_LAG_STAGE_PRESENT_def)
  then obtain s qs k where r: "run_updates (\<lambda>_. 5) False (\<lambda>_. True) 0 ?ds
      (anti_lag_new False, [] :: nat anti_lag_queue list, 0) = Some (Inr (s, qs, k))" by blast
  have "should_track_submissions s"
    using anti_lag_window [OF r] by (simp add: window_after_def ANTI_LAG_MODE_OFF_def ANTI_LAG_STAGE_PRESENT_def)
  then show ?thesis using r by blast
qed

definition takes_input :: "anti_lag_data \<Rightarrow> bool" where
  "takes_input d \<longleftrightarrow> al_mode d \<noteq> ANTI_LAG_MODE_OFF
     \<and> (\<exists>p. al_presentation d = Some p \<and> pi_stage p \<noteq> ANTI_LAG_STAGE_PRESENT)"

text \<open>
  C21. An input update waits for everything and paces by the stricter cap: it takes the span
  of every queue and leaves none behind, delays by the larger of the application's and the
  layer's minimum interval, and hangs only if a taken span never completes or the pacing
  wait never ends; a present marker, a disabled mode or an update without a marker touches
  no queue and never waits.
\<close>

theorem anti_lag_update_steals_all:
  fixes d :: anti_lag_data and cap :: u64
  assumes "history_inv (al_markers s)"
  defines "m \<equiv> max (compute_min_delay_ns (al_max_fps d)) cap"
  shows "(takes_input d \<longrightarrow>
      (\<exists>k1. (notify_update clk hc we cap d (s, qs, k) = None \<longleftrightarrow>
               (hc \<and> (\<exists>sp. Some sp \<in> set qs \<and> \<not> we sp)) \<or> delay clk m (al_delay (al_state s)) k1 = None)
        \<and> (\<forall>work s' qs' k'. notify_update clk hc we cap d (s, qs, k) = Some (Inr (work, s', qs', k')) \<longrightarrow>
              work = List.map_filter id qs \<and> qs' = map (\<lambda>_. None) qs
            \<and> delay clk m (al_delay (al_state s)) k1 = Some (Inr (al_delay (al_state s'), k')))))
    \<and> (\<not> takes_input d \<longrightarrow> (\<exists>s' k'. notify_update clk hc we cap d (s, qs, k) = Some (Inr ([], s', qs, k'))))"
proof (cases "takes_input d")
  case False
  then show ?thesis
    using anti_lag_stage_ok [OF assms(1), of clk cap d k] by (auto simp: notify_update_def takes_input_def)
next
  case True
  then obtain s1 k1 where a: "anti_lag_stage clk cap d s k = Inr (Some m, s1, k1)"
      "al_delay (al_state s1) = al_delay (al_state s)"
    using anti_lag_stage_ok [OF assms(1), of clk cap d k] by (auto simp: takes_input_def m_def)
  have l: "list_all we (List.map_filter id qs) \<longleftrightarrow> (\<forall>sp. Some sp \<in> set qs \<longrightarrow> we sp)"
    by (induction qs) (auto simp: List.map_filter_simps split: option.split)
  have n: "notify_update clk hc we cap d (s, qs, k) =
      (if hc \<and> \<not> list_all we (List.map_filter id qs) then None
       else (case delay clk m (al_delay (al_state s)) k1 of
           None \<Rightarrow> None
         | Some (Inl e) \<Rightarrow> Some (Inl e)
         | Some (Inr (dc, k'')) \<Rightarrow> Some (Inr (List.map_filter id qs,
             s1\<lparr>al_state := (al_state s1)\<lparr>al_delay := dc\<rparr>\<rparr>, map (\<lambda>_. None) qs, k''))))"
    using a by (simp add: notify_update_def steal_spans_all)
  show ?thesis
    using True unfolding n l
    by (intro conjI impI exI [of _ k1]) (auto split: option.splits sum.splits if_splits)
qed

theorem anti_lag_update_steals_all_witness:
  "notify_update (\<lambda>_. 5) True (\<lambda>sp. span_head sp = 1) 0
      \<lparr>al_mode = 1, al_max_fps = 60, al_presentation = Some \<lparr>pi_stage = ANTI_LAG_STAGE_INPUT, pi_frame_index = 3\<rparr>\<rparr>
      (anti_lag_new False, [None, Some (span_new (2 :: nat))], 0) = None"
  using anti_lag_update_steals_all [where s = "anti_lag_new False" and clk = "\<lambda>_. 5" and hc = True
      and we = "\<lambda>sp. span_head sp = 1" and cap = 0
      and d = "\<lparr>al_mode = 1, al_max_fps = 60, al_presentation = Some \<lparr>pi_stage = ANTI_LAG_STAGE_INPUT, pi_frame_index = 3\<rparr>\<rparr>"
      and qs = "[None, Some (span_new (2 :: nat))]" and k = 0]
  by (auto simp: anti_lag_new_def history_new_inv takes_input_def span_new_def
      ANTI_LAG_MODE_OFF_def ANTI_LAG_STAGE_INPUT_def ANTI_LAG_STAGE_PRESENT_def)

section \<open>A GPU that does not finish\<close>

text \<open>
  The wait has no deadline: when one stolen span never completes, the update of the frame never
  returns, whatever the cap and the state of the pacing.
\<close>

theorem anti_lag_waits_without_deadline:
  assumes "history_inv (al_markers s)" and "takes_input d" and "Some sp \<in> set qs" and "end_ns (span_last sp) = None"
  shows "notify_update clk True (\<lambda>x. await_completed end_ns x \<noteq> None) cap d (s, qs, k) = None"
proof -
  obtain m s1 k1 where "anti_lag_stage clk cap d s k = Inr (Some m, s1, k1)"
    using anti_lag_stage_ok [OF assms(1), of clk cap d k] assms(2) by (auto simp: takes_input_def)
  moreover have "sp \<in> set (List.map_filter id qs)" using assms(3) by (force simp: map_filter_def)
  then have "\<not> list_all (\<lambda>x. await_completed end_ns x \<noteq> None) (List.map_filter id qs)"
    using assms(4) by (auto simp: list_all_iff await_completed_def)
  ultimately show ?thesis by (simp add: notify_update_def steal_spans_all)
qed

end
