(* ===== verification/PNext.thy ===== *)
theory PNext
  imports Prelude
begin

text \<open>
  pNext chains (\<open>src/pnext.rs\<close>) and what \<open>vkCreateDevice\<close> and \<open>vkCreateInstance\<close> do with them
  (\<open>find_instance_link\<close>, \<open>find_device_link\<close>, \<open>patch_features\<close>, \<open>FeatureAppends::relink_into\<close>
  of \<open>src/lib.rs\<close>). A chain is a linked list in a store of structures; address \<open>0\<close> is null.
  Reading an address that holds no structure is undefined behaviour of the code: there the
  functions have no value (\<open>None\<close>), as for a cyclic chain, on which the walk never ends.
\<close>

section \<open>Structures\<close>

datatype feature = Synchronization2 | HostQueryReset | PresentId | PresentWait

datatype stype =
    VULKAN_1_3_FEATURES | VULKAN_1_2_FEATURES
  | SYNCHRONIZATION_2_FEATURES | HOST_QUERY_RESET_FEATURES
  | PRESENT_ID_FEATURES | PRESENT_WAIT_FEATURES
  | LOADER_INSTANCE_CREATE_INFO | LOADER_DEVICE_CREATE_INFO
  | OTHER_STYPE int

text \<open>
  One structure: the header, the feature flags it may carry, and the layer-link fields
  (\<open>layer_function\<close> is \<open>0\<close> for \<open>LINK_INFO\<close>).
\<close>

record pnode =
  s_type :: stype
  p_next :: nat
  flags :: "feature \<Rightarrow> bool"
  layer_function :: int
  p_layer_info :: nat

type_synonym store = "nat \<rightharpoonup> pnode"

section \<open>Walking a chain\<close>

partial_function (option) pnext_find :: "store \<Rightarrow> nat \<Rightarrow> stype \<Rightarrow> nat option option" where
  "pnext_find h cur t =
     (if cur = 0 then Some None
      else
        (case h cur of
           None \<Rightarrow> None
         | Some n \<Rightarrow> if s_type n = t then Some (Some cur) else pnext_find h (p_next n) t))"

partial_function (option) find_link :: "stype \<Rightarrow> store \<Rightarrow> nat \<Rightarrow> nat option option" where
  "find_link t h cur =
     (if cur = 0 then Some None
      else
        (case h cur of
           None \<Rightarrow> None
         | Some n \<Rightarrow> if s_type n = t \<and> layer_function n = 0 then Some (Some cur) else find_link t h (p_next n)))"

definition find_instance_link :: "store \<Rightarrow> nat \<Rightarrow> nat option option" where
  "find_instance_link = find_link LOADER_INSTANCE_CREATE_INFO"

definition find_device_link :: "store \<Rightarrow> nat \<Rightarrow> nat option option" where
  "find_device_link = find_link LOADER_DEVICE_CREATE_INFO"

text \<open>The addresses of a well-formed chain, in order.\<close>

fun chain :: "store \<Rightarrow> nat \<Rightarrow> nat list \<Rightarrow> bool" where
  "chain h p [] = (p = 0)"
| "chain h p (a # as) = (p = a \<and> a \<noteq> 0 \<and> (case h a of None \<Rightarrow> False | Some n \<Rightarrow> chain h (p_next n) as))"

definition type_at :: "store \<Rightarrow> nat \<Rightarrow> stype option" where
  "type_at h a = map_option s_type (h a)"

definition flag_at :: "store \<Rightarrow> nat \<Rightarrow> feature \<Rightarrow> bool" where
  "flag_at h a f = (case h a of None \<Rightarrow> False | Some n \<Rightarrow> flags n f)"

lemma pnext_find_chain: "chain h p as \<Longrightarrow> pnext_find h p t = Some (find (\<lambda>a. type_at h a = Some t) as)"
proof (induction as arbitrary: p)
  case Nil
  then show ?case by (subst pnext_find.simps) simp
next
  case (Cons a as)
  then show ?case
    by (subst pnext_find.simps) (auto simp: type_at_def split: option.splits)
qed

lemma find_link_chain:
  "chain h p as \<Longrightarrow> find_link t h p = Some (find (\<lambda>a. type_at h a = Some t \<and> (case h a of Some n \<Rightarrow> layer_function n = 0 | None \<Rightarrow> False)) as)"
proof (induction as arbitrary: p)
  case Nil
  then show ?case by (subst find_link.simps) simp
next
  case (Cons a as)
  then show ?case
    by (subst find_link.simps) (auto simp: type_at_def split: option.splits)
qed

section \<open>Patching the features of a device\<close>

definition set_flag :: "feature \<Rightarrow> nat \<Rightarrow> store \<Rightarrow> store" where
  "set_flag f a h = (case h a of None \<Rightarrow> h | Some n \<Rightarrow> h(a \<mapsto> n\<lparr>flags := (flags n)(f := True)\<rparr>))"

record api_caps =
  v_1_2 :: bool
  v_1_3 :: bool
  enable_present_id :: bool
  enable_present_wait :: bool

text \<open>The boxes to be appended, by feature, in the order \<open>relink_into\<close> links them.\<close>

record feature_appends =
  ap_sync2 :: bool
  ap_hqr :: bool
  ap_present_id :: bool
  ap_present_wait :: bool

definition no_appends :: feature_appends where
  "no_appends = \<lparr>ap_sync2 = False, ap_hqr = False, ap_present_id = False, ap_present_wait = False\<rparr>"

text \<open>
  The shared shape of the four blocks: try the umbrella structure when the API version has
  it, then the dedicated one; the flag says whether a box must be appended.
\<close>

definition patch_one :: "(bool \<times> stype) option \<Rightarrow> stype \<Rightarrow> feature \<Rightarrow> nat \<Rightarrow> store \<Rightarrow> (store \<times> bool) option" where
  "patch_one umbrella dedicated f head h =
     (case (case umbrella of
              Some (True, t) \<Rightarrow> pnext_find h head t
            | _ \<Rightarrow> Some None) of
        None \<Rightarrow> None
      | Some (Some p) \<Rightarrow> Some (set_flag f p h, False)
      | Some None \<Rightarrow>
          (case pnext_find h head dedicated of
             None \<Rightarrow> None
           | Some (Some p) \<Rightarrow> Some (set_flag f p h, False)
           | Some None \<Rightarrow> Some (h, True)))"

definition patch_features :: "api_caps \<Rightarrow> nat \<Rightarrow> store \<Rightarrow> (store \<times> feature_appends) option" where
  "patch_features caps head h =
     (case patch_one (Some (v_1_3 caps, VULKAN_1_3_FEATURES)) SYNCHRONIZATION_2_FEATURES Synchronization2 head h of
        None \<Rightarrow> None
      | Some (h1, a1) \<Rightarrow>
     (case patch_one (Some (v_1_2 caps, VULKAN_1_2_FEATURES)) HOST_QUERY_RESET_FEATURES HostQueryReset head h1 of
        None \<Rightarrow> None
      | Some (h2, a2) \<Rightarrow>
     (case (if enable_present_id caps then patch_one None PRESENT_ID_FEATURES PresentId head h2 else Some (h2, False)) of
        None \<Rightarrow> None
      | Some (h3, a3) \<Rightarrow>
     (case (if enable_present_wait caps then patch_one None PRESENT_WAIT_FEATURES PresentWait head h3 else Some (h3, False)) of
        None \<Rightarrow> None
      | Some (h4, a4) \<Rightarrow>
          Some (h4, \<lparr>ap_sync2 = a1, ap_hqr = a2, ap_present_id = a3, ap_present_wait = a4\<rparr>)))))"

text \<open>Linking one box at a fresh address in front of the chain.\<close>

definition link_box :: "bool \<Rightarrow> stype \<Rightarrow> feature \<Rightarrow> nat \<Rightarrow> nat \<times> store \<Rightarrow> nat \<times> store" where
  "link_box needed t f addr x =
     (case x of (head, h) \<Rightarrow>
        if needed
        then (addr, h(addr \<mapsto> \<lparr>s_type = t, p_next = head, flags = (\<lambda>g. g = f), layer_function = 0, p_layer_info = 0\<rparr>))
        else (head, h))"

definition relink_into :: "feature_appends \<Rightarrow> (feature \<Rightarrow> nat) \<Rightarrow> nat \<times> store \<Rightarrow> nat \<times> store" where
  "relink_into ap box x =
     link_box (ap_present_wait ap) PRESENT_WAIT_FEATURES PresentWait (box PresentWait)
       (link_box (ap_present_id ap) PRESENT_ID_FEATURES PresentId (box PresentId)
         (link_box (ap_hqr ap) HOST_QUERY_RESET_FEATURES HostQueryReset (box HostQueryReset)
           (link_box (ap_sync2 ap) SYNCHRONIZATION_2_FEATURES Synchronization2 (box Synchronization2) x)))"

section \<open>Effects on a chain\<close>

text \<open>
  \<open>grows F h h'\<close>: every structure keeps its header and its link fields, flags are only
  switched on, and only those in \<open>F\<close>.
\<close>

definition same_links :: "pnode \<Rightarrow> pnode \<Rightarrow> bool" where
  "same_links n n' \<longleftrightarrow> s_type n' = s_type n \<and> p_next n' = p_next n
     \<and> layer_function n' = layer_function n \<and> p_layer_info n' = p_layer_info n"

definition grows :: "feature set \<Rightarrow> store \<Rightarrow> store \<Rightarrow> bool" where
  "grows F h h' \<longleftrightarrow> (\<forall>a n. h a = Some n \<longrightarrow> (\<exists>n'. h' a = Some n' \<and> same_links n n'
     \<and> (\<forall>f. flags n f \<longrightarrow> flags n' f) \<and> (\<forall>f. f \<notin> F \<longrightarrow> flags n' f = flags n f)))"

lemma grows_refl [simp]: "grows F h h"
  by (simp add: grows_def same_links_def)

lemma grows_weaken: "grows F h h' \<Longrightarrow> F \<subseteq> G \<Longrightarrow> grows G h h'"
  unfolding grows_def by (meson subsetD)

lemma grows_trans: "grows F h1 h2 \<Longrightarrow> grows F h2 h3 \<Longrightarrow> grows F h1 h3"
  unfolding grows_def same_links_def by (metis (no_types, lifting))

lemma grows_set_flag: "grows {f} h (set_flag f a h)"
  by (auto simp: grows_def set_flag_def same_links_def split: option.split)

lemma chain_grows: "chain h p as \<Longrightarrow> grows F h h' \<Longrightarrow> chain h' p as"
proof (induction as arbitrary: p)
  case (Cons a as)
  then obtain n where n: "h a = Some n" "chain h (p_next n) as" "p = a" "a \<noteq> 0" by (auto split: option.splits)
  then obtain n' where "h' a = Some n'" "p_next n' = p_next n"
    using Cons.prems(2) unfolding grows_def same_links_def by blast
  then show ?case using Cons.IH [OF n(2) Cons.prems(2)] n by simp
qed simp

lemma type_at_grows: "h a \<noteq> None \<Longrightarrow> grows F h h' \<Longrightarrow> type_at h' a = type_at h a"
  by (force simp: type_at_def grows_def same_links_def)

lemma flag_at_grows: "flag_at h a f \<Longrightarrow> grows F h h' \<Longrightarrow> flag_at h' a f"
  by (force simp: flag_at_def grows_def split: option.splits)

lemma chain_mem: "chain h p as \<Longrightarrow> a \<in> set as \<Longrightarrow> h a \<noteq> None"
  by (induction as arbitrary: p) (auto split: option.splits)

lemma flag_set: "h a \<noteq> None \<Longrightarrow> flag_at (set_flag f a h) a f"
  by (auto simp: flag_at_def set_flag_def)

lemma dom_set_flag [simp]: "dom (set_flag f a h) = dom h"
  by (auto simp: set_flag_def split: option.split)

definition patched :: "(bool \<times> stype) option \<Rightarrow> stype \<Rightarrow> feature \<Rightarrow> nat list \<Rightarrow> store \<Rightarrow> store \<Rightarrow> bool \<Rightarrow> bool" where
  "patched u t f as h h' need \<longleftrightarrow> grows {f} h h' \<and> dom h' = dom h
     \<and> (if need then h' = h \<and> (\<forall>a\<in>set as. type_at h a \<noteq> Some t)
        else (\<exists>a\<in>set as. flag_at h' a f \<and> (type_at h a = Some t \<or> (\<exists>v. u = Some (True, v) \<and> type_at h a = Some v))))"

lemma find_Some_mem: "find P as = Some a \<Longrightarrow> a \<in> set as \<and> P a"
  by (induction as) (auto split: if_splits)

lemma patched_found:
  assumes "chain h head as" and "find (\<lambda>a. type_at h a = Some v) as = Some p"
    and "v = t \<or> u = Some (True, v)"
  shows "patched u t f as h (set_flag f p h) False"
proof -
  have p: "p \<in> set as" "type_at h p = Some v" using find_Some_mem [OF assms(2)] by simp_all
  then have "flag_at (set_flag f p h) p f" using flag_set chain_mem [OF assms(1)] by blast
  then have "\<exists>a\<in>set as. flag_at (set_flag f p h) a f \<and> (type_at h a = Some t \<or> (\<exists>v. u = Some (True, v) \<and> type_at h a = Some v))"
    using p assms(3) by blast
  then show ?thesis using grows_set_flag by (simp add: patched_def)
qed

lemma patch_one_ok:
  assumes c: "chain h head as"
  shows "\<exists>h' need. patch_one u t f head h = Some (h', need) \<and> patched u t f as h h' need"
proof -
  have ded: "\<exists>h' need. (case pnext_find h head t of None \<Rightarrow> None | Some (Some p) \<Rightarrow> Some (set_flag f p h, False)
      | Some None \<Rightarrow> Some (h, True)) = Some (h', need) \<and> patched u t f as h h' need"
  proof (cases "find (\<lambda>a. type_at h a = Some t) as")
    case None
    then have "patched u t f as h h True" by (auto simp: patched_def find_None_iff)
    then show ?thesis using pnext_find_chain [OF c, of t] None by (intro exI [of _ h] exI [of _ True]) simp
  next
    case (Some p)
    then show ?thesis using pnext_find_chain [OF c] patched_found [OF c Some] by auto
  qed
  consider v where "u = Some (True, v)" | "\<not> (\<exists>v. u = Some (True, v))" by blast
  then show ?thesis
  proof cases
    case 1
    show ?thesis
    proof (cases "find (\<lambda>a. type_at h a = Some v) as")
      case None
      then show ?thesis using 1 ded pnext_find_chain [OF c, of v] by (simp add: patch_one_def)
    next
      case (Some p)
      then show ?thesis
        using 1 pnext_find_chain [OF c, of v] patched_found [OF c Some, of t u f]
        by (intro exI [of _ "set_flag f p h"] exI [of _ False]) (simp add: patch_one_def)
    qed
  next
    case 2
    then have "patch_one u t f head h = (case pnext_find h head t of None \<Rightarrow> None | Some (Some p) \<Rightarrow> Some (set_flag f p h, False)
      | Some None \<Rightarrow> Some (h, True))"
      by (auto simp: patch_one_def split: option.split bool.split prod.split)
    then show ?thesis using ded by simp
  qed
qed

text \<open>A box at a fresh address extends the chain at the front.\<close>

lemma link_box_chain:
  assumes "chain h head as" and "addr \<noteq> 0" and "h addr = None"
  shows "\<exists>new. chain (snd (link_box needed t f addr (head, h))) (fst (link_box needed t f addr (head, h))) (new @ as)
    \<and> grows F h (snd (link_box needed t f addr (head, h)))
    \<and> set new = (if needed then {addr} else {})
    \<and> (needed \<longrightarrow> type_at (snd (link_box needed t f addr (head, h))) addr = Some t
                 \<and> flag_at (snd (link_box needed t f addr (head, h))) addr f)
    \<and> dom (snd (link_box needed t f addr (head, h))) = dom h \<union> set new"
proof (cases needed)
  case True
  let ?h = "h(addr \<mapsto> \<lparr>s_type = t, p_next = head, flags = (\<lambda>g. g = f), layer_function = 0, p_layer_info = 0\<rparr>)"
  have g: "grows F h ?h" using assms(3) by (auto simp: grows_def same_links_def)
  then have "chain ?h head as" using chain_grows [OF assms(1)] by blast
  then have "chain ?h addr ([addr] @ as)" using assms(2) by simp
  then show ?thesis
    using True g by (intro exI [of _ "[addr]"]) (auto simp: link_box_def type_at_def flag_at_def)
next
  case False
  then show ?thesis using assms(1) by (intro exI [of _ "[]"]) (simp add: link_box_def)
qed

section \<open>The chain passed to the driver\<close>

definition wanted :: "api_caps \<Rightarrow> feature set" where
  "wanted caps = {Synchronization2, HostQueryReset}
     \<union> (if enable_present_id caps then {PresentId} else {}) \<union> (if enable_present_wait caps then {PresentWait} else {})"

fun own_stype :: "feature \<Rightarrow> stype" where
  "own_stype Synchronization2 = SYNCHRONIZATION_2_FEATURES"
| "own_stype HostQueryReset = HOST_QUERY_RESET_FEATURES"
| "own_stype PresentId = PRESENT_ID_FEATURES"
| "own_stype PresentWait = PRESENT_WAIT_FEATURES"

fun umbrella_of :: "api_caps \<Rightarrow> feature \<Rightarrow> (bool \<times> stype) option" where
  "umbrella_of caps Synchronization2 = Some (v_1_3 caps, VULKAN_1_3_FEATURES)"
| "umbrella_of caps HostQueryReset = Some (v_1_2 caps, VULKAN_1_2_FEATURES)"
| "umbrella_of caps PresentId = None"
| "umbrella_of caps PresentWait = None"

definition carries :: "api_caps \<Rightarrow> feature \<Rightarrow> stype \<Rightarrow> bool" where
  "carries caps f t \<longleftrightarrow> t = own_stype f \<or> umbrella_of caps f = Some (True, t)"

fun needs :: "feature_appends \<Rightarrow> feature \<Rightarrow> bool" where
  "needs ap Synchronization2 = ap_sync2 ap"
| "needs ap HostQueryReset = ap_hqr ap"
| "needs ap PresentId = ap_present_id ap"
| "needs ap PresentWait = ap_present_wait ap"

definition enabled_in :: "api_caps \<Rightarrow> feature \<Rightarrow> store \<Rightarrow> nat list \<Rightarrow> bool" where
  "enabled_in caps f h as \<longleftrightarrow> (\<exists>a\<in>set as. flag_at h a f \<and> (\<exists>t. type_at h a = Some t \<and> carries caps f t))"

lemma enabled_grows:
  assumes "enabled_in caps f h as" and "grows F h h'" and "chain h p as" and "set as \<subseteq> set bs"
  shows "enabled_in caps f h' bs"
proof -
  obtain a t where a: "a \<in> set as" "flag_at h a f" "type_at h a = Some t" "carries caps f t"
    using assms(1) by (auto simp: enabled_in_def)
  have "flag_at h' a f" "type_at h' a = Some t"
    using flag_at_grows [OF a(2) assms(2)] type_at_grows [OF chain_mem [OF assms(3) a(1)] assms(2)] a(3) by simp_all
  then show ?thesis using a(1,4) assms(4) by (auto simp: enabled_in_def)
qed

definition patch_result :: "api_caps \<Rightarrow> nat list \<Rightarrow> store \<Rightarrow> feature set \<Rightarrow> store \<Rightarrow> (feature \<Rightarrow> bool) \<Rightarrow> bool" where
  "patch_result caps as h F h' need \<longleftrightarrow> grows F h h' \<and> dom h' = dom h
     \<and> (\<forall>f\<in>F. if need f then \<forall>a\<in>set as. type_at h a \<noteq> Some (own_stype f) else enabled_in caps f h' as)"

lemma patch_result_start: "patch_result caps as h {} h need"
  by (simp add: patch_result_def)

lemma patch_result_step:
  assumes r: "patch_result caps as h F h1 need" and c: "chain h head as" and f: "f \<notin> F"
  shows "\<exists>h2 b. patch_one (umbrella_of caps f) (own_stype f) f head h1 = Some (h2, b)
    \<and> patch_result caps as h (insert f F) h2 (need(f := b))"
proof -
  have g: "grows F h h1" and d: "dom h1 = dom h" using r by (simp_all add: patch_result_def)
  have c1: "chain h1 head as" using chain_grows [OF c g] .
  obtain h2 b where p: "patch_one (umbrella_of caps f) (own_stype f) f head h1 = Some (h2, b)"
      "patched (umbrella_of caps f) (own_stype f) f as h1 h2 b"
    using patch_one_ok [OF c1] by blast
  have g2: "grows {f} h1 h2" "dom h2 = dom h1" using p(2) by (simp_all add: patched_def)
  have ty: "type_at h1 a = type_at h a" "type_at h2 a = type_at h1 a" if "a \<in> set as" for a
    using that type_at_grows [OF chain_mem [OF c] g] type_at_grows [OF chain_mem [OF c1] g2(1)] by blast+
  have "enabled_in caps k h2 as" if "k \<in> F" "\<not> need k" for k
    using r that enabled_grows [OF _ g2(1) c1] by (auto simp: patch_result_def)
  moreover have "enabled_in caps f h2 as" if "\<not> b"
    using p(2) that ty by (auto simp: patched_def enabled_in_def carries_def)
  moreover have "\<forall>a\<in>set as. type_at h a \<noteq> Some (own_stype f)" if b
    using p(2) that ty by (auto simp: patched_def)
  moreover have "grows (insert f F) h h2"
    using grows_trans [OF grows_weaken [OF g] grows_weaken [OF g2(1)]] by blast
  ultimately have "patch_result caps as h (insert f F) h2 (need(f := b))"
    using r f g2(2) d by (auto simp: patch_result_def)
  then show ?thesis using p(1) by blast
qed

lemma patch_features_ok:
  assumes c: "chain h head as"
  shows "\<exists>h' ap. patch_features caps head h = Some (h', ap) \<and> patch_result caps as h (wanted caps) h' (needs ap)
    \<and> (\<forall>f. f \<notin> wanted caps \<longrightarrow> \<not> needs ap f)"
proof -
  obtain h1 b1 where 1: "patch_one (umbrella_of caps Synchronization2) (own_stype Synchronization2) Synchronization2 head h = Some (h1, b1)"
      "patch_result caps as h {Synchronization2} h1 ((\<lambda>_. False)(Synchronization2 := b1))"
    using patch_result_step [OF patch_result_start c] by blast
  obtain h2 b2 where 2: "patch_one (umbrella_of caps HostQueryReset) (own_stype HostQueryReset) HostQueryReset head h1 = Some (h2, b2)"
      "patch_result caps as h {HostQueryReset, Synchronization2} h2 ((\<lambda>_. False)(Synchronization2 := b1, HostQueryReset := b2))"
    using patch_result_step [OF 1(2) c, of HostQueryReset] by auto
  let ?F2 = "{HostQueryReset, Synchronization2}"
  let ?F3 = "if enable_present_id caps then insert PresentId ?F2 else ?F2"
  let ?F4 = "if enable_present_wait caps then insert PresentWait ?F3 else ?F3"
  obtain h3 b3 where 3: "(if enable_present_id caps then patch_one None PRESENT_ID_FEATURES PresentId head h2 else Some (h2, False)) = Some (h3, b3)"
      "patch_result caps as h ?F3 h3 ((\<lambda>_. False)(Synchronization2 := b1, HostQueryReset := b2, PresentId := b3))"
  proof (cases "enable_present_id caps")
    case True
    then show ?thesis using that patch_result_step [OF 2(2) c, of PresentId] by auto
  next
    case False
    have "(\<lambda>_. False)(Synchronization2 := b1, HostQueryReset := b2, PresentId := False)
        = (\<lambda>_. False)(Synchronization2 := b1, HostQueryReset := b2)" by (simp add: fun_eq_iff)
    then show ?thesis using that [of h2 False] 2(2) False by simp
  qed
  obtain h4 b4 where 4: "(if enable_present_wait caps then patch_one None PRESENT_WAIT_FEATURES PresentWait head h3 else Some (h3, False)) = Some (h4, b4)"
      "patch_result caps as h ?F4 h4 ((\<lambda>_. False)(Synchronization2 := b1, HostQueryReset := b2, PresentId := b3, PresentWait := b4))"
  proof (cases "enable_present_wait caps")
    case True
    have pw: "PresentWait \<notin> ?F3" by simp
    obtain h4 b4 where "patch_one (umbrella_of caps PresentWait) (own_stype PresentWait) PresentWait head h3 = Some (h4, b4)"
        "patch_result caps as h (insert PresentWait ?F3) h4
          ((\<lambda>_. False)(Synchronization2 := b1, HostQueryReset := b2, PresentId := b3, PresentWait := b4))"
      using patch_result_step [OF 3(2) c pw] by blast
    then show ?thesis using that [of h4 b4] True by simp
  next
    case False
    have "(\<lambda>_. False)(Synchronization2 := b1, HostQueryReset := b2, PresentId := b3, PresentWait := False)
        = (\<lambda>_. False)(Synchronization2 := b1, HostQueryReset := b2, PresentId := b3)" by (simp add: fun_eq_iff)
    then show ?thesis using that [of h3 False] 3(2) False by simp
  qed
  let ?ap = "\<lparr>ap_sync2 = b1, ap_hqr = b2, ap_present_id = b3, ap_present_wait = b4\<rparr>"
  have n: "needs ?ap = (\<lambda>_. False)(Synchronization2 := b1, HostQueryReset := b2, PresentId := b3, PresentWait := b4)"
  proof
    fix f show "needs ?ap f = ((\<lambda>_. False)(Synchronization2 := b1, HostQueryReset := b2, PresentId := b3, PresentWait := b4)) f"
      by (cases f) simp_all
  qed
  have F: "?F4 = wanted caps" by (auto simp: wanted_def)
  have pf: "patch_features caps head h = Some (h4, ?ap)"
    using 1(1) 2(1) 3(1) 4(1) by (simp add: patch_features_def)
  have nn: "\<forall>f. f \<notin> wanted caps \<longrightarrow> \<not> needs ?ap f"
  proof (intro allI impI)
    fix f assume "f \<notin> wanted caps"
    then show "\<not> needs ?ap f" using 3(1) 4(1) by (cases f) (auto simp: wanted_def split: if_splits)
  qed
  have pr: "patch_result caps as h (wanted caps) h4 (needs ?ap)" using 4(2) unfolding F n .
  show ?thesis using pf pr nn by blast
qed

lemma link_step:
  assumes c: "chain h head as" and a: "addr \<noteq> 0" "h addr = None"
  obtains new head' h' where "link_box needed t f addr (head, h) = (head', h')" "chain h' head' (new @ as)"
    "grows {} h h'" "set new = (if needed then {addr} else {})" "dom h' = dom h \<union> set new"
    "needed \<longrightarrow> type_at h' addr = Some t \<and> flag_at h' addr f"
  using link_box_chain [OF c a, of needed t f "{}"] that by (metis prod.collapse)

lemma relink_chain:
  assumes c: "chain h head as" and b: "inj box" "\<forall>f. box f \<noteq> 0 \<and> h (box f) = None"
  shows "\<exists>head' h' new. relink_into ap box (head, h) = (head', h') \<and> chain h' head' (new @ as) \<and> grows {} h h'
    \<and> set new = box ` {f. needs ap f}
    \<and> (\<forall>f. needs ap f \<longrightarrow> type_at h' (box f) = Some (own_stype f) \<and> flag_at h' (box f) f)"
proof -
  have ne: "box f \<noteq> box g" if "f \<noteq> g" for f g using b(1) that by (auto dest: injD)
  obtain n1 p1 h1 where 1: "link_box (ap_sync2 ap) SYNCHRONIZATION_2_FEATURES Synchronization2 (box Synchronization2) (head, h) = (p1, h1)"
      "chain h1 p1 (n1 @ as)" "grows {} h h1" "set n1 = (if ap_sync2 ap then {box Synchronization2} else {})" "dom h1 = dom h \<union> set n1"
      "ap_sync2 ap \<longrightarrow> type_at h1 (box Synchronization2) = Some SYNCHRONIZATION_2_FEATURES \<and> flag_at h1 (box Synchronization2) Synchronization2"
    using link_step [OF c] b(2) by metis
  have fresh: "box f \<notin> dom h" for f using b(2) by (simp add: domIff)
  have "box HostQueryReset \<notin> dom h1" unfolding 1(5) 1(4) using fresh ne [of HostQueryReset] by simp
  then have f2: "h1 (box HostQueryReset) = None" by (simp add: domIff)
  obtain n2 p2 h2 where 2: "link_box (ap_hqr ap) HOST_QUERY_RESET_FEATURES HostQueryReset (box HostQueryReset) (p1, h1) = (p2, h2)"
      "chain h2 p2 (n2 @ n1 @ as)" "grows {} h1 h2" "set n2 = (if ap_hqr ap then {box HostQueryReset} else {})" "dom h2 = dom h1 \<union> set n2"
      "ap_hqr ap \<longrightarrow> type_at h2 (box HostQueryReset) = Some HOST_QUERY_RESET_FEATURES \<and> flag_at h2 (box HostQueryReset) HostQueryReset"
    using link_step [OF 1(2) _ f2] b(2) by metis
  have "box PresentId \<notin> dom h2" unfolding 2(5) 2(4) 1(5) 1(4) using fresh ne [of PresentId] by simp
  then have f3: "h2 (box PresentId) = None" by (simp add: domIff)
  obtain n3 p3 h3 where 3: "link_box (ap_present_id ap) PRESENT_ID_FEATURES PresentId (box PresentId) (p2, h2) = (p3, h3)"
      "chain h3 p3 (n3 @ n2 @ n1 @ as)" "grows {} h2 h3" "set n3 = (if ap_present_id ap then {box PresentId} else {})" "dom h3 = dom h2 \<union> set n3"
      "ap_present_id ap \<longrightarrow> type_at h3 (box PresentId) = Some PRESENT_ID_FEATURES \<and> flag_at h3 (box PresentId) PresentId"
    using link_step [OF 2(2) _ f3] b(2) by metis
  have "box PresentWait \<notin> dom h3" unfolding 3(5) 3(4) 2(5) 2(4) 1(5) 1(4) using fresh ne [of PresentWait] by simp
  then have f4: "h3 (box PresentWait) = None" by (simp add: domIff)
  obtain n4 p4 h4 where 4: "link_box (ap_present_wait ap) PRESENT_WAIT_FEATURES PresentWait (box PresentWait) (p3, h3) = (p4, h4)"
      "chain h4 p4 (n4 @ n3 @ n2 @ n1 @ as)" "grows {} h3 h4" "set n4 = (if ap_present_wait ap then {box PresentWait} else {})" "dom h4 = dom h3 \<union> set n4"
      "ap_present_wait ap \<longrightarrow> type_at h4 (box PresentWait) = Some PRESENT_WAIT_FEATURES \<and> flag_at h4 (box PresentWait) PresentWait"
    using link_step [OF 3(2) _ f4] b(2) by metis
  note g = grows_trans [OF 3(3) 4(3)] grows_trans [OF 2(3) grows_trans [OF 3(3) 4(3)]]
  have keep_t: "type_at h4 x = Some t" if "type_at k x = Some t" "grows {} k h4" for k x t
    using that type_at_grows [of k x "{}" h4] by (auto simp: type_at_def)
  have keep_f: "flag_at h4 x f" if "flag_at k x f" "grows {} k h4" for k x f
    using that flag_at_grows by blast
  have "needs ap f \<longrightarrow> type_at h4 (box f) = Some (own_stype f) \<and> flag_at h4 (box f) f" for f
    using 1(6) 2(6) 3(6) 4(6) keep_t [OF _ g(2)] keep_t [OF _ g(1)] keep_t [OF _ 4(3)]
      keep_f [OF _ g(2)] keep_f [OF _ g(1)] keep_f [OF _ 4(3)] by (cases f) simp_all
  moreover have "set (n4 @ n3 @ n2 @ n1) = box ` {f. needs ap f}"
  proof -
    have "{f. needs ap f} = (if ap_sync2 ap then {Synchronization2} else {}) \<union> (if ap_hqr ap then {HostQueryReset} else {})
        \<union> (if ap_present_id ap then {PresentId} else {}) \<union> (if ap_present_wait ap then {PresentWait} else {})"
      by (rule set_eqI, rename_tac f, case_tac f) simp_all
    then show ?thesis using 1(4) 2(4) 3(4) 4(4) by simp
  qed
  moreover have "relink_into ap box (head, h) = (p4, h4)"
    using 1(1) 2(1) 3(1) 4(1) by (simp add: relink_into_def)
  moreover have "grows {} h h4" using grows_trans [OF 1(3) g(2)] .
  ultimately show ?thesis using 4(2) by (intro exI [of _ p4] exI [of _ h4] exI [of _ "n4 @ n3 @ n2 @ n1"]) simp
qed

section \<open>Properties\<close>

text \<open>
  The walk of a pNext chain finds the first structure of the wanted type, or answers
  that there is none, on every well-formed chain; the layer-link search likewise finds the
  first loader structure whose function is \<open>LINK_INFO\<close>.
\<close>

theorem pnext_finds_first:
  assumes "chain h head as"
  shows "pnext_find h head t = Some (find (\<lambda>a. type_at h a = Some t) as)
    \<and> find_device_link h head = Some (find (\<lambda>a. \<exists>n. h a = Some n \<and> s_type n = LOADER_DEVICE_CREATE_INFO \<and> layer_function n = 0) as)"
proof -
  have "(\<lambda>a. type_at h a = Some LOADER_DEVICE_CREATE_INFO \<and> (case h a of Some n \<Rightarrow> layer_function n = 0 | None \<Rightarrow> False))
      = (\<lambda>a. \<exists>n. h a = Some n \<and> s_type n = LOADER_DEVICE_CREATE_INFO \<and> layer_function n = 0)"
    by (rule ext) (auto simp: type_at_def split: option.split)
  then show ?thesis using pnext_find_chain [OF assms] find_link_chain [OF assms] by (simp add: find_device_link_def)
qed

definition example_store :: store where
  "example_store = [8 \<mapsto> \<lparr>s_type = VULKAN_1_3_FEATURES, p_next = 0, flags = (\<lambda>_. False), layer_function = 1, p_layer_info = 0\<rparr>]"

lemma example_chain: "chain example_store 8 [8]"
  by (simp add: example_store_def)

theorem pnext_finds_first_witness:
  "pnext_find example_store 8 VULKAN_1_3_FEATURES = Some (Some 8)"
  using pnext_finds_first [OF example_chain, of VULKAN_1_3_FEATURES] by (simp add: type_at_def example_store_def)

text \<open>
  C17. Enabling the layer on a device: for any well-formed chain of the application and fresh
  boxes, patching and relinking always succeed; the chain passed to the driver is the
  application's own chain with boxes in front, every structure of it keeps its links and all
  of its flags; each feature the layer needs is switched on in a structure that may carry it
  (the umbrella structure only on an API version that has it); a box is added only for a
  feature type the chain does not have, so no type appears twice; and no other flag of the
  application is touched.
\<close>

theorem create_device_enables_features:
  assumes c: "chain h head as" and b: "inj box" "\<forall>f. box f \<noteq> 0 \<and> h (box f) = None"
  shows "\<exists>h1 ap head' h' new. patch_features caps head h = Some (h1, ap)
    \<and> relink_into ap box (head, h1) = (head', h') \<and> chain h' head' (new @ as) \<and> grows (wanted caps) h h'
    \<and> (\<forall>f\<in>wanted caps. enabled_in caps f h' (new @ as))
    \<and> (\<forall>a\<in>set new. \<exists>f\<in>wanted caps. type_at h' a = Some (own_stype f) \<and> (\<forall>x\<in>set as. type_at h x \<noteq> Some (own_stype f)))"
proof -
  obtain h1 ap where 1: "patch_features caps head h = Some (h1, ap)" "patch_result caps as h (wanted caps) h1 (needs ap)"
      "\<forall>f. f \<notin> wanted caps \<longrightarrow> \<not> needs ap f"
    using patch_features_ok [OF c] by blast
  have g1: "grows (wanted caps) h h1" and d1: "dom h1 = dom h" using 1(2) by (simp_all add: patch_result_def)
  have c1: "chain h1 head as" using chain_grows [OF c g1] .
  have b1: "\<forall>f. box f \<noteq> 0 \<and> h1 (box f) = None" using b(2) d1 by (metis domIff)
  obtain head' h' new where 2: "relink_into ap box (head, h1) = (head', h')" "chain h' head' (new @ as)" "grows {} h1 h'"
      "set new = box ` {f. needs ap f}"
      "\<forall>f. needs ap f \<longrightarrow> type_at h' (box f) = Some (own_stype f) \<and> flag_at h' (box f) f"
    using relink_chain [OF c1 b(1) b1] by metis
  have g: "grows (wanted caps) h h'" using grows_trans [OF g1 grows_weaken [OF 2(3)]] by blast
  have "enabled_in caps f h' (new @ as)" if "f \<in> wanted caps" for f
  proof (cases "needs ap f")
    case True
    then show ?thesis using 2(4,5) by (auto simp: enabled_in_def carries_def)
  next
    case False
    then have "enabled_in caps f h1 as" using 1(2) that by (simp add: patch_result_def)
    then show ?thesis using enabled_grows [OF _ 2(3) c1] by simp
  qed
  moreover have "\<exists>f\<in>wanted caps. type_at h' a = Some (own_stype f) \<and> (\<forall>x\<in>set as. type_at h x \<noteq> Some (own_stype f))"
    if a: "a \<in> set new" for a
  proof -
    obtain f where f: "needs ap f" "a = box f" using a 2(4) by auto
    then have "f \<in> wanted caps" using 1(3) by blast
    moreover from this have "\<forall>x\<in>set as. type_at h x \<noteq> Some (own_stype f)" using 1(2) f(1) by (simp add: patch_result_def)
    ultimately show ?thesis using 2(5) f by blast
  qed
  ultimately show ?thesis using 1(1) 2(1,2) g by blast
qed

theorem create_device_enables_features_witness:
  "\<exists>h' head' new. chain h' head' (new @ [8])
     \<and> enabled_in \<lparr>v_1_2 = True, v_1_3 = True, enable_present_id = False, enable_present_wait = False\<rparr> Synchronization2 h' (new @ [8])"
proof -
  let ?box = "\<lambda>f. case f of Synchronization2 \<Rightarrow> 1 | HostQueryReset \<Rightarrow> 2 | PresentId \<Rightarrow> 3 | PresentWait \<Rightarrow> (4 :: nat)"
  have "inj ?box" by (auto simp: inj_def split: feature.splits)
  moreover have "\<forall>f. ?box f \<noteq> 0 \<and> example_store (?box f) = None" by (auto simp: example_store_def split: feature.splits)
  ultimately show ?thesis
    using create_device_enables_features [OF example_chain, of ?box
        "\<lparr>v_1_2 = True, v_1_3 = True, enable_present_id = False, enable_present_wait = False\<rparr>"]
    by (auto simp: wanted_def)
qed

end
