(* ===== verification/PNextIter.thy ===== *)
theory PNextIter
  imports PNext
begin

text \<open>
  The iterators of \<open>src/pnext.rs\<close>: \<open>PNextIter\<close> and \<open>PNextIterMut\<close> hold a cursor, \<open>next\<close> reads
  one header and advances, \<open>find\<close> and \<open>find_mut\<close> run them to the first match. The other
  theories use the search \<open>pnext_find\<close>; here it is shown to be what the iterators compute.
\<close>

section \<open>The iterator\<close>

record pnext_iter =
  cur :: nat

definition pnext_iter_new :: "nat \<Rightarrow> pnext_iter" where
  "pnext_iter_new head = \<lparr>cur = head\<rparr>"

text \<open>The item and the advanced iterator; no value where the cursor points to no structure.\<close>

definition pnext_iter_next :: "store \<Rightarrow> pnext_iter \<Rightarrow> ((stype \<times> nat) option \<times> pnext_iter) option" where
  "pnext_iter_next h it =
     (if cur it = 0 then Some (None, it)
      else
        (case h (cur it) of
           None \<Rightarrow> None
         | Some header \<Rightarrow> Some (Some (s_type header, cur it), it\<lparr>cur := p_next header\<rparr>)))"

text \<open>\<open>Iterator::find\<close> and a \<open>for\<close> loop over the iterator.\<close>

partial_function (option) iter_find :: "store \<Rightarrow> (stype \<Rightarrow> bool) \<Rightarrow> pnext_iter \<Rightarrow> (stype \<times> nat) option option" where
  "iter_find h accept it =
     (case pnext_iter_next h it of
        None \<Rightarrow> None
      | Some (None, it') \<Rightarrow> Some None
      | Some (Some x, it') \<Rightarrow> if accept (fst x) then Some (Some x) else iter_find h accept it')"

partial_function (option) iter_all :: "store \<Rightarrow> pnext_iter \<Rightarrow> (stype \<times> nat) list option" where
  "iter_all h it =
     (case pnext_iter_next h it of
        None \<Rightarrow> None
      | Some (None, it') \<Rightarrow> Some []
      | Some (Some x, it') \<Rightarrow> Option.bind (iter_all h it') (\<lambda>xs. Some (x # xs)))"

definition find_typed :: "store \<Rightarrow> nat \<Rightarrow> stype \<Rightarrow> nat option option" where
  "find_typed h head t = map_option (map_option snd) (iter_find h (\<lambda>t'. t' = t) (pnext_iter_new head))"

section \<open>Lemmas\<close>

lemma find_typed_unfold:
  "find_typed h p t =
     (if p = 0 then Some None
      else
        (case h p of
           None \<Rightarrow> None
         | Some n \<Rightarrow> if s_type n = t then Some (Some p) else find_typed h (p_next n) t))"
  unfolding find_typed_def
  by (subst iter_find.simps) (simp add: pnext_iter_next_def pnext_iter_new_def split: option.split)

lemma find_typed_if:
  assumes "pnext_find h p t = Some y"
  shows "find_typed h p t = Some y"
proof (rule pnext_find.raw_induct [where P = "\<lambda>h p t y. find_typed h p t = Some y", OF _ assms])
  fix find' h p t y
  assume IH: "\<And>h p t y. find' h p t = Some y \<Longrightarrow> find_typed h p t = Some y"
    and body: "(if p = 0 then Some None
      else (case h p of None \<Rightarrow> None | Some n \<Rightarrow> if s_type n = t then Some (Some p) else find' h (p_next n) t)) = Some y"
  show "find_typed h p t = Some y"
    using body by (subst find_typed_unfold) (auto dest: IH split: option.splits if_splits)
qed

lemma find_typed_only_if:
  assumes "iter_find h (\<lambda>t'. t' = t) it = Some y"
  shows "pnext_find h (cur it) t = Some (map_option snd y)"
proof -
  have "(\<lambda>t'. t' = t) = (\<lambda>t'. t' = t) \<longrightarrow> pnext_find h (cur it) t = Some (map_option snd y)"
  proof (rule iter_find.raw_induct [where P = "\<lambda>h acc it y. acc = (\<lambda>t'. t' = t) \<longrightarrow> pnext_find h (cur it) t = Some (map_option snd y)", OF _ assms], intro impI)
    fix find' h acc it y
    assume IH: "\<And>h acc it y. find' h acc it = Some y \<Longrightarrow> acc = (\<lambda>t'. t' = t) \<longrightarrow> pnext_find h (cur it) t = Some (map_option snd y)"
      and body: "(case pnext_iter_next h it of None \<Rightarrow> None | Some (None, it') \<Rightarrow> Some None
        | Some (Some x, it') \<Rightarrow> if acc (fst x) then Some (Some x) else find' h acc it') = Some y"
      and acc: "acc = (\<lambda>t'. t' = t)"
    show "pnext_find h (cur it) t = Some (map_option snd y)"
      using body acc by (subst pnext_find.simps) (fastforce dest: IH simp: pnext_iter_next_def split: option.splits if_splits)
  qed
  then show ?thesis by blast
qed

text \<open>The two searches agree on every store and head, also where they have no value.\<close>

lemma find_typed_eq: "find_typed h p t = pnext_find h p t"
proof (cases "pnext_find h p t")
  case (Some y)
  then show ?thesis using find_typed_if by simp
next
  case None
  have "iter_find h (\<lambda>t'. t' = t) (pnext_iter_new p) = None"
  proof (rule ccontr)
    assume "iter_find h (\<lambda>t'. t' = t) (pnext_iter_new p) \<noteq> None"
    then show False using find_typed_only_if [of h t "pnext_iter_new p"] None by (auto simp: pnext_iter_new_def)
  qed
  then show ?thesis using None by (simp add: find_typed_def)
qed

lemma iter_all_chain:
  "chain h p as \<Longrightarrow> iter_all h \<lparr>cur = p\<rparr> = Some (map (\<lambda>a. (s_type (the (h a)), a)) as)"
proof (induction as arbitrary: p)
  case Nil
  then show ?case by (subst iter_all.simps) (simp add: pnext_iter_next_def)
next
  case (Cons a as)
  then show ?case by (subst iter_all.simps) (auto simp: pnext_iter_next_def split: option.splits)
qed

lemma iter_all_only_chain:
  assumes "iter_all h it = Some xs"
  shows "chain h (cur it) (map snd xs)"
proof (rule iter_all.raw_induct [where P = "\<lambda>h it xs. chain h (cur it) (map snd xs)", OF _ assms])
  fix all' h it xs
  assume IH: "\<And>h it xs. all' h it = Some xs \<Longrightarrow> chain h (cur it) (map snd xs)"
    and body: "(case pnext_iter_next h it of None \<Rightarrow> None | Some (None, it') \<Rightarrow> Some []
      | Some (Some x, it') \<Rightarrow> Option.bind (all' h it') (\<lambda>xs. Some (x # xs))) = Some xs"
  show "chain h (cur it) (map snd xs)"
    using body IH [of h "it\<lparr>cur := p_next (the (h (cur it)))\<rparr>"]
    by (auto simp: pnext_iter_next_def bind_eq_Some_conv split: option.splits if_splits)
qed

section \<open>Property\<close>

text \<open>
  The search \<open>find\<close> built from the iterator computes \<open>pnext_find\<close>, the search the rest of
  the development uses, on every store, also where neither ends or reading is undefined; and
  the iterator visits a chain completely: it ends exactly on well-formed chains, with every
  structure once, in order, under its own type.
\<close>

theorem iterator_visits_chain:
  "find_typed h p t = pnext_find h p t
   \<and> (iter_all h (pnext_iter_new p) = Some xs \<longleftrightarrow> (\<exists>as. chain h p as \<and> xs = map (\<lambda>a. (s_type (the (h a)), a)) as))"
  (is "_ \<and> ?ends")
proof
  show "find_typed h p t = pnext_find h p t" by (rule find_typed_eq)
  show ?ends
  proof
    assume all: "iter_all h (pnext_iter_new p) = Some xs"
    then have c: "chain h p (map snd xs)" using iter_all_only_chain by (fastforce simp: pnext_iter_new_def)
    moreover have "xs = map (\<lambda>a. (s_type (the (h a)), a)) (map snd xs)"
      using iter_all_chain [OF c] all unfolding pnext_iter_new_def by simp
    ultimately show "\<exists>as. chain h p as \<and> xs = map (\<lambda>a. (s_type (the (h a)), a)) as" by blast
  next
    assume "\<exists>as. chain h p as \<and> xs = map (\<lambda>a. (s_type (the (h a)), a)) as"
    then show "iter_all h (pnext_iter_new p) = Some xs" using iter_all_chain by (auto simp: pnext_iter_new_def)
  qed
qed

end
