(* ===== verification/PresentWait.thy ===== *)
theory PresentWait
  imports Markers WorkerLoop
begin

text \<open>
  The two workers of \<open>src/present_wait.rs\<close> that learn when a frame reached the display.
  \<open>PresentWaitWorker\<close> blocks in \<open>vkWaitForPresentKHR\<close> for each queued present (its loop is
  \<open>worker_step False\<close> of \<open>WorkerLoop\<close>; here is what it does with an item).
  \<open>GoogleTimingWorker\<close> polls \<open>vkGetPastPresentationTimingGOOGLE\<close> and pairs the timings with
  a queue of present ids per swapchain. The pending map and the domain are accessed under
  their locks, so a history of calls and polls is a sequence of the operations below.
\<close>

section \<open>Present wait\<close>

record present_pending =
  pp_swapchain :: nat
  pp_present_id :: u64

definition present_wait_enqueue :: "nat \<Rightarrow> u64 \<Rightarrow> present_pending list \<Rightarrow> present_pending list" where
  "present_wait_enqueue swapchain present_id q =
     (if present_id = 0 then q else q @ [\<lparr>pp_swapchain = swapchain, pp_present_id = present_id\<rparr>])"

text \<open>One popped item: the driver's answer to the wait and the clock reading after it.\<close>

definition present_waited :: "present_pending \<Rightarrow> vk_result \<Rightarrow> u64 \<Rightarrow> history \<Rightarrow> panic + history" where
  "present_waited item r now_after h =
     (case r of
        SUCCESS \<Rightarrow> record_present_actual (pp_present_id item) now_after h
      | _ \<Rightarrow> Inr h)"

fun drain_presents :: "(present_pending \<times> vk_result \<times> u64) list \<Rightarrow> history \<Rightarrow> panic + history" where
  "drain_presents [] h = Inr h"
| "drain_presents ((item, r, t) # rest) h =
     (case present_waited item r t h of Inl e \<Rightarrow> Inl e | Inr h' \<Rightarrow> drain_presents rest h')"

text \<open>The reading after the last successful wait for a present id.\<close>

fun last_success :: "u64 \<Rightarrow> (present_pending \<times> vk_result \<times> u64) list \<Rightarrow> u64 option" where
  "last_success q [] = None"
| "last_success q ((item, r, t) # rest) =
     (case last_success q rest of
        Some x \<Rightarrow> Some x
      | None \<Rightarrow> if pp_present_id item = q \<and> r = SUCCESS then Some t else None)"

definition with_actual :: "u64 option \<Rightarrow> frame_markers \<Rightarrow> frame_markers" where
  "with_actual t f = (case t of None \<Rightarrow> f | Some x \<Rightarrow> f\<lparr>display_actual_us := x div 1000\<rparr>)"

lemma with_actual_None [simp]: "map_option (with_actual None) x = x"
  by (cases x) (simp_all add: with_actual_def)

lemma record_actual_frame:
  assumes "history_inv h"
  shows "\<exists>h'. record_present_actual pid t h = Inr h' \<and> history_inv h'
    \<and> (\<forall>q. frame_of h' q = map_option (with_actual (if q = pid then Some t else None)) (frame_of h q))"
proof -
  have "op_effect (PresentActualOp pid t) h q = map_option (with_actual (if q = pid then Some t else None)) (frame_of h q)" for q
    by (cases "q = pid"; cases "frame_of h q") (simp_all add: op_effect_def with_actual_def)
  then show ?thesis using record_actual_effect [OF assms, of pid t] by auto
qed

lemma present_waited_frame:
  assumes "history_inv h"
  shows "\<exists>h'. present_waited item r t h = Inr h' \<and> history_inv h'
    \<and> (\<forall>q. frame_of h' q = map_option (with_actual (if pp_present_id item = q \<and> r = SUCCESS then Some t else None)) (frame_of h q))"
proof (cases "r = SUCCESS")
  case True
  then show ?thesis
    using record_actual_frame [OF assms, of "pp_present_id item" t] by (auto simp: present_waited_def)
next
  case False
  then have "present_waited item r t h = Inr h" by (cases r) (simp_all add: present_waited_def)
  then show ?thesis using assms False by auto
qed

lemma drain_presents_frame:
  "history_inv h \<Longrightarrow> \<exists>h'. drain_presents turns h = Inr h' \<and> history_inv h'
    \<and> (\<forall>q. frame_of h' q = map_option (with_actual (last_success q turns)) (frame_of h q))"
proof (induction turns arbitrary: h)
  case Nil
  then show ?case by simp
next
  case (Cons x turns)
  obtain item r t where x: "x = (item, r, t)" by (cases x)
  obtain h1 where h1: "present_waited item r t h = Inr h1" "history_inv h1"
      "\<And>q. frame_of h1 q = map_option (with_actual (if pp_present_id item = q \<and> r = SUCCESS then Some t else None)) (frame_of h q)"
    using present_waited_frame [OF Cons.prems, of item r t] by blast
  obtain h2 where h2: "drain_presents turns h1 = Inr h2" "history_inv h2"
      "\<And>q. frame_of h2 q = map_option (with_actual (last_success q turns)) (frame_of h1 q)"
    using Cons.IH [OF h1(2)] by blast
  have "frame_of h2 q = map_option (with_actual (last_success q (x # turns))) (frame_of h q)" for q
    unfolding h2(3) h1(3) x
    by (cases "frame_of h q"; cases "last_success q turns") (simp_all add: with_actual_def)
  then show ?case using h1(1) h2(1,2) x by simp
qed

text \<open>
  The present-wait worker records display times faithfully: over any items it pops and
  any answers of the driver it does not panic, a known frame ends with the clock reading
  taken after the last successful wait for its present id, a wait that times out or fails
  changes nothing, and no other field or frame is touched. Presents with id 0 are never
  queued.
\<close>

theorem present_wait_records_actual:
  assumes "history_inv h"
  shows "(\<exists>h'. drain_presents turns h = Inr h' \<and> history_inv h'
      \<and> (\<forall>q. frame_of h' q = map_option (with_actual (last_success q turns)) (frame_of h q)))
    \<and> present_wait_enqueue sw 0 items = items"
  using drain_presents_frame [OF assms] by (simp add: present_wait_enqueue_def)

theorem present_wait_records_actual_witness:
  "\<exists>h'. drain_presents [(\<lparr>pp_swapchain = 1, pp_present_id = 7\<rparr>, SUCCESS, 5000), (\<lparr>pp_swapchain = 1, pp_present_id = 7\<rparr>, TIMEOUT, 9000)]
      (append_frame (frame_default 7) history_new) = Inr h'
    \<and> map_option display_actual_us (frame_of h' 7) = Some 5"
proof -
  have inv: "history_inv (append_frame (frame_default 7) history_new)"
    using append_frame_inv [OF history_new_inv, of "frame_default 7"] by (simp add: history_new_def HISTORY_CAP_def)
  show ?thesis
    using present_wait_records_actual [OF inv, of
        "[(\<lparr>pp_swapchain = 1, pp_present_id = 7\<rparr>, SUCCESS, 5000), (\<lparr>pp_swapchain = 1, pp_present_id = 7\<rparr>, TIMEOUT, 9000)]" 0 "[]"]
    by (force simp: with_actual_def frame_of_def append_frame_def history_new_def frame_default_def)
qed

section \<open>Display timing\<close>

datatype google_clock_domain = Unvalidated | Monotonic | Unknown

definition GOOGLE_PENDING_CAP :: nat where "GOOGLE_PENDING_CAP = 256"

record google_inner =
  g_pending :: "nat \<rightharpoonup> u64 list"
  g_domain :: google_clock_domain

definition google_new :: google_inner where
  "google_new = \<lparr>g_pending = Map.empty, g_domain = Unvalidated\<rparr>"

definition google_push :: "u64 \<Rightarrow> u64 list \<Rightarrow> u64 list" where
  "google_push pid fifo = (if GOOGLE_PENDING_CAP \<le> length fifo then tl fifo else fifo) @ [pid]"

interpretation gfifo: bounded_fifo google_push "\<lambda>fifo. fifo" GOOGLE_PENDING_CAP
proof unfold_locales
  show "0 < GOOGLE_PENDING_CAP" by (simp add: GOOGLE_PENDING_CAP_def)
next
  fix s :: "u64 list" and x
  assume "length s \<le> GOOGLE_PENDING_CAP"
  then show "google_push x s = drop (length s + 1 - GOOGLE_PENDING_CAP) (s @ [x])"
    by (cases "length s = GOOGLE_PENDING_CAP"; cases s) (auto simp: google_push_def GOOGLE_PENDING_CAP_def)
qed

definition google_enqueue :: "nat \<Rightarrow> u64 \<Rightarrow> google_inner \<Rightarrow> google_inner" where
  "google_enqueue swapchain present_id g =
     (if present_id = 0 then g
      else g\<lparr>g_pending := (g_pending g)(swapchain \<mapsto>
        google_push present_id (case g_pending g swapchain of Some fifo \<Rightarrow> fifo | None \<Rightarrow> []))\<rparr>)"

definition forget_swapchain :: "nat \<Rightarrow> google_inner \<Rightarrow> google_inner" where
  "forget_swapchain swapchain g = g\<lparr>g_pending := (g_pending g)(swapchain := None)\<rparr>"

definition ACCEPT_SKEW_NS :: int where "ACCEPT_SKEW_NS = 5000000000"

definition classify_google_domain :: "u64 \<Rightarrow> u64 \<Rightarrow> google_clock_domain" where
  "classify_google_domain sample_ns now_ns =
     (if \<bar>uint sample_ns - uint now_ns\<bar> \<le> ACCEPT_SKEW_NS then Monotonic else Unknown)"

text \<open>
  One poll of one swapchain: the driver's two answers and the clock reading after them. A
  timing is its \<open>actualPresentTime\<close>, the only field the layer reads; the second answer is the
  result, the count it wrote back and the entries it wrote into the buffer of the asked size,
  whose other entries keep their default.
\<close>

record google_poll =
  poll_count :: "vk_result \<times> u32"
  poll_fetch :: "u32 \<Rightarrow> vk_result \<times> u32 \<times> u64 list"
  poll_now :: u64

definition google_samples :: "google_poll \<Rightarrow> u64 list option" where
  "google_samples p =
     (case poll_count p of (r, count) \<Rightarrow>
        if r \<noteq> SUCCESS \<or> count = 0 then None
        else
          (let want = min count 64 in
           case poll_fetch p want of (r2, got, written) \<Rightarrow>
             if r2 \<noteq> SUCCESS \<and> r2 \<noteq> INCOMPLETE then None
             else Some (take (unat got) (take (unat want) written @ replicate (unat want - length written) 0))))"

definition validate_domain :: "u64 \<Rightarrow> u64 list \<Rightarrow> google_clock_domain \<Rightarrow> google_clock_domain" where
  "validate_domain now_ns scratch d =
     (if d = Unvalidated then
        (case find (\<lambda>t. t \<noteq> 0) scratch of
           Some sample \<Rightarrow> classify_google_domain sample now_ns
         | None \<Rightarrow> d)
      else d)"

definition google_host_ns :: "google_clock_domain \<Rightarrow> u64 \<Rightarrow> u64 \<Rightarrow> u64" where
  "google_host_ns d now_ns t = (if d = Monotonic \<and> t \<noteq> 0 then t else now_ns)"

text \<open>Pairing the timings with the queue; the middle component lists the pairs recorded.\<close>

fun pair_timings ::
  "google_clock_domain \<Rightarrow> u64 \<Rightarrow> u64 list \<Rightarrow> u64 list \<Rightarrow> history \<Rightarrow> panic + u64 list \<times> (u64 \<times> u64) list \<times> history" where
  "pair_timings d now_ns [] fifo h = Inr (fifo, [], h)"
| "pair_timings d now_ns (t # ts) [] h = Inr ([], [], h)"
| "pair_timings d now_ns (t # ts) (pid # fifo) h =
     (let host_ns = google_host_ns d now_ns t in
      case record_present_actual pid host_ns h of
        Inl e \<Rightarrow> Inl e
      | Inr h' \<Rightarrow>
          (case pair_timings d now_ns ts fifo h' of
             Inl e \<Rightarrow> Inl e
           | Inr (fifo', pairs, h'') \<Rightarrow> Inr (fifo', (pid, host_ns) # pairs, h'')))"

definition google_poll_swapchain ::
  "nat \<Rightarrow> google_poll \<Rightarrow> google_inner \<times> history \<Rightarrow> panic + (google_inner \<times> history) \<times> (u64 \<times> u64) list" where
  "google_poll_swapchain sw p st =
     (case st of (g, h) \<Rightarrow>
        (case google_samples p of
           None \<Rightarrow> Inr ((g, h), [])
         | Some scratch \<Rightarrow>
             (case g_pending g sw of
                None \<Rightarrow> Inr ((g, h), [])
              | Some fifo \<Rightarrow>
                  (let d = validate_domain (poll_now p) scratch (g_domain g) in
                   case pair_timings d (poll_now p) scratch fifo h of
                     Inl e \<Rightarrow> Inl e
                   | Inr (fifo', pairs, h') \<Rightarrow>
                       Inr ((g\<lparr>g_pending := (g_pending g)(sw \<mapsto> fifo'), g_domain := d\<rparr>, h'), pairs)))))"

datatype google_op = GEnqueue nat u64 | GForget nat | GPoll nat google_poll

definition google_step :: "google_op \<Rightarrow> google_inner \<times> history \<Rightarrow> panic + (google_inner \<times> history) \<times> (nat \<times> u64 \<times> u64) list" where
  "google_step op st =
     (case op of
        GEnqueue sw pid \<Rightarrow> Inr ((google_enqueue sw pid (fst st), snd st), [])
      | GForget sw \<Rightarrow> Inr ((forget_swapchain sw (fst st), snd st), [])
      | GPoll sw p \<Rightarrow>
          (case google_poll_swapchain sw p st of
             Inl e \<Rightarrow> Inl e
           | Inr (st', pairs) \<Rightarrow> Inr (st', map (\<lambda>x. (sw, x)) pairs)))"

text \<open>The operations in the order they take the lock, with all pairs recorded.\<close>

fun google_run :: "google_op list \<Rightarrow> google_inner \<times> history \<Rightarrow> panic + (google_inner \<times> history) \<times> (nat \<times> u64 \<times> u64) list" where
  "google_run [] st = Inr (st, [])"
| "google_run (op # ops) st =
     (case google_step op st of
        Inl e \<Rightarrow> Inl e
      | Inr (st', log1) \<Rightarrow>
          (case google_run ops st' of
             Inl e \<Rightarrow> Inl e
           | Inr (st'', log2) \<Rightarrow> Inr (st'', log1 @ log2)))"

section \<open>Pairing in order\<close>

lemma pair_timings_spec:
  "history_inv h \<Longrightarrow> \<exists>h'. pair_timings d now ts fifo h =
      Inr (drop (length ts) fifo, zip fifo (map (google_host_ns d now) ts), h') \<and> history_inv h'"
proof (induction ts arbitrary: fifo h)
  case (Cons t ts)
  show ?case
  proof (cases fifo)
    case (Cons pid rest)
    obtain h1 where "record_present_actual pid (google_host_ns d now t) h = Inr h1" "history_inv h1"
      using record_actual_frame [OF Cons.prems] by blast
    then show ?thesis using Cons.IH [of h1 rest] Cons by (auto simp: Let_def)
  qed (use Cons.prems in simp)
qed simp

definition fifo_of :: "google_inner \<Rightarrow> nat \<Rightarrow> u64 list" where
  "fifo_of g sw = (case g_pending g sw of Some f \<Rightarrow> f | None \<Rightarrow> [])"

text \<open>The ids handed to a swapchain's queue and the timings its polls delivered, with the poll's clock.\<close>

fun enqueued_ids :: "nat \<Rightarrow> google_op list \<Rightarrow> u64 list" where
  "enqueued_ids sw [] = []"
| "enqueued_ids sw (GEnqueue sw' pid # ops) =
     (if sw' = sw \<and> pid \<noteq> 0 then pid # enqueued_ids sw ops else enqueued_ids sw ops)"
| "enqueued_ids sw (_ # ops) = enqueued_ids sw ops"

definition poll_timings :: "google_poll \<Rightarrow> (u64 \<times> u64) list" where
  "poll_timings p = (case google_samples p of None \<Rightarrow> [] | Some ts \<Rightarrow> map (\<lambda>t. (t, poll_now p)) ts)"

fun delivered :: "nat \<Rightarrow> google_op list \<Rightarrow> (u64 \<times> u64) list" where
  "delivered sw [] = []"
| "delivered sw (GPoll sw' p # ops) = (if sw' = sw then poll_timings p @ delivered sw ops else delivered sw ops)"
| "delivered sw (_ # ops) = delivered sw ops"

text \<open>
  \<open>keeps_up sw n ops\<close>: starting with \<open>n\<close> presents waiting, the queue of \<open>sw\<close> never exceeds its
  cap, no poll delivers more timings than presents wait, and \<open>sw\<close> is not destroyed.
\<close>

fun keeps_up :: "nat \<Rightarrow> nat \<Rightarrow> google_op list \<Rightarrow> bool" where
  "keeps_up sw n [] = True"
| "keeps_up sw n (GEnqueue sw' pid # ops) =
     (if sw' = sw \<and> pid \<noteq> 0 then n < GOOGLE_PENDING_CAP \<and> keeps_up sw (Suc n) ops else keeps_up sw n ops)"
| "keeps_up sw n (GForget sw' # ops) = (sw' \<noteq> sw \<and> keeps_up sw n ops)"
| "keeps_up sw n (GPoll sw' p # ops) =
     (if sw' = sw then length (poll_timings p) \<le> n \<and> keeps_up sw (n - length (poll_timings p)) ops
      else keeps_up sw n ops)"

definition pairs_of :: "nat \<Rightarrow> (nat \<times> u64 \<times> u64) list \<Rightarrow> (u64 \<times> u64) list" where
  "pairs_of sw recs = map snd (filter (\<lambda>x. fst x = sw) recs)"

text \<open>A recorded time answers a timing: it is the driver's time, or the clock after the poll.\<close>

definition answers :: "u64 \<times> u64 \<Rightarrow> u64 \<times> u64 \<Rightarrow> bool" where
  "answers pair timing \<longleftrightarrow> snd pair = fst timing \<or> snd pair = snd timing"

lemma google_poll_spec:
  assumes "history_inv h"
  shows "\<exists>g' h' pairs. google_poll_swapchain sw p (g, h) = Inr ((g', h'), pairs) \<and> history_inv h'
    \<and> (\<forall>sw'. sw' \<noteq> sw \<longrightarrow> fifo_of g' sw' = fifo_of g sw')
    \<and> fifo_of g' sw = drop (length (poll_timings p)) (fifo_of g sw)
    \<and> map fst pairs = take (length (poll_timings p)) (fifo_of g sw)
    \<and> (length (poll_timings p) \<le> length (fifo_of g sw) \<longrightarrow> list_all2 answers pairs (poll_timings p))"
proof (cases "google_samples p")
  case None
  then show ?thesis using assms by (simp add: google_poll_swapchain_def poll_timings_def)
next
  case ts: (Some ts)
  show ?thesis
  proof (cases "g_pending g sw")
    case None
    then show ?thesis using assms ts by (simp add: google_poll_swapchain_def poll_timings_def fifo_of_def)
  next
    case (Some fifo)
    let ?d = "validate_domain (poll_now p) ts (g_domain g)"
    obtain h' where h': "pair_timings ?d (poll_now p) ts fifo h
        = Inr (drop (length ts) fifo, zip fifo (map (google_host_ns ?d (poll_now p)) ts), h')" "history_inv h'"
      using pair_timings_spec [OF assms, of ?d "poll_now p" ts fifo] by blast
    have "list_all2 answers (zip fifo (map (google_host_ns ?d (poll_now p)) ts)) (map (\<lambda>t. (t, poll_now p)) ts)"
      if "length ts \<le> length fifo"
      using that by (auto simp: list_all2_conv_all_nth answers_def google_host_ns_def)
    then show ?thesis
      using ts Some h' by (simp add: google_poll_swapchain_def Let_def poll_timings_def fifo_of_def map_fst_zip_take min_def)
  qed
qed

lemma fifo_of_enqueue:
  "length (fifo_of g sw) < GOOGLE_PENDING_CAP \<Longrightarrow> pid \<noteq> 0 \<Longrightarrow> fifo_of (google_enqueue sw pid g) sw = fifo_of g sw @ [pid]"
  by (cases "g_pending g sw") (simp_all add: fifo_of_def google_enqueue_def google_push_def)

lemma fifo_of_enqueue_other: "sw' \<noteq> sw \<Longrightarrow> fifo_of (google_enqueue sw pid g) sw' = fifo_of g sw'"
  by (simp add: fifo_of_def google_enqueue_def)

lemma fifo_of_forget_other: "sw' \<noteq> sw \<Longrightarrow> fifo_of (forget_swapchain sw g) sw' = fifo_of g sw'"
  by (simp add: fifo_of_def forget_swapchain_def)

lemma pairs_of_append: "pairs_of sw (a @ b) = pairs_of sw a @ pairs_of sw b"
  by (simp add: pairs_of_def)

lemma pairs_of_tagged: "pairs_of sw (map (\<lambda>x. (sw', x)) ps) = (if sw' = sw then ps else [])"
  by (simp add: pairs_of_def filter_map comp_def)

lemma google_step_spec:
  assumes "history_inv h" and "keeps_up sw (length (fifo_of g sw)) (op # ops)"
  shows "\<exists>g' h' recs. google_step op (g, h) = Inr ((g', h'), recs) \<and> history_inv h'
    \<and> map fst (pairs_of sw recs) @ fifo_of g' sw = fifo_of g sw @ enqueued_ids sw [op]
    \<and> list_all2 answers (pairs_of sw recs) (delivered sw [op])
    \<and> keeps_up sw (length (fifo_of g' sw)) ops"
proof (cases op)
  case (GEnqueue sw' pid)
  show ?thesis
  proof (cases "sw' = sw \<and> pid \<noteq> 0")
    case True
    then show ?thesis
      using assms GEnqueue fifo_of_enqueue [of g sw pid] by (auto simp: google_step_def pairs_of_def)
  next
    case False
    then have "fifo_of (google_enqueue sw' pid g) sw = fifo_of g sw"
      using fifo_of_enqueue_other [of sw sw' pid g] by (cases "sw' = sw") (auto simp: google_enqueue_def)
    then show ?thesis using assms GEnqueue False by (auto simp: google_step_def pairs_of_def)
  qed
next
  case (GForget sw')
  then show ?thesis
    using assms fifo_of_forget_other [of sw sw' g] by (auto simp: google_step_def pairs_of_def)
next
  case (GPoll sw' p)
  obtain g' h' pairs where q: "google_poll_swapchain sw' p (g, h) = Inr ((g', h'), pairs)" "history_inv h'"
      "\<And>w. w \<noteq> sw' \<Longrightarrow> fifo_of g' w = fifo_of g w"
      "fifo_of g' sw' = drop (length (poll_timings p)) (fifo_of g sw')"
      "map fst pairs = take (length (poll_timings p)) (fifo_of g sw')"
      "length (poll_timings p) \<le> length (fifo_of g sw') \<Longrightarrow> list_all2 answers pairs (poll_timings p)"
    using google_poll_spec [OF assms(1), of sw' p g] by blast
  have st: "google_step op (g, h) = Inr ((g', h'), map (\<lambda>x. (sw', x)) pairs)"
    using q(1) GPoll by (simp add: google_step_def)
  show ?thesis
  proof (cases "sw' = sw")
    case True
    then show ?thesis using st q(2,4-6) assms(2) GPoll by (simp add: pairs_of_tagged)
  next
    case False
    then show ?thesis using st q(2) q(3) [of sw] assms(2) GPoll by (simp add: pairs_of_tagged)
  qed
qed

lemma enqueued_ids_Cons: "enqueued_ids sw (op # ops) = enqueued_ids sw [op] @ enqueued_ids sw ops"
  by (cases op) simp_all

lemma delivered_Cons: "delivered sw (op # ops) = delivered sw [op] @ delivered sw ops"
  by (cases op) simp_all

lemma google_run_spec:
  "history_inv h \<Longrightarrow> keeps_up sw (length (fifo_of g sw)) ops \<Longrightarrow>
    \<exists>g' h' recs. google_run ops (g, h) = Inr ((g', h'), recs) \<and> history_inv h'
      \<and> map fst (pairs_of sw recs) @ fifo_of g' sw = fifo_of g sw @ enqueued_ids sw ops
      \<and> list_all2 answers (pairs_of sw recs) (delivered sw ops)"
proof (induction ops arbitrary: g h)
  case Nil
  then show ?case by (simp add: pairs_of_def)
next
  case (Cons op ops)
  obtain g1 h1 r1 where 1: "google_step op (g, h) = Inr ((g1, h1), r1)" "history_inv h1"
      "map fst (pairs_of sw r1) @ fifo_of g1 sw = fifo_of g sw @ enqueued_ids sw [op]"
      "list_all2 answers (pairs_of sw r1) (delivered sw [op])" "keeps_up sw (length (fifo_of g1 sw)) ops"
    using google_step_spec [OF Cons.prems] by blast
  obtain g2 h2 r2 where 2: "google_run ops (g1, h1) = Inr ((g2, h2), r2)" "history_inv h2"
      "map fst (pairs_of sw r2) @ fifo_of g2 sw = fifo_of g1 sw @ enqueued_ids sw ops"
      "list_all2 answers (pairs_of sw r2) (delivered sw ops)"
    using Cons.IH [OF 1(2,5)] by blast
  have "map fst (pairs_of sw (r1 @ r2)) @ fifo_of g2 sw = fifo_of g sw @ enqueued_ids sw (op # ops)"
    using 1(3) 2(3) append.assoc by (metis enqueued_ids_Cons map_append pairs_of_append)
  moreover have "list_all2 answers (pairs_of sw (r1 @ r2)) (delivered sw (op # ops))"
    unfolding pairs_of_append delivered_Cons [of sw op ops]
    using 1(4) 2(4) by (rule list_all2_appendI)
  ultimately show ?case using 1(1) 2(1,2) by simp
qed

text \<open>
  C27. Display timings are paired with the right frames while the poller keeps up: over any
  calls and polls of any swapchains in which the queue of one swapchain never overflows, its
  polls never deliver more timings than presents wait and it is not destroyed, nothing
  panics, the present ids paired so far are exactly the first ones enqueued, in order, the
  rest still waits, and the k-th pair answers the k-th timing the driver delivered.
\<close>

theorem google_pairs_in_order:
  assumes "keeps_up sw 0 ops"
  shows "\<exists>g h recs. google_run ops (google_new, history_new) = Inr ((g, h), recs) \<and> history_inv h
    \<and> enqueued_ids sw ops = map fst (pairs_of sw recs) @ fifo_of g sw
    \<and> list_all2 answers (pairs_of sw recs) (delivered sw ops)"
  using google_run_spec [OF history_new_inv, of sw google_new ops] assms
  by (fastforce simp: google_new_def fifo_of_def)

theorem google_pairs_in_order_witness:
  "\<exists>g h recs. google_run [GEnqueue 4 11, GEnqueue 5 2, GEnqueue 4 12,
        GPoll 4 \<lparr>poll_count = (SUCCESS, 1), poll_fetch = (\<lambda>n. (SUCCESS, n, [700])), poll_now = 900\<rparr>]
      (google_new, history_new) = Inr ((g, h), recs)
    \<and> [11, 12] = map fst (pairs_of 4 recs) @ fifo_of g 4 \<and> length (pairs_of 4 recs) = 1"
  using google_pairs_in_order [of 4 "[GEnqueue 4 11, GEnqueue 5 2, GEnqueue 4 12,
        GPoll 4 \<lparr>poll_count = (SUCCESS, 1), poll_fetch = (\<lambda>n. (SUCCESS, n, [700])), poll_now = 900\<rparr>]"]
  by (fastforce simp: GOOGLE_PENDING_CAP_def poll_timings_def google_samples_def Let_def dest: list_all2_lengthD)

section \<open>When the poller falls behind\<close>

lemma run_enqueues:
  "0 \<notin> set ids \<Longrightarrow> length (fifo_of g sw) \<le> GOOGLE_PENDING_CAP \<Longrightarrow>
    \<exists>g'. google_run (map (GEnqueue sw) ids @ ops) (g, h) = google_run ops (g', h)
      \<and> fifo_of g' sw = fold google_push ids (fifo_of g sw)"
proof (induction ids arbitrary: g)
  case Nil
  then show ?case by auto
next
  case (Cons pid ids)
  let ?g = "google_enqueue sw pid g"
  have f: "fifo_of ?g sw = google_push pid (fifo_of g sw)"
    using Cons.prems by (cases "g_pending g sw") (simp_all add: fifo_of_def google_enqueue_def)
  have "length (fifo_of ?g sw) \<le> GOOGLE_PENDING_CAP"
    unfolding f using gfifo.push_bounded [OF Cons.prems(2)] .
  then obtain g' where g': "google_run (map (GEnqueue sw) ids @ ops) (?g, h) = google_run ops (g', h)"
      "fifo_of g' sw = fold google_push ids (fifo_of ?g sw)"
    using Cons.IH [of ?g] Cons.prems(1) by auto
  have "google_run (map (GEnqueue sw) (pid # ids) @ ops) (g, h) = google_run ops (g', h)"
    using g'(1) by (cases "google_run ops (g', h)") (auto simp: google_step_def)
  then show ?case using g'(2) f by auto
qed

text \<open>
  Once the queue has overflowed the pairing is off: after \<open>n\<close> presents without a poll,
  where \<open>n\<close> is above the cap of 256, the first timing the driver delivers, which belongs to the
  first present, is recorded for a frame \<open>n - 256\<close> presents later, and so is every following one.
\<close>

theorem google_overflow_shifts_pairing:
  assumes "0 \<notin> set ids" and "GOOGLE_PENDING_CAP < length ids"
  shows "\<exists>g h recs. google_run (map (GEnqueue sw) ids @ [GPoll sw p]) (google_new, history_new) = Inr ((g, h), recs)
    \<and> map fst (pairs_of sw recs) = take (length (poll_timings p)) (drop (length ids - GOOGLE_PENDING_CAP) ids)"
proof -
  have f0: "fifo_of google_new sw = []" by (simp add: google_new_def fifo_of_def)
  obtain g1 where g1: "google_run (map (GEnqueue sw) ids @ [GPoll sw p]) (google_new, history_new)
        = google_run [GPoll sw p] (g1, history_new)"
      "fifo_of g1 sw = fold google_push ids []"
    using run_enqueues [OF assms(1), of google_new sw "[GPoll sw p]" history_new] by (auto simp: f0)
  have f1: "fifo_of g1 sw = drop (length ids - GOOGLE_PENDING_CAP) ids"
    using gfifo.items_pushes [of "[]" ids] g1(2) by simp
  obtain g2 h2 pairs where "google_poll_swapchain sw p (g1, history_new) = Inr ((g2, h2), pairs)"
      "map fst pairs = take (length (poll_timings p)) (fifo_of g1 sw)"
    using google_poll_spec [OF history_new_inv, of sw p g1] by blast
  then have "google_run [GPoll sw p] (g1, history_new) = Inr ((g2, h2), map (\<lambda>x. (sw, x)) pairs)"
      "map fst (pairs_of sw (map (\<lambda>x. (sw, x)) pairs)) = take (length (poll_timings p)) (fifo_of g1 sw)"
    by (simp_all add: google_step_def pairs_of_tagged)
  then show ?thesis using g1(1) f1 by auto
qed

theorem google_overflow_shifts_pairing_witness:
  "\<exists>g h recs. google_run (map (GEnqueue 4) (replicate 256 1 @ [2]) @
        [GPoll 4 \<lparr>poll_count = (SUCCESS, 64), poll_fetch = (\<lambda>n. (SUCCESS, n, [700])), poll_now = 900\<rparr>])
      (google_new, history_new) = Inr ((g, h), recs)
    \<and> length (pairs_of 4 recs) = 64"
proof -
  let ?p = "\<lparr>poll_count = (SUCCESS, 64), poll_fetch = (\<lambda>n. (SUCCESS, n, [700])), poll_now = 900\<rparr>"
  have l: "length (poll_timings ?p) = 64" by (simp add: poll_timings_def google_samples_def Let_def)
  have "\<exists>g h recs. google_run (map (GEnqueue 4) (replicate 256 1 @ [2]) @ [GPoll 4 ?p]) (google_new, history_new) = Inr ((g, h), recs)
      \<and> map fst (pairs_of 4 recs) = take 64 (drop 1 (replicate 256 1 @ [2]))"
    using google_overflow_shifts_pairing [of "replicate 256 1 @ [2]" 4 ?p] by (simp add: GOOGLE_PENDING_CAP_def l)
  then obtain g h recs where r: "google_run (map (GEnqueue 4) (replicate 256 1 @ [2]) @ [GPoll 4 ?p]) (google_new, history_new) = Inr ((g, h), recs)"
      and m: "map fst (pairs_of 4 recs) = take 64 (drop 1 (replicate 256 1 @ [2]))" by blast
  have "length (pairs_of 4 recs) = 64" using arg_cong [OF m, of length] by simp
  with r show ?thesis by blast
qed

text \<open>
  The clock domain is judged once: whatever is delivered later, a domain found monotonic
  hands every non-zero driver time to the history as it is, however far it is from the clock.
\<close>

lemma skewed_sample_recorded:
  assumes "g_domain g = Monotonic" and "g_pending g sw = Some (pid # fifo)" and "google_samples p = Some [t]" and "t \<noteq> 0"
    and "history_inv h"
  shows "\<exists>g' h'. google_poll_swapchain sw p (g, h) = Inr ((g', h'), [(pid, t)]) \<and> g_domain g' = Monotonic"
  using assms record_actual_frame [OF assms(5), of pid t]
  by (auto simp: google_poll_swapchain_def validate_domain_def google_host_ns_def Let_def)

end
