(* ===== verification/Dispatch.thy ===== *)
theory Dispatch
  imports Prelude
begin

text \<open>
  The dispatch tables of \<open>src/dispatch.rs\<close>, the tables of intercepted functions and the
  \<open>GetProcAddr\<close> functions of \<open>src/lib.rs\<close>. A function pointer is a number; what the next
  layer answers for a name is a parameter \<open>string \<Rightarrow> nat option\<close>. A missing core function is a
  failed \<open>expect\<close>, that is, a panic.
\<close>

section \<open>Loading\<close>

definition require :: "nat option \<Rightarrow> (nat \<Rightarrow> panic + 'a) \<Rightarrow> panic + 'a" where
  "require slot k = (case slot of Some f \<Rightarrow> k f | None \<Rightarrow> Inl Panic)"

definition or_else :: "'a option \<Rightarrow> 'a option \<Rightarrow> 'a option" where
  "or_else a b = (case a of Some x \<Rightarrow> Some x | None \<Rightarrow> b)"

lemma or_else_None: "or_else a b = (if a \<noteq> None then a else b)"
  by (simp add: or_else_def split: option.split)

record instance_table =
  it_get_instance_proc_addr :: "string \<Rightarrow> nat option"
  it_destroy_instance :: nat
  it_enumerate_physical_devices :: nat
  it_get_physical_device_properties :: nat
  it_enumerate_device_extension_properties :: nat
  it_get_physical_device_queue_family_properties :: nat
  it_get_physical_device_properties2 :: "nat option"
  it_get_physical_device_properties2_khr :: "nat option"
  it_get_physical_device_features2 :: "nat option"
  it_get_physical_device_features2_khr :: "nat option"
  it_get_physical_device_surface_capabilities2_khr :: "nat option"

definition instance_table_load :: "(string \<Rightarrow> nat option) \<Rightarrow> panic + instance_table" where
  "instance_table_load gipa =
     require (gipa ''vkDestroyInstance'') (\<lambda>destroy.
     require (gipa ''vkEnumeratePhysicalDevices'') (\<lambda>enum_pd.
     require (gipa ''vkGetPhysicalDeviceProperties'') (\<lambda>props.
     require (gipa ''vkEnumerateDeviceExtensionProperties'') (\<lambda>enum_ext.
     require (gipa ''vkGetPhysicalDeviceQueueFamilyProperties'') (\<lambda>families.
       Inr \<lparr>it_get_instance_proc_addr = gipa, it_destroy_instance = destroy, it_enumerate_physical_devices = enum_pd,
         it_get_physical_device_properties = props, it_enumerate_device_extension_properties = enum_ext,
         it_get_physical_device_queue_family_properties = families,
         it_get_physical_device_properties2 = gipa ''vkGetPhysicalDeviceProperties2'',
         it_get_physical_device_properties2_khr = gipa ''vkGetPhysicalDeviceProperties2KHR'',
         it_get_physical_device_features2 = gipa ''vkGetPhysicalDeviceFeatures2'',
         it_get_physical_device_features2_khr = gipa ''vkGetPhysicalDeviceFeatures2KHR'',
         it_get_physical_device_surface_capabilities2_khr = gipa ''vkGetPhysicalDeviceSurfaceCapabilities2KHR''\<rparr>)))))"

record device_table =
  dt_get_device_proc_addr :: "string \<Rightarrow> nat option"
  dt_destroy_device :: nat
  dt_get_device_queue :: nat
  dt_queue_submit :: nat
  dt_create_command_pool :: nat
  dt_destroy_command_pool :: nat
  dt_allocate_command_buffers :: nat
  dt_free_command_buffers :: nat
  dt_begin_command_buffer :: nat
  dt_end_command_buffer :: nat
  dt_reset_command_buffer :: nat
  dt_create_query_pool :: nat
  dt_destroy_query_pool :: nat
  dt_get_query_pool_results :: nat
  dt_device_wait_idle :: nat
  dt_get_device_queue2 :: "nat option"
  dt_queue_submit2 :: "nat option"
  dt_queue_submit2_khr :: "nat option"
  dt_queue_present_khr :: "nat option"
  dt_cmd_write_timestamp2 :: "nat option"
  dt_cmd_write_timestamp2_khr :: "nat option"
  dt_reset_query_pool :: "nat option"
  dt_get_calibrated_timestamps_khr :: "nat option"
  dt_create_swapchain_khr :: "nat option"
  dt_destroy_swapchain_khr :: "nat option"
  dt_acquire_next_image_khr :: "nat option"
  dt_acquire_next_image2_khr :: "nat option"
  dt_signal_semaphore :: "nat option"
  dt_get_semaphore_counter_value :: "nat option"
  dt_wait_for_present_khr :: "nat option"
  dt_get_refresh_cycle_duration_google :: "nat option"
  dt_get_past_presentation_timing_google :: "nat option"

definition device_table_load :: "(string \<Rightarrow> nat option) \<Rightarrow> panic + device_table" where
  "device_table_load gdpa =
     require (gdpa ''vkDestroyDevice'') (\<lambda>destroy_device.
     require (gdpa ''vkGetDeviceQueue'') (\<lambda>get_device_queue.
     require (gdpa ''vkQueueSubmit'') (\<lambda>queue_submit.
     require (gdpa ''vkCreateCommandPool'') (\<lambda>create_command_pool.
     require (gdpa ''vkDestroyCommandPool'') (\<lambda>destroy_command_pool.
     require (gdpa ''vkAllocateCommandBuffers'') (\<lambda>allocate_command_buffers.
     require (gdpa ''vkFreeCommandBuffers'') (\<lambda>free_command_buffers.
     require (gdpa ''vkBeginCommandBuffer'') (\<lambda>begin_command_buffer.
     require (gdpa ''vkEndCommandBuffer'') (\<lambda>end_command_buffer.
     require (gdpa ''vkResetCommandBuffer'') (\<lambda>reset_command_buffer.
     require (gdpa ''vkCreateQueryPool'') (\<lambda>create_query_pool.
     require (gdpa ''vkDestroyQueryPool'') (\<lambda>destroy_query_pool.
     require (gdpa ''vkGetQueryPoolResults'') (\<lambda>get_query_pool_results.
     require (gdpa ''vkDeviceWaitIdle'') (\<lambda>device_wait_idle.
       Inr \<lparr>dt_get_device_proc_addr = gdpa,
         dt_destroy_device = destroy_device,
         dt_get_device_queue = get_device_queue,
         dt_queue_submit = queue_submit,
         dt_create_command_pool = create_command_pool,
         dt_destroy_command_pool = destroy_command_pool,
         dt_allocate_command_buffers = allocate_command_buffers,
         dt_free_command_buffers = free_command_buffers,
         dt_begin_command_buffer = begin_command_buffer,
         dt_end_command_buffer = end_command_buffer,
         dt_reset_command_buffer = reset_command_buffer,
         dt_create_query_pool = create_query_pool,
         dt_destroy_query_pool = destroy_query_pool,
         dt_get_query_pool_results = get_query_pool_results,
         dt_device_wait_idle = device_wait_idle,
         dt_get_device_queue2 = gdpa ''vkGetDeviceQueue2'',
         dt_queue_submit2 = gdpa ''vkQueueSubmit2'',
         dt_queue_submit2_khr = gdpa ''vkQueueSubmit2KHR'',
         dt_queue_present_khr = gdpa ''vkQueuePresentKHR'',
         dt_cmd_write_timestamp2 = gdpa ''vkCmdWriteTimestamp2'',
         dt_cmd_write_timestamp2_khr = gdpa ''vkCmdWriteTimestamp2KHR'',
         dt_reset_query_pool = or_else (gdpa ''vkResetQueryPool'') (gdpa ''vkResetQueryPoolEXT''),
         dt_get_calibrated_timestamps_khr = or_else (gdpa ''vkGetCalibratedTimestampsKHR'') (gdpa ''vkGetCalibratedTimestampsEXT''),
         dt_create_swapchain_khr = gdpa ''vkCreateSwapchainKHR'',
         dt_destroy_swapchain_khr = gdpa ''vkDestroySwapchainKHR'',
         dt_acquire_next_image_khr = gdpa ''vkAcquireNextImageKHR'',
         dt_acquire_next_image2_khr = gdpa ''vkAcquireNextImage2KHR'',
         dt_signal_semaphore = or_else (gdpa ''vkSignalSemaphore'') (gdpa ''vkSignalSemaphoreKHR''),
         dt_get_semaphore_counter_value = or_else (gdpa ''vkGetSemaphoreCounterValue'') (gdpa ''vkGetSemaphoreCounterValueKHR''),
         dt_wait_for_present_khr = gdpa ''vkWaitForPresentKHR'',
         dt_get_refresh_cycle_duration_google = gdpa ''vkGetRefreshCycleDurationGOOGLE'',
         dt_get_past_presentation_timing_google = gdpa ''vkGetPastPresentationTimingGOOGLE''\<rparr>))))))))))))))"

text \<open>The names a driver must resolve.\<close>

definition REQUIRED_DEVICE_FUNCTIONS :: "string list" where
  "REQUIRED_DEVICE_FUNCTIONS =
    [''vkDestroyDevice'',
     ''vkGetDeviceQueue'',
     ''vkQueueSubmit'',
     ''vkCreateCommandPool'',
     ''vkDestroyCommandPool'',
     ''vkAllocateCommandBuffers'',
     ''vkFreeCommandBuffers'',
     ''vkBeginCommandBuffer'',
     ''vkEndCommandBuffer'',
     ''vkResetCommandBuffer'',
     ''vkCreateQueryPool'',
     ''vkDestroyQueryPool'',
     ''vkGetQueryPoolResults'',
     ''vkDeviceWaitIdle'']"

definition any_cmd_write_timestamp2_pfn :: "device_table \<Rightarrow> nat option" where
  "any_cmd_write_timestamp2_pfn t = or_else (dt_cmd_write_timestamp2 t) (dt_cmd_write_timestamp2_khr t)"

lemma require_Inr: "require slot k = Inr x \<longleftrightarrow> (\<exists>f. slot = Some f \<and> k f = Inr x)"
  by (simp add: require_def split: option.split)

definition REQUIRED_INSTANCE_FUNCTIONS :: "string list" where
  "REQUIRED_INSTANCE_FUNCTIONS =
    [''vkDestroyInstance'', ''vkEnumeratePhysicalDevices'', ''vkGetPhysicalDeviceProperties'',
     ''vkEnumerateDeviceExtensionProperties'', ''vkGetPhysicalDeviceQueueFamilyProperties'']"

lemma instance_table_total:
  "(\<exists>t. instance_table_load gipa = Inr t) \<longleftrightarrow> list_all (\<lambda>n. gipa n \<noteq> None) REQUIRED_INSTANCE_FUNCTIONS"
  by (auto simp: instance_table_load_def require_Inr REQUIRED_INSTANCE_FUNCTIONS_def)

lemma device_table_total:
  "(\<exists>t. device_table_load gdpa = Inr t) \<longleftrightarrow> list_all (\<lambda>n. gdpa n \<noteq> None) REQUIRED_DEVICE_FUNCTIONS"
  by (auto simp: device_table_load_def require_Inr REQUIRED_DEVICE_FUNCTIONS_def)

section \<open>Interception\<close>

text \<open>The hooks of the layer, and the functions they stand for.\<close>

datatype hook =
    H_get_instance_proc_addr
  | H_get_device_proc_addr
  | H_create_instance
  | H_destroy_instance
  | H_enumerate_physical_devices
  | H_create_device
  | H_enumerate_device_extension_properties
  | H_get_physical_device_properties
  | H_get_physical_device_properties2
  | H_get_physical_device_properties2_khr
  | H_get_physical_device_features2
  | H_get_physical_device_features2_khr
  | H_get_physical_device_surface_capabilities2_khr
  | H_destroy_device
  | H_get_device_queue
  | H_get_device_queue2
  | H_queue_submit
  | H_queue_submit2
  | H_queue_submit2_khr
  | H_queue_present_khr
  | H_create_swapchain_khr
  | H_destroy_swapchain_khr
  | H_acquire_next_image_khr
  | H_acquire_next_image2_khr
  | H_anti_lag_update_amd
  | H_latency_sleep_nv
  | H_set_latency_sleep_mode_nv
  | H_set_latency_marker_nv
  | H_get_latency_timings_nv
  | H_queue_notify_out_of_band_nv

definition INSTANCE_FUNCTIONS :: "(string \<times> hook) list" where
  "INSTANCE_FUNCTIONS =
    [(''vkGetInstanceProcAddr'', H_get_instance_proc_addr),
     (''vkGetDeviceProcAddr'', H_get_device_proc_addr),
     (''vkCreateInstance'', H_create_instance),
     (''vkDestroyInstance'', H_destroy_instance),
     (''vkEnumeratePhysicalDevices'', H_enumerate_physical_devices),
     (''vkCreateDevice'', H_create_device),
     (''vkEnumerateDeviceExtensionProperties'', H_enumerate_device_extension_properties),
     (''vkGetPhysicalDeviceProperties'', H_get_physical_device_properties),
     (''vkGetPhysicalDeviceProperties2'', H_get_physical_device_properties2),
     (''vkGetPhysicalDeviceProperties2KHR'', H_get_physical_device_properties2_khr),
     (''vkGetPhysicalDeviceFeatures2'', H_get_physical_device_features2),
     (''vkGetPhysicalDeviceFeatures2KHR'', H_get_physical_device_features2_khr),
     (''vkGetPhysicalDeviceSurfaceCapabilities2KHR'', H_get_physical_device_surface_capabilities2_khr)]"

definition DEVICE_FUNCTIONS :: "(string \<times> hook) list" where
  "DEVICE_FUNCTIONS =
    [(''vkGetDeviceProcAddr'', H_get_device_proc_addr),
     (''vkDestroyDevice'', H_destroy_device),
     (''vkGetDeviceQueue'', H_get_device_queue),
     (''vkGetDeviceQueue2'', H_get_device_queue2),
     (''vkQueueSubmit'', H_queue_submit),
     (''vkQueueSubmit2'', H_queue_submit2),
     (''vkQueueSubmit2KHR'', H_queue_submit2_khr),
     (''vkQueuePresentKHR'', H_queue_present_khr),
     (''vkCreateSwapchainKHR'', H_create_swapchain_khr),
     (''vkDestroySwapchainKHR'', H_destroy_swapchain_khr),
     (''vkAcquireNextImageKHR'', H_acquire_next_image_khr),
     (''vkAcquireNextImage2KHR'', H_acquire_next_image2_khr),
     (''vkAntiLagUpdateAMD'', H_anti_lag_update_amd),
     (''vkLatencySleepNV'', H_latency_sleep_nv),
     (''vkSetLatencySleepModeNV'', H_set_latency_sleep_mode_nv),
     (''vkSetLatencyMarkerNV'', H_set_latency_marker_nv),
     (''vkGetLatencyTimingsNV'', H_get_latency_timings_nv),
     (''vkQueueNotifyOutOfBandNV'', H_queue_notify_out_of_band_nv)]"

datatype pfn = Hook hook | Next nat

text \<open>The name is \<open>None\<close> for a null pointer, a handle \<open>0\<close> is null.\<close>

definition get_instance_proc_addr :: "(nat \<Rightarrow> instance_table option) \<Rightarrow> nat \<Rightarrow> string option \<Rightarrow> pfn option" where
  "get_instance_proc_addr registry inst p_name =
     (case p_name of
        None \<Rightarrow> None
      | Some name \<Rightarrow>
          (case map_of INSTANCE_FUNCTIONS name of
             Some f \<Rightarrow> Some (Hook f)
           | None \<Rightarrow>
               if inst = 0 then None
               else
                 (case registry inst of
                    None \<Rightarrow> None
                  | Some t \<Rightarrow> map_option Next (it_get_instance_proc_addr t name))))"

definition get_device_proc_addr :: "(nat \<Rightarrow> device_table option) \<Rightarrow> nat \<Rightarrow> string option \<Rightarrow> pfn option" where
  "get_device_proc_addr registry device p_name =
     (if device = 0 then None
      else
        (case p_name of
           None \<Rightarrow> None
         | Some name \<Rightarrow>
             (case map_of DEVICE_FUNCTIONS name of
                Some f \<Rightarrow> Some (Hook f)
              | None \<Rightarrow>
                  (case registry device of
                     None \<Rightarrow> None
                   | Some t \<Rightarrow> map_option Next (dt_get_device_proc_addr t name)))))"

text \<open>Negotiation: the lower of the two versions, and no physical-device entry point.\<close>

definition CURRENT_LOADER_LAYER_INTERFACE_VERSION :: u32 where
  "CURRENT_LOADER_LAYER_INTERFACE_VERSION = 2"

record negotiate_interface =
  loader_layer_interface_version :: u32
  pfn_get_instance_proc_addr :: "hook option"
  pfn_get_device_proc_addr :: "hook option"
  pfn_get_physical_device_proc_addr :: "hook option"

definition negotiate :: "negotiate_interface option \<Rightarrow> vk_result \<times> negotiate_interface option" where
  "negotiate req =
     (case req of
        None \<Rightarrow> (ERROR_INITIALIZATION_FAILED, None)
      | Some v \<Rightarrow> (SUCCESS, Some (v\<lparr>
          loader_layer_interface_version := min (loader_layer_interface_version v) CURRENT_LOADER_LAYER_INTERFACE_VERSION,
          pfn_get_instance_proc_addr := Some H_get_instance_proc_addr,
          pfn_get_device_proc_addr := Some H_get_device_proc_addr,
          pfn_get_physical_device_proc_addr := None\<rparr>)))"

lemma negotiated_version:
  "negotiate (Some v) = (SUCCESS, Some w) \<Longrightarrow>
     loader_layer_interface_version w \<le> loader_layer_interface_version v \<and> loader_layer_interface_version w \<le> 2"
  by (auto simp: negotiate_def CURRENT_LOADER_LAYER_INTERFACE_VERSION_def min_def)

lemma intercepted_names: "distinct (map fst INSTANCE_FUNCTIONS)" "distinct (map fst DEVICE_FUNCTIONS)"
  by (simp_all add: INSTANCE_FUNCTIONS_def DEVICE_FUNCTIONS_def)

text \<open>
  Loading and interception are complete: a device table loads exactly when the next layer
  resolves every required core function (otherwise the process stops), each optional slot
  holds what the next layer answers for its own name, the four slots with an alias fall back
  to the alias exactly when their own name is missing, and on the loaded device every name
  the layer does not intercept is answered as the next layer answers it, while the two
  variants of an intercepted function keep hooks of their own.
\<close>

theorem device_dispatch_complete:
  shows "(device_table_load gdpa = Inl Panic \<longleftrightarrow> \<not> list_all (\<lambda>n. gdpa n \<noteq> None) REQUIRED_DEVICE_FUNCTIONS)
    \<and> (\<forall>t. device_table_load gdpa = Inr t \<longrightarrow>
          dt_get_device_proc_addr t = gdpa
        \<and> gdpa ''vkQueueSubmit'' = Some (dt_queue_submit t)
        \<and> dt_queue_submit2 t = gdpa ''vkQueueSubmit2'' \<and> dt_queue_submit2_khr t = gdpa ''vkQueueSubmit2KHR''
        \<and> dt_reset_query_pool t = (if gdpa ''vkResetQueryPool'' \<noteq> None then gdpa ''vkResetQueryPool'' else gdpa ''vkResetQueryPoolEXT'')
        \<and> dt_signal_semaphore t = (if gdpa ''vkSignalSemaphore'' \<noteq> None then gdpa ''vkSignalSemaphore'' else gdpa ''vkSignalSemaphoreKHR'')
        \<and> (\<forall>registry device name. device \<noteq> 0 \<longrightarrow> registry device = Some t \<longrightarrow>
             get_device_proc_addr registry device (Some name) =
               (if name \<in> fst ` set DEVICE_FUNCTIONS then map_option Hook (map_of DEVICE_FUNCTIONS name)
                else map_option Next (gdpa name))))
    \<and> map_of DEVICE_FUNCTIONS ''vkQueueSubmit2'' \<noteq> map_of DEVICE_FUNCTIONS ''vkQueueSubmit2KHR''"
proof -
  have tot: "device_table_load gdpa = Inl Panic \<longleftrightarrow> \<not> list_all (\<lambda>n. gdpa n \<noteq> None) REQUIRED_DEVICE_FUNCTIONS"
  proof (cases "device_table_load gdpa")
    case (Inl e)
    then show ?thesis using device_table_total [of gdpa] by (cases e) auto
  next
    case (Inr t)
    then show ?thesis using device_table_total [of gdpa] by auto
  qed
  have get: "get_device_proc_addr registry device (Some name) =
      (if name \<in> fst ` set DEVICE_FUNCTIONS then map_option Hook (map_of DEVICE_FUNCTIONS name) else map_option Next (gdpa name))"
    if "device \<noteq> 0" "registry device = Some t" "dt_get_device_proc_addr t = gdpa" for registry device name t
  proof (cases "map_of DEVICE_FUNCTIONS name")
    case None
    then have "name \<notin> fst ` set DEVICE_FUNCTIONS" by (simp add: map_of_eq_None_iff)
    then show ?thesis using None that by (simp add: get_device_proc_addr_def)
  next
    case (Some f)
    then have "name \<in> fst ` set DEVICE_FUNCTIONS" by (metis map_of_eq_None_iff option.distinct(1))
    then show ?thesis using Some that by (simp add: get_device_proc_addr_def)
  qed
  have slots: "dt_get_device_proc_addr t = gdpa \<and> gdpa ''vkQueueSubmit'' = Some (dt_queue_submit t)
      \<and> dt_queue_submit2 t = gdpa ''vkQueueSubmit2'' \<and> dt_queue_submit2_khr t = gdpa ''vkQueueSubmit2KHR''
      \<and> dt_reset_query_pool t = (if gdpa ''vkResetQueryPool'' \<noteq> None then gdpa ''vkResetQueryPool'' else gdpa ''vkResetQueryPoolEXT'')
      \<and> dt_signal_semaphore t = (if gdpa ''vkSignalSemaphore'' \<noteq> None then gdpa ''vkSignalSemaphore'' else gdpa ''vkSignalSemaphoreKHR'')"
    if "device_table_load gdpa = Inr t" for t
    using that by (clarsimp simp: device_table_load_def require_Inr or_else_None)
  show ?thesis
  proof (intro conjI)
    show "map_of DEVICE_FUNCTIONS ''vkQueueSubmit2'' \<noteq> map_of DEVICE_FUNCTIONS ''vkQueueSubmit2KHR''"
      by (simp add: DEVICE_FUNCTIONS_def)
  qed (use tot slots get in blast)+
qed

theorem device_dispatch_complete_witness:
  "\<exists>t. device_table_load (\<lambda>n. if n = ''vkResetQueryPool'' then None else Some (length n)) = Inr t
     \<and> dt_reset_query_pool t = Some 19"
proof -
  let ?g = "\<lambda>n. if n = ''vkResetQueryPool'' then None else Some (length n)"
  have "list_all (\<lambda>n. ?g n \<noteq> None) REQUIRED_DEVICE_FUNCTIONS" by (simp add: REQUIRED_DEVICE_FUNCTIONS_def)
  then obtain t where t: "device_table_load ?g = Inr t" using device_table_total [of ?g] by blast
  show ?thesis using device_dispatch_complete [of ?g] t by auto
qed

end
