(* ===== verification/PresentThread.thy ===== *)
theory PresentThread
  imports PresentWait Dispatch
begin

text \<open>
  The thread of \<open>PresentWaitWorker\<close> (\<open>new\<close>, \<open>enqueue\<close>, \<open>run\<close> and \<open>Drop\<close> of
  \<open>src/present_wait.rs\<close>) at work on the marker history it shares with the application: the
  loop of \<open>WorkerLoop\<close> composed with what it does with an item, the wait in the driver and
  the record of its end being steps of their own. The refinement lemma says that whatever
  the interleaving, the history is that of its operations in the order they took its lock.
\<close>

section \<open>The thread\<close>

text \<open>
  \<open>pt_waiting\<close> is the item whose \<open>vkWaitForPresentKHR\<close> has not returned. \<open>pt_turns\<close> and
  \<open>pt_ops\<close> are histories: the items waited for with the driver's answers and the clock
  readings after them, and the operations on the marker history.
\<close>

record present_thread =
  pt_worker :: "present_pending worker"
  pt_waiting :: "present_pending option"
  pt_markers :: history
  pt_turns :: "(present_pending \<times> vk_result \<times> u64) list"
  pt_ops :: "history_op list"

text \<open>\<open>n\<close> bounds the presents the application still makes.\<close>

definition present_wait_worker_new :: "device_table \<Rightarrow> nat \<Rightarrow> history \<Rightarrow> present_thread option" where
  "present_wait_worker_new fns n markers =
     (if dt_wait_for_present_khr fns = None then None
      else Some \<lparr>pt_worker = worker_start n, pt_waiting = None, pt_markers = markers, pt_turns = [], pt_ops = []\<rparr>)"

definition actual_ops :: "present_pending \<times> vk_result \<times> u64 \<Rightarrow> history_op list" where
  "actual_ops turn = (case turn of (item, r, t) \<Rightarrow> if r = SUCCESS then [PresentActualOp (pp_present_id item) t] else [])"

definition is_actual :: "history_op \<Rightarrow> bool" where
  "is_actual op = (case op of PresentActualOp _ _ \<Rightarrow> True | _ \<Rightarrow> False)"

text \<open>
  The worker takes no step of its loop while it waits in the driver. Everyone else steps at
  any time: the application enqueues presents and records markers, the monitor records GPU
  timings, the destructor sets the flag, notifies and joins.
\<close>

inductive present_step :: "present_thread \<Rightarrow> present_thread \<Rightarrow> bool" where
  own: "pt_waiting s = None \<Longrightarrow> worker_step False (pt_worker s) = Some w \<Longrightarrow>
     present_step s (s\<lparr>pt_worker := w,
       pt_waiting := (if taken_log w = taken_log (pt_worker s) then None else Some (last (taken_log w)))\<rparr>)"
| waited: "pt_waiting s = Some item \<Longrightarrow> present_waited item r t (pt_markers s) = Inr h \<Longrightarrow>
     present_step s (s\<lparr>pt_waiting := None, pt_markers := h, pt_turns := pt_turns s @ [(item, r, t)],
       pt_ops := pt_ops s @ actual_ops (item, r, t)\<rparr>)"
| enqueue: "loop_step False (pt_worker s) w \<Longrightarrow> wqueue w = present_wait_enqueue sw pid (wqueue (pt_worker s)) \<Longrightarrow> pid \<noteq> 0 \<Longrightarrow>
     present_step s (s\<lparr>pt_worker := w\<rparr>)"
| others: "loop_step False (pt_worker s) w \<Longrightarrow> worker_step False (pt_worker s) \<noteq> Some w \<Longrightarrow>
     wqueue w = wqueue (pt_worker s) \<Longrightarrow> present_step s (s\<lparr>pt_worker := w\<rparr>)"
| app_op: "\<not> is_actual op \<Longrightarrow> run_history_op op (pt_markers s) = Inr h \<Longrightarrow>
     present_step s (s\<lparr>pt_markers := h, pt_ops := pt_ops s @ [op]\<rparr>)"

section \<open>Invariant\<close>

lemma run_history_append:
  "run_history (ops @ ops') h = (case run_history ops h of Inl e \<Rightarrow> Inl e | Inr h' \<Rightarrow> run_history ops' h')"
  by (induction ops arbitrary: h) (auto split: sum.split)

lemma present_waited_op: "present_waited item r t h = run_history (actual_ops (item, r, t)) h"
  by (cases r) (auto simp: present_waited_def actual_ops_def run_history_op_def split: sum.split)

lemma worker_step_logs:
  assumes "worker_step final s = Some t"
  shows "pushed_log t = pushed_log s \<and>
    (taken_log t = taken_log s \<and> wqueue t = wqueue s \<or> (\<exists>x. taken_log t = taken_log s @ [x] \<and> wqueue s = x # wqueue t))"
  using assms by (auto split: worker_pc.splits list.splits if_splits)

declare worker_step.simps [simp del]

lemma others_logs:
  assumes "loop_step final s t" and "worker_step final s \<noteq> Some t"
  shows "taken_log t = taken_log s \<and>
    (pushed_log t = pushed_log s \<and> wqueue t = wqueue s \<or> (\<exists>x. pushed_log t = pushed_log s @ [x] \<and> wqueue t = wqueue s @ [x]))"
  using assms by cases auto

definition present_thread_inv :: "history \<Rightarrow> present_thread \<Rightarrow> bool" where
  "present_thread_inv h0 s \<longleftrightarrow> run_history (pt_ops s) h0 = Inr (pt_markers s) \<and> history_inv (pt_markers s)
     \<and> worker_inv (pt_worker s)
     \<and> pushed_log (pt_worker s) = taken_log (pt_worker s) @ wqueue (pt_worker s)
     \<and> taken_log (pt_worker s) = map fst (pt_turns s) @ (case pt_waiting s of None \<Rightarrow> [] | Some item \<Rightarrow> [item])
     \<and> (\<forall>x\<in>set (pushed_log (pt_worker s)). pp_present_id x \<noteq> 0)
     \<and> filter is_actual (pt_ops s) = concat (map actual_ops (pt_turns s))"

lemma filter_actual_ops [simp]: "filter is_actual (actual_ops x) = actual_ops x"
  by (auto simp: actual_ops_def is_actual_def split: prod.split)

lemma present_step_inv:
  assumes "present_step s t" and inv: "present_thread_inv h0 s"
  shows "present_thread_inv h0 t"
  using assms(1)
proof cases
  case (own w)
  have l: "loop_step False (pt_worker s) w" using own(3) by (rule loop_step.work)
  show ?thesis
    using worker_step_logs [OF own(3)] loop_step_inv [OF l] own inv by (auto simp: present_thread_inv_def)
next
  case (waited item r t' h)
  obtain h' where "run_history (actual_ops (item, r, t')) (pt_markers s) = Inr h'" "history_inv h'"
    using run_history_inv inv unfolding present_thread_inv_def by blast
  then show ?thesis
    using waited inv by (simp add: present_thread_inv_def present_waited_op run_history_append)
next
  case (enqueue w sw pid)
  have "wqueue w = wqueue (pt_worker s) @ [\<lparr>pp_swapchain = sw, pp_present_id = pid\<rparr>]"
    using enqueue by (simp add: present_wait_enqueue_def)
  moreover from this have "worker_step False (pt_worker s) \<noteq> Some w"
    using worker_step_logs [of False "pt_worker s" w] by auto
  ultimately show ?thesis
    using others_logs [OF enqueue(2)] loop_step_inv [OF enqueue(2)] enqueue inv by (auto simp: present_thread_inv_def)
next
  case (others w)
  then show ?thesis
    using others_logs [OF others(2,3)] loop_step_inv [OF others(2)] inv by (auto simp: present_thread_inv_def)
next
  case (app_op op h)
  then obtain h' where "run_history_op op (pt_markers s) = Inr h'" "history_inv h'"
    using run_history_op_effect inv unfolding present_thread_inv_def by blast
  then show ?thesis using app_op inv by (simp add: present_thread_inv_def run_history_append)
qed

interpretation pti: invariant_system present_step "present_thread_inv h0" for h0
  by unfold_locales (rule present_step_inv)

lemma present_thread_start_inv:
  "history_inv h0 \<Longrightarrow> present_wait_worker_new fns n h0 = Some s \<Longrightarrow> present_thread_inv h0 s"
  using worker_start_inv by (auto simp: present_wait_worker_new_def present_thread_inv_def worker_start_def split: if_splits)

section \<open>Property\<close>

text \<open>
  C26. The present-wait worker, among all the threads that use the marker history: every
  present that was enqueued is waited for exactly once and in order, or still queued; the
  history is what its operations make of the initial one, and the display times in it are
  those of the waits that succeeded, in their order, with the clock reading taken after the
  wait; an id 0 is never queued; whatever the driver answers, the worker goes on without a
  panic; and a worker that sleeps on a non-empty queue is owed a notification.
\<close>

theorem present_thread_refines_history:
  assumes "history_inv h0" and "present_wait_worker_new fns n h0 = Some s0" and "rtranclp present_step s0 s"
  shows "run_history (pt_ops s) h0 = Inr (pt_markers s)
    \<and> filter is_actual (pt_ops s) = concat (map actual_ops (pt_turns s))
    \<and> pushed_log (pt_worker s) = map fst (pt_turns s) @ (case pt_waiting s of None \<Rightarrow> [] | Some item \<Rightarrow> [item]) @ wqueue (pt_worker s)
    \<and> (\<forall>x\<in>set (pushed_log (pt_worker s)). pp_present_id x \<noteq> 0)
    \<and> (\<forall>item r t. pt_waiting s = Some item \<longrightarrow> (\<exists>s'. present_step s s' \<and> pt_waiting s' = None \<and> pt_turns s' = pt_turns s @ [(item, r, t)]))
    \<and> (wpc (pt_worker s) = Parked \<and> wqueue (pt_worker s) \<noteq> [] \<longrightarrow> 0 < owed (pt_worker s))"
proof -
  have inv: "present_thread_inv h0 s" using pti.steps_inv [OF assms(3)] present_thread_start_inv [OF assms(1,2)] .
  have "\<exists>s'. present_step s s' \<and> pt_waiting s' = None \<and> pt_turns s' = pt_turns s @ [(item, r, t)]"
    if "pt_waiting s = Some item" for item r t
  proof -
    obtain h where "present_waited item r t (pt_markers s) = Inr h"
      using present_waited_frame inv unfolding present_thread_inv_def by blast
    from waited [OF that this] show ?thesis
      by (intro exI [of _ "s\<lparr>pt_waiting := None, pt_markers := h, pt_turns := pt_turns s @ [(item, r, t)],
        pt_ops := pt_ops s @ actual_ops (item, r, t)\<rparr>"]) simp
  qed
  then show ?thesis using inv by (simp add: present_thread_inv_def worker_inv_def)
qed

text \<open>One present with id 7, waited for successfully; the frame is known.\<close>

theorem present_thread_refines_history_witness:
  "\<exists>fns s0 s h0. history_inv h0 \<and> present_wait_worker_new fns 1 h0 = Some s0 \<and> rtranclp present_step s0 s
     \<and> pt_ops s = [PresentActualOp 7 5000] \<and> run_history (pt_ops s) h0 = Inr (pt_markers s)"
proof -
  obtain fns :: device_table where fns: "dt_wait_for_present_khr fns \<noteq> None"
    by (rule that [of "undefined\<lparr>dt_wait_for_present_khr := Some 1\<rparr>"]) simp
  let ?i = "\<lparr>pp_swapchain = 1, pp_present_id = 7\<rparr>"
  let ?h = "append_frame (frame_default 7) history_new"
  have inv: "history_inv ?h"
    using append_frame_inv [OF history_new_inv, of "frame_default 7"] by (simp add: history_new_def HISTORY_CAP_def)
  let ?s0 = "\<lparr>pt_worker = worker_start 1, pt_waiting = None, pt_markers = ?h, pt_turns = [], pt_ops = []\<rparr>"
  have start: "present_wait_worker_new fns 1 ?h = Some ?s0" using fns by (simp add: present_wait_worker_new_def)
  let ?w1 = "(worker_start 1)\<lparr>wqueue := [?i], pushed_log := [?i], budget := 0, owed := 1\<rparr>"
  let ?w2 = "?w1\<lparr>wqueue := [], taken_log := [?i]\<rparr>"
  have 1: "present_step ?s0 (?s0\<lparr>pt_worker := ?w1\<rparr>)"
    using enqueue [of ?s0 ?w1 1 7] loop_step.push [of "worker_start 1" 0 False ?i]
    by (simp add: worker_start_def present_wait_enqueue_def)
  have 2: "present_step (?s0\<lparr>pt_worker := ?w1\<rparr>) (?s0\<lparr>pt_worker := ?w2, pt_waiting := Some ?i\<rparr>)"
    using own [of "?s0\<lparr>pt_worker := ?w1\<rparr>" ?w2] by (simp add: worker_start_def worker_step.simps)
  obtain h where h: "present_waited ?i SUCCESS 5000 ?h = Inr h" using present_waited_frame [OF inv] by blast
  let ?t = "?s0\<lparr>pt_worker := ?w2, pt_waiting := None, pt_markers := h, pt_turns := [(?i, SUCCESS, 5000)], pt_ops := [PresentActualOp 7 5000]\<rparr>"
  have 3: "present_step (?s0\<lparr>pt_worker := ?w2, pt_waiting := Some ?i\<rparr>) ?t"
    using waited [of "?s0\<lparr>pt_worker := ?w2, pt_waiting := Some ?i\<rparr>" ?i SUCCESS 5000 h] h by (simp add: actual_ops_def)
  have r: "rtranclp present_step ?s0 ?t" using 1 2 3 by (meson rtranclp.rtrancl_refl rtranclp.rtrancl_into_rtrancl)
  have "run_history (pt_ops ?t) ?h = Inr (pt_markers ?t)" using present_thread_refines_history [OF inv start r] by blast
  then show ?thesis using inv start r by (intro exI [of _ fns] exI [of _ ?s0] exI [of _ ?t] exI [of _ ?h]) simp
qed

end
