(* ===== verification/GoogleWorker.thy ===== *)
theory GoogleWorker
  imports PresentWait
begin

text \<open>
  The thread of \<open>GoogleTimingWorker\<close> (\<open>run_google\<close> and \<open>Drop\<close> of \<open>src/present_wait.rs\<close>) among
  the calls of the application: it takes a snapshot of the swapchains, polls them one by one
  and waits for a notification, but never longer than its poll interval. The refinement
  lemma says that whatever the interleaving, its effect is that of the operations of
  \<open>PresentWait\<close> in the order they took the lock; and unlike the other two workers this one
  cannot miss its end, because its wait is timed.
\<close>

section \<open>The thread\<close>

text \<open>\<open>LockHeld\<close> is the point between taking the wake lock and waiting or releasing it.\<close>

datatype google_pc = TopCheck | PollNext "nat list" | LockHeld | Waiting | Gone

text \<open>\<open>gt_ops\<close> and \<open>gt_pairs\<close> are histories: the operations in the order they took effect and what they recorded.\<close>

record google_thread =
  gt_state :: "google_inner \<times> history"
  gt_pc :: google_pc
  gt_stop :: bool
  gt_owner :: owner_pc
  gt_ops :: "google_op list"
  gt_pairs :: "(nat \<times> u64 \<times> u64) list"

definition google_thread_start :: google_thread where
  "google_thread_start = \<lparr>gt_state = (google_new, history_new), gt_pc = TopCheck, gt_stop = False, gt_owner = Running,
     gt_ops = [], gt_pairs = []\<rparr>"

text \<open>An operation under the lock of the pending map; a panic would end the process.\<close>

definition google_do :: "google_op \<Rightarrow> google_thread \<Rightarrow> google_thread option" where
  "google_do op s =
     (case google_step op (gt_state s) of
        Inl e \<Rightarrow> None
      | Inr (st, recs) \<Rightarrow> Some (s\<lparr>gt_state := st, gt_ops := gt_ops s @ [op], gt_pairs := gt_pairs s @ recs\<rparr>))"

text \<open>The steps of the worker. The order of a snapshot is that of a hash map, that is, any order.\<close>

inductive google_work :: "google_thread \<Rightarrow> google_thread \<Rightarrow> bool" where
  top_stop: "gt_pc s = TopCheck \<Longrightarrow> gt_stop s \<Longrightarrow> google_work s (s\<lparr>gt_pc := Gone\<rparr>)"
| snapshot: "gt_pc s = TopCheck \<Longrightarrow> \<not> gt_stop s \<Longrightarrow> distinct ks \<Longrightarrow> set ks = dom (g_pending (fst (gt_state s)))
     \<Longrightarrow> google_work s (s\<lparr>gt_pc := PollNext ks\<rparr>)"
| poll: "gt_pc s = PollNext (sw # ks) \<Longrightarrow> google_do (GPoll sw p) s = Some t \<Longrightarrow> google_work s (t\<lparr>gt_pc := PollNext ks\<rparr>)"
| polled: "gt_pc s = PollNext [] \<Longrightarrow> google_work s (s\<lparr>gt_pc := LockHeld\<rparr>)"
| no_wait: "gt_pc s = LockHeld \<Longrightarrow> gt_stop s \<Longrightarrow> google_work s (s\<lparr>gt_pc := TopCheck\<rparr>)"
| wait: "gt_pc s = LockHeld \<Longrightarrow> \<not> gt_stop s \<Longrightarrow> google_work s (s\<lparr>gt_pc := Waiting\<rparr>)"
| timeout: "gt_pc s = Waiting \<Longrightarrow> google_work s (s\<lparr>gt_pc := TopCheck\<rparr>)"

text \<open>
  The steps of everyone: the application enqueues and forgets while the owner is alive, its
  notifications need the wake lock; the destructor stores the flag and notifies without it.
\<close>

inductive google_loop :: "google_thread \<Rightarrow> google_thread \<Rightarrow> bool" where
  work: "google_work s t \<Longrightarrow> google_loop s t"
| enqueue: "gt_owner s = Running \<Longrightarrow> google_do (GEnqueue sw pid) s = Some t \<Longrightarrow> google_loop s t"
| forget: "gt_owner s = Running \<Longrightarrow> google_do (GForget sw) s = Some t \<Longrightarrow> google_loop s t"
| notify: "gt_owner s = Running \<Longrightarrow> gt_pc s \<noteq> LockHeld \<Longrightarrow>
     google_loop s (s\<lparr>gt_pc := (if gt_pc s = Waiting then TopCheck else gt_pc s)\<rparr>)"
| set_stop: "gt_owner s = Running \<Longrightarrow> google_loop s (s\<lparr>gt_stop := True, gt_owner := StopSet\<rparr>)"
| notify_all: "gt_owner s = StopSet \<Longrightarrow>
     google_loop s (s\<lparr>gt_pc := (if gt_pc s = Waiting then TopCheck else gt_pc s), gt_owner := Joining\<rparr>)"
| join: "gt_owner s = Joining \<Longrightarrow> gt_pc s = Gone \<Longrightarrow> google_loop s (s\<lparr>gt_owner := Joined\<rparr>)"

inductive_simps google_work_simps: "google_work s t"

section \<open>Refinement of the operations\<close>

lemma google_run_append:
  "google_run (ops @ [op]) st =
     (case google_run ops st of
        Inl e \<Rightarrow> Inl e
      | Inr (st', log1) \<Rightarrow> (case google_step op st' of Inl e \<Rightarrow> Inl e | Inr (st'', log2) \<Rightarrow> Inr (st'', log1 @ log2)))"
  by (induction ops arbitrary: st) (auto split: sum.splits)

text \<open>
  Invariant: the state is what the operations so far make of the start; the map of pending
  presents is finite; the flag is set exactly when the owner has begun to drop.
\<close>

definition google_thread_inv :: "google_thread \<Rightarrow> bool" where
  "google_thread_inv s \<longleftrightarrow> google_run (gt_ops s) (google_new, history_new) = Inr (gt_state s, gt_pairs s)
     \<and> history_inv (snd (gt_state s)) \<and> finite (dom (g_pending (fst (gt_state s))))
     \<and> (gt_stop s \<longleftrightarrow> gt_owner s \<noteq> Running) \<and> (gt_owner s = Joined \<longrightarrow> gt_pc s = Gone)"

lemma google_step_inv:
  assumes "history_inv (snd st)" and "finite (dom (g_pending (fst st)))"
  shows "\<exists>st' recs. google_step op st = Inr (st', recs) \<and> history_inv (snd st') \<and> finite (dom (g_pending (fst st')))"
proof (cases op)
  case (GPoll sw p)
  obtain g h where st: "st = (g, h)" by (cases st)
  obtain g' h' pairs where r: "google_poll_swapchain sw p (g, h) = Inr ((g', h'), pairs)" "history_inv h'"
    using google_poll_spec [of h sw p g] assms(1) st by auto
  then have "g_pending g' = g_pending g \<or> (\<exists>f. g_pending g' = (g_pending g)(sw \<mapsto> f))"
    by (auto simp: google_poll_swapchain_def Let_def split: option.splits sum.splits)
  then have "finite (dom (g_pending g'))" using assms(2) st by auto
  then show ?thesis using r GPoll st by (simp add: google_step_def)
qed (use assms in \<open>simp_all add: google_step_def google_enqueue_def forget_swapchain_def\<close>)

lemma google_do_inv:
  assumes "google_thread_inv s"
  shows "\<exists>t. google_do op s = Some t \<and> google_thread_inv t
    \<and> gt_pc t = gt_pc s \<and> gt_stop t = gt_stop s \<and> gt_owner t = gt_owner s"
proof -
  obtain st recs where "google_step op (gt_state s) = Inr (st, recs)" "history_inv (snd st)" "finite (dom (g_pending (fst st)))"
    using google_step_inv assms unfolding google_thread_inv_def by blast
  then show ?thesis
    using assms by (simp add: google_do_def google_thread_inv_def google_run_append)
qed

lemma google_work_inv:
  assumes "google_work s t" and "google_thread_inv s"
  shows "google_thread_inv t \<and> gt_stop t = gt_stop s \<and> gt_owner t = gt_owner s"
  using assms
proof cases
  case (poll sw ks p u)
  then show ?thesis using google_do_inv [OF assms(2), of "GPoll sw p"] by (auto simp: google_thread_inv_def)
qed (auto simp: google_thread_inv_def)

lemma google_loop_inv:
  assumes "google_loop s t" and "google_thread_inv s"
  shows "google_thread_inv t"
  using assms
proof cases
  case work
  then show ?thesis using google_work_inv assms(2) by blast
next
  case (enqueue sw pid)
  then show ?thesis using google_do_inv [OF assms(2), of "GEnqueue sw pid"] by auto
next
  case (forget sw)
  then show ?thesis using google_do_inv [OF assms(2), of "GForget sw"] by auto
qed (use assms(2) in \<open>auto simp: google_thread_inv_def\<close>)

interpretation gti: invariant_system google_loop google_thread_inv
  by unfold_locales (rule google_loop_inv)

lemma google_thread_start_inv: "google_thread_inv google_thread_start"
  by (simp add: google_thread_start_def google_thread_inv_def history_new_inv google_new_def)

lemma google_thread_reach: "rtranclp google_loop google_thread_start s \<Longrightarrow> google_thread_inv s"
  using gti.steps_inv google_thread_start_inv by blast

text \<open>
  In every reachable state of the thread, what it has recorded for a swapchain and what
  still waits are, in order, what was enqueued, as long as its poller kept up.
\<close>

lemma google_thread_pairs:
  assumes "rtranclp google_loop google_thread_start s" and "keeps_up sw 0 (gt_ops s)"
  shows "enqueued_ids sw (gt_ops s) = map fst (pairs_of sw (gt_pairs s)) @ fifo_of (fst (gt_state s)) sw
    \<and> list_all2 answers (pairs_of sw (gt_pairs s)) (delivered sw (gt_ops s))"
proof -
  have "google_run (gt_ops s) (google_new, history_new) = Inr (gt_state s, gt_pairs s)"
    using google_thread_reach [OF assms(1)] by (simp add: google_thread_inv_def)
  then show ?thesis
    using google_run_spec [OF history_new_inv, of sw google_new "gt_ops s"] assms(2)
    by (auto simp: google_new_def fifo_of_def)
qed

section \<open>The end of the thread\<close>

text \<open>How many steps the worker has left once the flag is set.\<close>

fun google_steps_left :: "google_pc \<Rightarrow> nat" where
  "google_steps_left TopCheck = 1"
| "google_steps_left (PollNext ks) = length ks + 3"
| "google_steps_left LockHeld = 2"
| "google_steps_left Waiting = 2"
| "google_steps_left Gone = 0"

lemma google_do_fields: "google_do op s = Some t \<Longrightarrow> gt_pc t = gt_pc s \<and> gt_stop t = gt_stop s \<and> gt_owner t = gt_owner s"
  by (auto simp: google_do_def split: sum.splits)

lemma google_work_left:
  "google_work s t \<Longrightarrow> gt_stop s \<Longrightarrow> google_steps_left (gt_pc s) = Suc (google_steps_left (gt_pc t)) \<and> gt_stop t"
  by (induction rule: google_work.induct) (auto dest: google_do_fields)

lemma google_work_progress:
  assumes "google_thread_inv s" and "gt_pc s \<noteq> Gone" and "gt_stop s"
  shows "\<exists>t. google_work s t"
proof (cases "gt_pc s")
  case TopCheck
  then show ?thesis using top_stop assms(3) by blast
next
  case (PollNext ks)
  show ?thesis
  proof (cases ks)
    case Nil
    then show ?thesis using PollNext polled by blast
  next
    case (Cons sw rest)
    obtain t where "google_do (GPoll sw undefined) s = Some t" using google_do_inv [OF assms(1)] by blast
    then show ?thesis using PollNext Cons poll by blast
  qed
next
  case LockHeld
  then show ?thesis using no_wait assms(3) by blast
next
  case Waiting
  then show ?thesis using timeout by blast
qed (use assms(2) in simp)

lemma google_work_runs:
  assumes "google_thread_inv s" and "gt_stop s"
  shows "\<exists>t. (google_work ^^ google_steps_left (gt_pc s)) s t \<and> gt_pc t = Gone"
  using assms
proof (induction "google_steps_left (gt_pc s)" arbitrary: s)
  case 0
  then show ?case by (cases "gt_pc s") auto
next
  case (Suc n)
  obtain u where u: "google_work s u" using google_work_progress Suc.prems Suc.hyps(2) by fastforce
  then have n: "n = google_steps_left (gt_pc u)" "gt_stop u" "google_thread_inv u"
    using google_work_left [OF u Suc.prems(2)] google_work_inv [OF u Suc.prems(1)] Suc.hyps(2) by auto
  then obtain t where "(google_work ^^ n) u t" "gt_pc t = Gone" using Suc.hyps(1) by blast
  then show ?case using u Suc.hyps(2) by (metis relpowp_Suc_I2)
qed

lemma google_work_bounded: "(google_work ^^ n) s t \<Longrightarrow> gt_stop s \<Longrightarrow> n + google_steps_left (gt_pc t) = google_steps_left (gt_pc s)"
proof (induction n arbitrary: s)
  case (Suc n)
  then obtain u where "google_work s u" "(google_work ^^ n) u t" by (meson relpowp_Suc_D2)
  then show ?case using google_work_left [of s u] Suc by auto
qed simp

text \<open>
  C34. Dropping the display-timing worker never hangs: from every state the thread can be in
  once the flag is set, in whatever moment that happened, it leaves in exactly as many of its
  own steps as \<open>google_steps_left\<close> counts (the swapchains still to be polled and at most
  three more), whatever the driver answers and even if every notification is lost, and no
  step of the owner makes that number grow; then the join succeeds.
\<close>

theorem google_worker_always_joins:
  assumes "rtranclp google_loop google_thread_start s" and "gt_stop s"
  shows "(\<exists>t. (google_work ^^ google_steps_left (gt_pc s)) s t \<and> gt_pc t = Gone)
    \<and> (\<forall>n t. (google_work ^^ n) s t \<longrightarrow> n \<le> google_steps_left (gt_pc s))
    \<and> (\<forall>t. google_loop s t \<longrightarrow> gt_stop t \<and> google_steps_left (gt_pc t) \<le> google_steps_left (gt_pc s))
    \<and> (gt_pc s = Gone \<longrightarrow> gt_owner s \<noteq> Joined \<longrightarrow> (\<exists>t. rtranclp google_loop s t \<and> gt_owner t = Joined))"
proof -
  have inv: "google_thread_inv s" using assms(1) by (rule google_thread_reach)
  then have owner: "gt_owner s \<noteq> Running" using assms(2) by (simp add: google_thread_inv_def)
  have mono: "gt_stop t \<and> google_steps_left (gt_pc t) \<le> google_steps_left (gt_pc s)" if "google_loop s t" for t
    using that
  proof cases
    case work
    then show ?thesis using google_work_left [OF _ assms(2)] by fastforce
  qed (use owner assms(2) in auto)
  have joined: "\<exists>t. rtranclp google_loop s t \<and> gt_owner t = Joined" if gone: "gt_pc s = Gone" "gt_owner s \<noteq> Joined"
  proof (cases "gt_owner s")
    case StopSet
    let ?u = "s\<lparr>gt_pc := (if gt_pc s = Waiting then TopCheck else gt_pc s), gt_owner := Joining\<rparr>"
    have "google_loop s ?u" "google_loop ?u (?u\<lparr>gt_owner := Joined\<rparr>)"
      using notify_all [OF StopSet] join [of ?u] gone by auto
    then show ?thesis by (intro exI [of _ "?u\<lparr>gt_owner := Joined\<rparr>"]) (simp add: rtranclp.rtrancl_into_rtrancl)
  next
    case Joining
    then show ?thesis using join [of s] gone by (intro exI [of _ "s\<lparr>gt_owner := Joined\<rparr>"]) auto
  qed (use owner gone in auto)
  show ?thesis
    using google_work_runs [OF inv assms(2)] google_work_bounded [OF _ assms(2)] mono joined by (metis le_add1)
qed

text \<open>A worker that is waiting when the destructor stores the flag.\<close>

theorem google_worker_always_joins_witness:
  "\<exists>s t. gt_pc s = Waiting \<and> gt_owner s = StopSet \<and> gt_stop s \<and> (google_work ^^ 2) s t \<and> gt_pc t = Gone"
proof -
  let ?a = "google_thread_start"
  let ?b = "?a\<lparr>gt_pc := PollNext []\<rparr>"
  let ?c = "?b\<lparr>gt_pc := LockHeld\<rparr>"
  let ?d = "?c\<lparr>gt_pc := Waiting\<rparr>"
  let ?e = "?d\<lparr>gt_stop := True, gt_owner := StopSet\<rparr>"
  have "google_loop ?a ?b" by (rule work, rule snapshot) (simp_all add: google_thread_start_def google_new_def)
  moreover have "google_loop ?b ?c" by (rule work, rule polled) simp
  moreover have "google_loop ?c ?d" by (rule work, rule wait) (simp_all add: google_thread_start_def)
  moreover have "google_loop ?d ?e" by (rule set_stop) (simp add: google_thread_start_def)
  ultimately have "rtranclp google_loop ?a ?e" by (meson rtranclp.rtrancl_refl rtranclp.rtrancl_into_rtrancl)
  then obtain t where "(google_work ^^ google_steps_left (gt_pc ?e)) ?e t" "gt_pc t = Gone"
    using google_worker_always_joins [of ?e] by auto
  then show ?thesis by (intro exI [of _ ?e] exI [of _ t]) (simp add: numeral_2_eq_2)
qed

end
