(* ===== verification/Extensions.thy ===== *)
theory Extensions
  imports Config
begin

text \<open>
  What the layer tells an application about a physical device, and what it asks the driver
  for: \<open>PhysicalDeviceContext::new\<close> and \<open>list_available_extensions\<close> of
  \<open>src/physical_device.rs\<close>, and \<open>enumerate_device_extension_properties\<close>, \<open>make_ext_prop\<close>,
  \<open>ext_name_eq\<close>, \<open>apply_nvidia_spoof_v1\<close>, the present modes of
  \<open>get_physical_device_surface_capabilities2_khr\<close> and the extension list of \<open>create_device\<close>
  in \<open>src/lib.rs\<close>. A C string is the list of its bytes (a \<open>char\<close> is a byte); a fixed array
  \<open>[c_char; 256]\<close> is a list of that length. The driver's answers are parameters.
\<close>

section \<open>Names in fixed arrays\<close>

definition NAME_LEN :: nat where "NAME_LEN = 256"

abbreviation NUL :: char where "NUL \<equiv> CHR 0x00"

text \<open>The string a C program reads from an array.\<close>

definition c_string :: "string \<Rightarrow> string" where
  "c_string arr = takeWhile (\<lambda>c. c \<noteq> NUL) arr"

record ext_prop =
  extension_name :: string
  spec_version :: u32

definition ext_prop_default :: ext_prop where
  "ext_prop_default = \<lparr>extension_name = replicate NAME_LEN NUL, spec_version = 0\<rparr>"

definition make_ext_prop :: "string \<Rightarrow> u32 \<Rightarrow> ext_prop" where
  "make_ext_prop name version =
     (let out = ext_prop_default;
          len = min (length name) (length (extension_name out) - 1)
      in out\<lparr>extension_name := take len name @ drop len (extension_name out), spec_version := version\<rparr>)"

definition ext_name_eq :: "ext_prop \<Rightarrow> string \<Rightarrow> bool" where
  "ext_name_eq prop name \<longleftrightarrow> c_string (extension_name prop) = name"

lemma c_string_prefix: "NUL \<notin> set s \<Longrightarrow> c_string (s @ NUL # rest) = s"
  by (induction s) (auto simp: c_string_def)

lemma c_string_clean: "NUL \<notin> set (c_string s)"
  by (auto simp: c_string_def dest: set_takeWhileD)

lemma make_ext_prop_name:
  assumes "NUL \<notin> set name" and "length name < NAME_LEN"
  shows "c_string (extension_name (make_ext_prop name v)) = name"
proof -
  obtain k where k: "NAME_LEN - length name = Suc k" using assms(2) by (cases "NAME_LEN - length name") auto
  have "extension_name (make_ext_prop name v) = name @ replicate (NAME_LEN - length name) NUL"
    using assms(2) by (simp add: make_ext_prop_def ext_prop_default_def Let_def)
  then show ?thesis using c_string_prefix [OF assms(1)] by (simp add: k)
qed

section \<open>The driver's extensions\<close>

text \<open>
  The two calls of \<open>vkEnumerateDeviceExtensionProperties\<close>: with a null array, and with an
  array of the given size (the result, the count written back, the entries written).
\<close>

record enum_driver =
  enum_count :: "vk_result \<times> u32"
  enum_fill :: "u32 \<Rightarrow> vk_result \<times> u32 \<times> ext_prop list"

text \<open>The buffer after the second call: a vector of defaults of the first count, overwritten and truncated.\<close>

definition fill_buffer :: "u32 \<Rightarrow> u32 \<Rightarrow> ext_prop list \<Rightarrow> ext_prop list" where
  "fill_buffer n got written =
     take (unat got) (take (unat n) written @ replicate (unat n - length written) ext_prop_default)"

definition list_available_extensions :: "enum_driver \<Rightarrow> string list" where
  "list_available_extensions drv =
     (case enum_count drv of (r, n) \<Rightarrow>
        if r \<noteq> SUCCESS then []
        else
          (case enum_fill drv n of (r2, got, written) \<Rightarrow>
             if r2 \<noteq> SUCCESS then []
             else map (\<lambda>p. c_string (extension_name p)) (fill_buffer n got written)))"

definition REQUIRED_EXTENSIONS :: "string list" where
  "REQUIRED_EXTENSIONS = [''VK_KHR_synchronization2'', ''VK_KHR_calibrated_timestamps'', ''VK_EXT_host_query_reset'']"

definition OPTIONAL_EXTENSIONS :: "string list" where
  "OPTIONAL_EXTENSIONS = [''VK_KHR_present_id'', ''VK_KHR_present_wait'', ''VK_GOOGLE_display_timing'']"

text \<open>What the layer keeps of a physical device's extensions.\<close>

record pd_extensions =
  supports_required_extensions :: bool
  supported_optionals :: "string list"

definition pd_extensions_new :: "enum_driver \<Rightarrow> pd_extensions" where
  "pd_extensions_new drv =
     (let available = list_available_extensions drv in
      \<lparr>supports_required_extensions = list_all (\<lambda>w. list_ex (\<lambda>h. h = w) available) REQUIRED_EXTENSIONS,
       supported_optionals = filter (\<lambda>w. list_ex (\<lambda>h. h = w) available) OPTIONAL_EXTENSIONS\<rparr>)"

section \<open>The extensions a device is created with\<close>

definition watched_ext :: "layer_config \<Rightarrow> string" where
  "watched_ext cfg = (if \<not> expose_reflex cfg then ''VK_AMD_anti_lag'' else ''VK_NV_low_latency2'')"

record device_request =
  rq_layer_enabled :: bool
  rq_extensions :: "string list"
  rq_present_id :: bool
  rq_present_wait :: bool

fun push_missing :: "string list \<Rightarrow> string list \<Rightarrow> string list \<Rightarrow> string list" where
  "push_missing enabled [] storage = storage"
| "push_missing enabled (x # xs) storage =
     push_missing enabled xs (if x \<notin> set enabled then storage @ [x] else storage)"

text \<open>\<open>None\<close> is the early return with \<open>ERROR_INITIALIZATION_FAILED\<close>.\<close>

definition device_request_of :: "layer_config \<Rightarrow> pd_extensions \<Rightarrow> string list \<Rightarrow> device_request option" where
  "device_request_of cfg pd enabled_exts =
     (let layer_enabled = (watched_ext cfg \<in> set enabled_exts) in
      if layer_enabled \<and> \<not> supports_required_extensions pd then None
      else if layer_enabled then
        Some \<lparr>rq_layer_enabled = True,
          rq_extensions = push_missing enabled_exts (supported_optionals pd)
            (push_missing enabled_exts REQUIRED_EXTENSIONS enabled_exts),
          rq_present_id = list_ex (\<lambda>x. x = ''VK_KHR_present_id'') (supported_optionals pd),
          rq_present_wait = list_ex (\<lambda>x. x = ''VK_KHR_present_wait'') (supported_optionals pd)\<rparr>
      else Some \<lparr>rq_layer_enabled = False, rq_extensions = enabled_exts, rq_present_id = False, rq_present_wait = False\<rparr>)"

lemma push_missing_eq: "push_missing enabled xs storage = storage @ filter (\<lambda>x. x \<notin> set enabled) xs"
  by (induction xs arbitrary: storage) simp_all

lemma required_optional_disjoint: "set REQUIRED_EXTENSIONS \<inter> set OPTIONAL_EXTENSIONS = {}"
  by (simp add: REQUIRED_EXTENSIONS_def OPTIONAL_EXTENSIONS_def)

lemma distinct_extension_lists: "distinct REQUIRED_EXTENSIONS" "distinct OPTIONAL_EXTENSIONS"
  by (simp_all add: REQUIRED_EXTENSIONS_def OPTIONAL_EXTENSIONS_def)


definition example_driver :: enum_driver where
  "example_driver = \<lparr>enum_count = (SUCCESS, 4), enum_fill = (\<lambda>n. (SUCCESS, n,
     map (\<lambda>name. make_ext_prop name 1) (REQUIRED_EXTENSIONS @ [''VK_KHR_present_id''])))\<rparr>"

definition example_config :: layer_config where
  "example_config = \<lparr>expose_reflex = True, spoof_nvidia = False, force_decoupled = False,
     spoof_profile = \<lparr>device_id = 0x2B85, device_name = lit ''NVIDIA GeForce RTX 5090''\<rparr>,
     fps_cap = 0, vrr_enabled = False, vrr_offset_hz = 3, per_app = []\<rparr>"

lemma example_available:
  "list_available_extensions example_driver = REQUIRED_EXTENSIONS @ [''VK_KHR_present_id'']"
  by (simp add: list_available_extensions_def example_driver_def fill_buffer_def REQUIRED_EXTENSIONS_def
      make_ext_prop_name NAME_LEN_def)


section \<open>Enumerating the extensions of the device\<close>

definition our_ext :: "layer_config \<Rightarrow> string \<times> u32" where
  "our_ext cfg = (if expose_reflex cfg then (''VK_NV_low_latency2'', 2) else (''VK_AMD_anti_lag'', 1))"

definition LAYER_NAME :: string where "LAYER_NAME = ''VK_LAYER_VKPACE_reduce_latency''"

text \<open>
  The application's side: the value behind \<open>pPropertyCount\<close>, and the array behind
  \<open>pProperties\<close> (\<open>None\<close> is null), which by the Vulkan rules has at least as many elements as
  the count says. The answer is the result with both as the call leaves them; \<open>other\<close> is the
  answer of the next layer, to which a call for another layer's extensions is passed.
\<close>

type_synonym enum_answer = "vk_result \<times> u32 \<times> ext_prop list option"

definition enumerate_device_extension_properties ::
  "layer_config \<Rightarrow> enum_driver \<Rightarrow> enum_answer \<Rightarrow> string option \<Rightarrow> u32 \<Rightarrow> ext_prop list option \<Rightarrow> enum_answer" where
  "enumerate_device_extension_properties cfg drv other layer_filter count props =
     (let is_for_us = (case layer_filter of Some n \<Rightarrow> n = LAYER_NAME | None \<Rightarrow> False);
          ext = make_ext_prop (fst (our_ext cfg)) (snd (our_ext cfg))
      in if layer_filter \<noteq> None \<and> \<not> is_for_us then other
         else if is_for_us then
           (case props of
              None \<Rightarrow> (SUCCESS, 1, None)
            | Some arr \<Rightarrow> if count = 0 then (INCOMPLETE, count, Some arr) else (SUCCESS, 1, Some (arr[0 := ext])))
         else
           (case enum_count drv of (r, n) \<Rightarrow>
              if r \<noteq> SUCCESS then (r, count, props)
              else
                (case enum_fill drv n of (r2, got, written) \<Rightarrow>
                   if r2 \<noteq> SUCCESS then (r2, count, props)
                   else
                     (let buf = fill_buffer n got written;
                          already = list_ex (\<lambda>e. ext_name_eq e (fst (our_ext cfg))) buf;
                          total = got + (if already then 0 else 1)
                      in case props of
                           None \<Rightarrow> (SUCCESS, total, None)
                         | Some arr \<Rightarrow>
                             (let to_copy = unat (min count got);
                                  copied = take to_copy buf @ drop to_copy arr;
                                  more = \<not> already \<and> min count got < count;
                                  arr' = (if more then copied[to_copy := ext] else copied);
                                  written_n = (if more then min count got + 1 else min count got)
                              in (if written_n < total then INCOMPLETE else SUCCESS, written_n, Some arr'))))))"

text \<open>What the documented two-call protocol promises of a driver with the extensions \<open>exts\<close>.\<close>

definition serves :: "enum_driver \<Rightarrow> ext_prop list \<Rightarrow> bool" where
  "serves drv exts \<longleftrightarrow> enum_count drv = (SUCCESS, of_nat (length exts))
     \<and> enum_fill drv (of_nat (length exts)) = (SUCCESS, of_nat (length exts), exts)
     \<and> length exts + 1 < 2 ^ 32"

text \<open>The list the application is to see: the driver's, with the layer's extension if it is missing.\<close>

definition merged :: "layer_config \<Rightarrow> ext_prop list \<Rightarrow> ext_prop list" where
  "merged cfg exts =
     (if list_ex (\<lambda>e. ext_name_eq e (fst (our_ext cfg))) exts then exts
      else exts @ [make_ext_prop (fst (our_ext cfg)) (snd (our_ext cfg))])"

lemma unat_of_count: "k < 2 ^ 32 \<Longrightarrow> unat (of_nat k :: u32) = k"
  by (simp add: unsigned_of_nat take_bit_nat_eq_self_iff)

lemma enumerate_serves:
  assumes "serves drv exts" and "unat count \<le> length arr"
  shows "enumerate_device_extension_properties cfg drv other None c0 None = (SUCCESS, of_nat (length (merged cfg exts)), None)
    \<and> enumerate_device_extension_properties cfg drv other None count (Some arr)
      = (if unat count < length (merged cfg exts) then INCOMPLETE else SUCCESS,
         of_nat (min (unat count) (length (merged cfg exts))),
         Some (take (unat count) (merged cfg exts) @ drop (min (unat count) (length (merged cfg exts))) arr))
    \<and> fst (our_ext cfg) \<in> set (map (\<lambda>e. c_string (extension_name e)) (merged cfg exts))
    \<and> (\<exists>more. merged cfg exts = exts @ more)"
proof -
  let ?n = "length exts" and ?c = "unat count" and ?e = "make_ext_prop (fst (our_ext cfg)) (snd (our_ext cfg))"
  have n: "Suc ?n < 2 ^ 32" and d: "enum_count drv = (SUCCESS, of_nat ?n)"
      "enum_fill drv (of_nat ?n) = (SUCCESS, of_nat ?n, exts)"
    using assms(1) by (simp_all add: serves_def)
  have un: "unat (of_nat ?n :: u32) = ?n" and un1: "unat (of_nat (Suc ?n) :: u32) = Suc ?n"
    using n by (simp_all only: unat_of_count Suc_lessD)
  have buf: "fill_buffer (of_nat ?n) (of_nat ?n) exts = exts" by (simp add: fill_buffer_def un)
  have mn: "min count (of_nat ?n) = of_nat (min ?c ?n)"
    by (cases "?c \<le> ?n") (simp_all add: min_def word_le_nat_alt un)
  have um: "unat (of_nat (min ?c ?n) :: u32) = min ?c ?n" using n by (intro unat_of_count) simp
  have lt: "(of_nat (min ?c ?n) :: u32) < count \<longleftrightarrow> ?n < ?c" by (auto simp add: word_less_nat_alt um)
  have lt2: "(of_nat (min ?c ?n) :: u32) < of_nat ?n \<longleftrightarrow> ?c < ?n" by (auto simp add: word_less_nat_alt um un)
  have lt3: "(of_nat (min ?c ?n) :: u32) < of_nat (Suc ?n)" unfolding word_less_nat_alt um un1 by auto
  have tk: "take (min ?c ?n) exts = take ?c exts" by (simp add: min_def)
  have name: "c_string (extension_name (make_ext_prop (fst (our_ext cfg)) v)) = fst (our_ext cfg)" for v
    by (rule make_ext_prop_name) (auto simp: our_ext_def NAME_LEN_def)
  show ?thesis
  proof (cases "list_ex (\<lambda>e. ext_name_eq e (fst (our_ext cfg))) exts")
    case True
    then have m: "merged cfg exts = exts" by (simp add: merged_def)
    have "fst (our_ext cfg) \<in> set (map (\<lambda>e. c_string (extension_name e)) exts)"
      using True by (force simp: list_ex_iff ext_name_eq_def)
    then show ?thesis
      unfolding m using True
      by (simp add: enumerate_device_extension_properties_def d buf mn um lt lt2 Let_def tk)
  next
    case False
    then have m: "merged cfg exts = exts @ [?e]" by (simp add: merged_def)
    have upd: "(exts @ drop ?n arr)[?n := ?e] = (exts @ [?e]) @ drop (Suc ?n) arr" if "?n < ?c"
    proof -
      have "drop ?n arr = arr ! ?n # drop (Suc ?n) arr" using that assms(2) by (simp add: Cons_nth_drop_Suc)
      then show ?thesis by (simp add: list_update_append)
    qed
    show ?thesis
    proof (cases "?n < ?c")
      case True
      then have "min ?c ?n = ?n" "take ?c exts = exts" "min ?c (Suc ?n) = Suc ?n" "\<not> ?c < Suc ?n"
          "take ?c (exts @ [?e]) = exts @ [?e]" by simp_all
      moreover from this True lt have "of_nat ?n < count" by simp
      ultimately show ?thesis
        unfolding m using True False upd name un
        by (simp add: enumerate_device_extension_properties_def d buf mn lt Let_def add.commute)
    next
      case ge: False
      then have "min ?c ?n = ?c" "take ?c (exts @ [?e]) = take ?c exts" "min ?c (Suc ?n) = ?c" "?c < Suc ?n" by simp_all
      then show ?thesis
        unfolding m using ge False name um lt lt3
        by (simp add: enumerate_device_extension_properties_def d buf mn Let_def add.commute)
    qed
  qed
qed

text \<open>
  Extension enumeration follows the two-call protocol over the merged list: the count
  call answers its length; a call with an array of any size writes its first entries, as
  many as fit, leaves the rest of the array alone, answers how many were written, and
  reports \<open>INCOMPLETE\<close> exactly when the array was too short. The merged list has the layer's
  extension, under a name that reads back, and every extension of the driver.
\<close>

theorem enumerate_two_call:
  assumes "serves drv exts" and "unat count \<le> length arr"
  shows "enumerate_device_extension_properties cfg drv other None c0 None = (SUCCESS, of_nat (length (merged cfg exts)), None)
    \<and> enumerate_device_extension_properties cfg drv other None count (Some arr)
      = (if unat count < length (merged cfg exts) then INCOMPLETE else SUCCESS,
         of_nat (min (unat count) (length (merged cfg exts))),
         Some (take (unat count) (merged cfg exts) @ drop (min (unat count) (length (merged cfg exts))) arr))
    \<and> fst (our_ext cfg) \<in> set (map (\<lambda>e. c_string (extension_name e)) (merged cfg exts))
    \<and> (\<exists>more. merged cfg exts = exts @ more)"
  using enumerate_serves [OF assms] .

theorem enumerate_two_call_witness:
  "enumerate_device_extension_properties example_config example_driver (SUCCESS, 0, None) None 0 None = (SUCCESS, 5, None)
   \<and> fst (enumerate_device_extension_properties example_config example_driver (SUCCESS, 0, None) None 2
        (Some [ext_prop_default, ext_prop_default])) = INCOMPLETE"
proof -
  let ?exts = "map (\<lambda>name. make_ext_prop name 1) (REQUIRED_EXTENSIONS @ [''VK_KHR_present_id''])"
  have s: "serves example_driver ?exts" by (simp add: serves_def example_driver_def REQUIRED_EXTENSIONS_def)
  have l: "length (merged example_config ?exts) = 5"
    by (simp add: merged_def example_config_def our_ext_def ext_name_eq_def make_ext_prop_name NAME_LEN_def REQUIRED_EXTENSIONS_def)
  show ?thesis
    using enumerate_two_call [OF s, of 2 "[ext_prop_default, ext_prop_default]" example_config "(SUCCESS, 0, None)" 0]
    unfolding l by simp
qed

section \<open>The spoofed device\<close>

record device_properties =
  vendor_id :: u32
  dp_device_id :: u32
  dp_device_name :: string
  timestamp_period :: rat

definition NVIDIA_VENDOR_ID :: u32 where "NVIDIA_VENDOR_ID = 0x10DE"

text \<open>\<open>str::as_bytes\<close>, for the ASCII names of the presets.\<close>

definition ascii_bytes :: "ustr \<Rightarrow> string" where
  "ascii_bytes s = map char_of s"

definition apply_nvidia_spoof_v1 :: "layer_config \<Rightarrow> device_properties \<Rightarrow> device_properties" where
  "apply_nvidia_spoof_v1 cfg props =
     (let profile = spoof_profile cfg;
          bytes = ascii_bytes (device_name profile);
          len = min (length bytes) (length (dp_device_name props) - 1)
      in props\<lparr>vendor_id := NVIDIA_VENDOR_ID, dp_device_id := device_id profile,
           dp_device_name := (take len bytes @ drop len (dp_device_name props))[len := NUL]\<rparr>)"

text \<open>The query hook: \<open>driver\<close> is what the driver writes.\<close>

definition get_physical_device_properties :: "layer_config \<Rightarrow> device_properties \<Rightarrow> device_properties" where
  "get_physical_device_properties cfg driver =
     (if spoof_nvidia cfg then apply_nvidia_spoof_v1 cfg driver else driver)"

definition ascii_name :: "ustr \<Rightarrow> bool" where
  "ascii_name s \<longleftrightarrow> (\<forall>c\<in>set s. 0 < c \<and> c < 128) \<and> length s < NAME_LEN"

lemma preset_names_ascii: "p \<in> snd ` set NVIDIA_PRESETS \<Longrightarrow> ascii_name (device_name p)"
  by (auto simp: NVIDIA_PRESETS_def preset_def ascii_name_def lit_def NAME_LEN_def)

lemma ascii_bytes_clean: "ascii_name s \<Longrightarrow> NUL \<notin> set (ascii_bytes s) \<and> map of_char (ascii_bytes s) = s"
proof -
  assume a: "ascii_name s"
  have c: "of_char (char_of c :: char) = c" if "c \<in> set s" for c
  proof -
    have "c < 128" using a that by (auto simp: ascii_name_def)
    then show ?thesis by (simp add: of_char_of)
  qed
  have z: "(of_char NUL :: nat) = 0" by simp
  have "char_of c \<noteq> NUL" if "c \<in> set s" for c
  proof
    assume "char_of c = NUL"
    then have "c = 0" using c [OF that] z by simp
    then show False using a that by (auto simp: ascii_name_def)
  qed
  then have "NUL \<notin> set (ascii_bytes s)" unfolding ascii_bytes_def set_map by (metis imageE)
  moreover have "map of_char (ascii_bytes s) = s"
    unfolding ascii_bytes_def map_map by (rule map_idI) (use c in \<open>simp add: comp_def\<close>)
  ultimately show ?thesis ..
qed

text \<open>
  A spoofed query answers a consistent NVIDIA device: the device name a C program reads is
  exactly the name of the preset, not cut and with nothing of the real name left, the vendor
  and device ids are NVIDIA's and the preset's, and nothing else changes.
\<close>

lemma spoofed_identity:
  fixes driver :: device_properties
  assumes "p \<in> snd ` set NVIDIA_PRESETS" and "length (dp_device_name driver) = NAME_LEN"
    and "r = get_physical_device_properties (cfg\<lparr>spoof_nvidia := True, spoof_profile := p\<rparr>) driver"
  shows "map of_char (c_string (dp_device_name r)) = device_name p \<and> length (dp_device_name r) = NAME_LEN
    \<and> vendor_id r = 0x10DE \<and> dp_device_id r = device_id p \<and> timestamp_period r = timestamp_period driver"
proof -
  let ?b = "ascii_bytes (device_name p)" and ?d = "dp_device_name driver"
  have a: "ascii_name (device_name p)" using assms(1) by (rule preset_names_ascii)
  have lb: "length ?b < NAME_LEN" using a by (simp add: ascii_bytes_def ascii_name_def)
  have m: "min (length ?b) (NAME_LEN - 1) = length ?b" using lb by simp
  have "drop (length ?b) ?d = ?d ! length ?b # drop (Suc (length ?b)) ?d"
    using lb assms(2) by (simp add: Cons_nth_drop_Suc)
  then have n: "(?b @ drop (length ?b) ?d)[length ?b := NUL] = ?b @ NUL # drop (Suc (length ?b)) ?d"
    by (simp add: list_update_append)
  have "c_string (?b @ NUL # drop (Suc (length ?b)) ?d) = ?b"
    using c_string_prefix ascii_bytes_clean [OF a] by blast
  then show ?thesis
    using ascii_bytes_clean [OF a] m n lb assms(2)
    by (simp add: assms(3) get_physical_device_properties_def apply_nvidia_spoof_v1_def Let_def NVIDIA_VENDOR_ID_def)
qed

section \<open>Present modes\<close>

text \<open>
  \<open>VkLatencySurfaceCapabilitiesNV\<close>: the count and the array (\<open>None\<close> is null). The modes are
  IMMEDIATE, MAILBOX and FIFO.
\<close>

record latency_surface_caps =
  present_mode_count :: u32
  present_modes :: "int list option"

definition SUPPORTED_MODES :: "int list" where "SUPPORTED_MODES = [0, 1, 2]"

definition fill_present_modes :: "latency_surface_caps \<Rightarrow> latency_surface_caps" where
  "fill_present_modes lsc =
     (case present_modes lsc of
        None \<Rightarrow> lsc\<lparr>present_mode_count := of_nat (length SUPPORTED_MODES)\<rparr>
      | Some arr \<Rightarrow>
          (let cap = min (present_mode_count lsc) (of_nat (length SUPPORTED_MODES))
           in lsc\<lparr>present_modes := Some (take (unat cap) SUPPORTED_MODES @ drop (unat cap) arr), present_mode_count := cap\<rparr>))"

text \<open>The hook after a successful driver call; \<open>None\<close> is a chain without the structure.\<close>

definition surface_capabilities2 :: "layer_config \<Rightarrow> vk_result \<Rightarrow> latency_surface_caps option \<Rightarrow> latency_surface_caps option" where
  "surface_capabilities2 cfg r lsc =
     (if r \<noteq> SUCCESS \<or> \<not> expose_reflex cfg then lsc else map_option fill_present_modes lsc)"

lemma present_modes_two_call:
  assumes "expose_reflex cfg"
  shows "surface_capabilities2 cfg SUCCESS (Some \<lparr>present_mode_count = n0, present_modes = None\<rparr>)
      = Some \<lparr>present_mode_count = 3, present_modes = None\<rparr>"
    and "length arr = unat n \<Longrightarrow>
      surface_capabilities2 cfg SUCCESS (Some \<lparr>present_mode_count = n, present_modes = Some arr\<rparr>)
      = Some \<lparr>present_mode_count = min n 3, present_modes = Some (take (unat n) SUPPORTED_MODES @ drop 3 arr)\<rparr>"
proof -
  show "surface_capabilities2 cfg SUCCESS (Some \<lparr>present_mode_count = n0, present_modes = None\<rparr>)
      = Some \<lparr>present_mode_count = 3, present_modes = None\<rparr>"
    using assms by (simp add: surface_capabilities2_def fill_present_modes_def SUPPORTED_MODES_def)
  have m: "unat (min n 3) = min (unat n) 3" by (simp add: min_def word_le_nat_alt)
  assume "length arr = unat n"
  then have "drop (unat (min n 3)) arr = drop 3 arr" "take (unat (min n 3)) SUPPORTED_MODES = take (unat n) SUPPORTED_MODES"
    unfolding m by (auto simp: min_def SUPPORTED_MODES_def)
  then show "surface_capabilities2 cfg SUCCESS (Some \<lparr>present_mode_count = n, present_modes = Some arr\<rparr>)
      = Some \<lparr>present_mode_count = min n 3, present_modes = Some (take (unat n) SUPPORTED_MODES @ drop 3 arr)\<rparr>"
    using assms by (simp add: surface_capabilities2_def fill_present_modes_def SUPPORTED_MODES_def)
qed

section \<open>Features\<close>

text \<open>
  The hook of \<open>vkGetPhysicalDeviceFeatures2\<close> after the driver's call: \<open>alf\<close> is the flag of a
  \<open>VkPhysicalDeviceAntiLagFeaturesAMD\<close> in the chain, if there is one; \<open>loaded\<close> says whether
  the next layer has the entry point of the variant that is called, without which nothing is
  written.
\<close>

definition physical_device_features2 :: "bool \<Rightarrow> layer_config \<Rightarrow> pd_extensions \<Rightarrow> bool option \<Rightarrow> bool option" where
  "physical_device_features2 loaded cfg pd alf =
     (if \<not> loaded then alf
      else if expose_reflex cfg then alf
      else map_option (\<lambda>_. supports_required_extensions pd) alf)"

lemma list_available_serves:
  assumes "serves drv exts"
  shows "list_available_extensions drv = map (\<lambda>p. c_string (extension_name p)) exts"
proof -
  have "unat (of_nat (length exts) :: u32) = length exts" using assms by (intro unat_of_count) (simp add: serves_def)
  then show ?thesis using assms by (simp add: list_available_extensions_def serves_def fill_buffer_def)
qed


definition bare_driver :: enum_driver where
  "bare_driver = \<lparr>enum_count = (SUCCESS, 1), enum_fill = (\<lambda>n. (SUCCESS, 1, [make_ext_prop ''VK_KHR_swapchain'' 70]))\<rparr>"


end
