(* ===== verification/Submit.thy ===== *)
theory Submit
  imports TimestampPool AntiLag LowLatency2 Telemetry
begin

text \<open>
  The \<open>vkQueueSubmit\<close> family of \<open>src/entrypoints/queue.rs\<close> with
  \<open>QueueContext::should_inject_timestamps\<close> of \<open>src/queue.rs\<close>: the submissions the strategy
  tracks are bracketed by two command buffers that write timestamps. \<open>vkQueueSubmit\<close> and the
  two variants of \<open>vkQueueSubmit2\<close> share their body; they differ in the element type of a
  command-buffer list, and \<open>mk\<close> makes such an element from a layer command buffer. The
  driver's submit function is a parameter from the array it is handed to its result. The
  per-thread arena of reused vectors changes nothing that a caller can see; what it keeps is
  modelled on its own (\<open>arena_take\<close>, \<open>arena_give\<close>).
\<close>

section \<open>Queues\<close>

text \<open>
  One \<open>VkSubmitInfo\<close>: its command buffers, the present id of a
  \<open>VkLatencySubmissionPresentIdNV\<close> in its chain, and the identity of all other fields.
\<close>

record 'c submit =
  su_cbs :: "'c list"
  su_present_id :: "u64 option"
  su_rest :: nat

datatype queue_strategy = AntiLagQ "handle anti_lag_queue" | LowLatency2Q "handle ll2_queue"

definition make_queue_strategy :: "bool \<Rightarrow> queue_strategy" where
  "make_queue_strategy reflex = (if reflex then LowLatency2Q ll2_queue_new else AntiLagQ None)"

record queue_ctx =
  q_layer_enabled :: bool
  q_timestamp_valid_bits :: u32
  q_graphics :: bool
  q_expose_reflex :: bool
  q_strategy :: queue_strategy
  q_pool :: pool_inner

definition should_inject_timestamps :: "queue_ctx \<Rightarrow> bool" where
  "should_inject_timestamps q =
     (if \<not> q_layer_enabled q \<or> q_timestamp_valid_bits q = 0 then False else q_graphics q)"

text \<open>\<open>al\<close> is the anti-lag strategy of the device as it is when it is asked, if it has one.\<close>

definition should_inject_for_submit :: "queue_ctx \<Rightarrow> anti_lag option \<Rightarrow> bool" where
  "should_inject_for_submit q al =
     (if \<not> should_inject_timestamps q then False
      else if q_expose_reflex q then True
      else (case al of Some s \<Rightarrow> should_track_submissions s | None \<Rightarrow> False))"

definition inject_mask :: "queue_ctx \<Rightarrow> (nat \<Rightarrow> anti_lag option) \<Rightarrow> 'c submit list \<Rightarrow> bool list" where
  "inject_mask q al sus = map (\<lambda>i. should_inject_for_submit q (al i)) [0..<length sus]"

section \<open>Bracketing\<close>

definition wrap_submit :: "(nat \<Rightarrow> 'c) \<Rightarrow> handle \<Rightarrow> 'c submit \<Rightarrow> 'c submit" where
  "wrap_submit mk h su = su\<lparr>su_cbs := mk (start_cb h) # su_cbs su @ [mk (end_cb h)]\<rparr>"

text \<open>
  The loop over the submissions: the array for the driver with the handles, or, when a pair
  cannot be acquired, the handles acquired so far. \<open>fns k\<close> is the driver as the k-th acquire
  finds it.
\<close>

datatype 'c wrapped = Wrapped "('c submit \<times> handle option) list" | Refused "handle list"

fun wrap_submits ::
  "(nat \<Rightarrow> 'c) \<Rightarrow> (nat \<Rightarrow> pool_fns) \<Rightarrow> nat \<Rightarrow> ('c submit \<times> bool) list \<Rightarrow> pool_inner \<Rightarrow> panic + 'c wrapped \<times> pool_inner" where
  "wrap_submits mk fns k [] p = Inr (Wrapped [], p)"
| "wrap_submits mk fns k ((su, inject) # rest) p =
     (if \<not> inject then
        (case wrap_submits mk fns k rest p of
           Inl e \<Rightarrow> Inl e
         | Inr (Refused hs, p') \<Rightarrow> Inr (Refused hs, p')
         | Inr (Wrapped ws, p') \<Rightarrow> Inr (Wrapped ((su, None) # ws), p'))
      else
        (case pool_acquire (fns k) p of
           Inl e \<Rightarrow> Inl e
         | Inr (None, p') \<Rightarrow> Inr (Refused [], p')
         | Inr (Some h, p') \<Rightarrow>
             (case wrap_submits mk fns (Suc k) rest p' of
                Inl e \<Rightarrow> Inl e
              | Inr (Refused hs, p'') \<Rightarrow> Inr (Refused (h # hs), p'')
              | Inr (Wrapped ws, p'') \<Rightarrow> Inr (Wrapped ((wrap_submit mk h su, Some h) # ws), p''))))"

section \<open>Handing the handles to the strategy\<close>

text \<open>The handles of a span, and those a strategy lets go of when it is given one more.\<close>

definition span_handles :: "'h submission_span \<Rightarrow> 'h list" where
  "span_handles s = span_head s # (case span_tail s of Some t \<Rightarrow> [t] | None \<Rightarrow> [])"

definition replaced_tail :: "'h submission_span option \<Rightarrow> 'h list" where
  "replaced_tail slot = (case slot of Some s \<Rightarrow> tl (span_handles s) | None \<Rightarrow> [])"

definition ll2_released :: "u64 option \<Rightarrow> 'h \<Rightarrow> 'h ll2_queue \<Rightarrow> 'h list" where
  "ll2_released present_id h q =
     (let pid = (case present_id of Some p \<Rightarrow> p | None \<Rightarrow> 0);
          subs = (submissions q)(pid := extend_or_init h (submissions q pid))
      in replaced_tail (submissions q pid) @
        (if pid \<noteq> 0 \<and> length (stale_present_ids q) + 1 > MAX_TRACKED_PRESENTS then
           (case subs (hd (stale_present_ids q @ [pid])) of Some s \<Rightarrow> span_handles s | None \<Rightarrow> [])
         else []))"

definition strategy_notify_submit :: "u64 option \<Rightarrow> handle \<Rightarrow> queue_strategy \<Rightarrow> queue_strategy \<times> handle list" where
  "strategy_notify_submit present_id h s =
     (case s of
        AntiLagQ slot \<Rightarrow> (AntiLagQ (al_notify_submit h slot), replaced_tail slot)
      | LowLatency2Q q \<Rightarrow> (LowLatency2Q (ll2_notify_submit present_id h q), ll2_released present_id h q))"

fun notify_submits :: "('c submit \<times> handle option) list \<Rightarrow> queue_ctx \<Rightarrow> u32 \<Rightarrow> queue_ctx \<times> u32" where
  "notify_submits [] q n = (q, n)"
| "notify_submits ((su, None) # rest) q n = notify_submits rest q n"
| "notify_submits ((su, Some h) # rest) q n =
     (case strategy_notify_submit (su_present_id su) (h\<lparr>was_submitted := True\<rparr>) (q_strategy q) of
        (s, released) \<Rightarrow>
          notify_submits rest (q\<lparr>q_strategy := s, q_pool := fold handle_drop released (q_pool q)\<rparr>) (n + 1))"

section \<open>The hook\<close>

text \<open>The answer: the result, the array the driver was handed, the queue and the counters.\<close>

type_synonym 'c submit_answer = "panic + vk_result \<times> 'c submit list \<times> queue_ctx \<times> counters"

definition submit_body ::
  "(nat \<Rightarrow> 'c) \<Rightarrow> (nat \<Rightarrow> pool_fns) \<Rightarrow> (nat \<Rightarrow> anti_lag option) \<Rightarrow> ('c submit list \<Rightarrow> vk_result) \<Rightarrow> 'c submit list
     \<Rightarrow> queue_ctx \<Rightarrow> counters \<Rightarrow> 'c submit_answer" where
  "submit_body mk fns al driver sus q c =
     (if sus = [] then Inr (driver sus, sus, q, c)
      else
        (let mask = inject_mask q al sus in
         if list_all (\<lambda>b. \<not> b) mask then
           Inr (driver sus, sus, q, record_submit_call (of_nat (length sus)) 0 c)
         else
           (case wrap_submits mk fns 0 (zip sus mask) (q_pool q) of
              Inl e \<Rightarrow> Inl e
            | Inr (Refused hs, p) \<Rightarrow> Inr (driver sus, sus, q\<lparr>q_pool := fold handle_drop hs p\<rparr>, c)
            | Inr (Wrapped ws, p) \<Rightarrow>
                (let next = map fst ws; r = driver next in
                 if r \<noteq> SUCCESS then
                   Inr (r, next, q\<lparr>q_pool := fold handle_drop (List.map_filter snd ws) p\<rparr>, c)
                 else
                   (case notify_submits (zip sus (map snd ws)) (q\<lparr>q_pool := p\<rparr>) 0 of
                      (q', injected) \<Rightarrow>
                        Inr (SUCCESS, next, q', record_submit_call (of_nat (length sus)) injected c))))))"

text \<open>\<open>None\<close> as queue is a handle the registry does not know.\<close>

definition queue_submit ::
  "(nat \<Rightarrow> pool_fns) \<Rightarrow> (nat \<Rightarrow> anti_lag option) \<Rightarrow> (nat submit list \<Rightarrow> vk_result) \<Rightarrow> nat submit list
     \<Rightarrow> queue_ctx option \<Rightarrow> counters \<Rightarrow> (panic + vk_result \<times> nat submit list \<times> queue_ctx option \<times> counters)" where
  "queue_submit fns al driver sus qctx c =
     (case qctx of
        None \<Rightarrow> Inr (ERROR_INITIALIZATION_FAILED, [], None, c)
      | Some q \<Rightarrow>
          (case submit_body (\<lambda>cb. cb) fns al driver sus q c of
             Inl e \<Rightarrow> Inl e
           | Inr (r, next, q', c') \<Rightarrow> Inr (r, next, Some q', c')))"

text \<open>\<open>VkCommandBufferSubmitInfo\<close>; the default has no device mask.\<close>

record cb_info =
  ci_command_buffer :: nat
  ci_device_mask :: u32

datatype submit2_variant = Core | Khr

definition queue_submit2_dispatch ::
  "(nat \<Rightarrow> pool_fns) \<Rightarrow> (nat \<Rightarrow> anti_lag option) \<Rightarrow> (submit2_variant \<Rightarrow> (cb_info submit list \<Rightarrow> vk_result) option)
     \<Rightarrow> submit2_variant \<Rightarrow> cb_info submit list \<Rightarrow> queue_ctx option \<Rightarrow> counters
     \<Rightarrow> (panic + vk_result \<times> cb_info submit list \<times> queue_ctx option \<times> counters)" where
  "queue_submit2_dispatch fns al table variant sus qctx c =
     (case qctx of
        None \<Rightarrow> Inr (ERROR_INITIALIZATION_FAILED, [], None, c)
      | Some q \<Rightarrow>
          (case table variant of
             None \<Rightarrow> Inr (ERROR_INITIALIZATION_FAILED, [], Some q, c)
           | Some driver \<Rightarrow>
               (case submit_body (\<lambda>cb. \<lparr>ci_command_buffer = cb, ci_device_mask = 0\<rparr>) fns al driver sus q c of
                  Inl e \<Rightarrow> Inl e
                | Inr (r, next, q', c') \<Rightarrow> Inr (r, next, Some q', c'))))"

section \<open>The buffers kept by a thread\<close>

text \<open>
  \<open>submit_arena\<close>: the buffers a thread keeps for reuse, as a stack of their capacities (they are
  empty). \<open>arena_take\<close> gives the capacity of the buffer taken, \<open>0\<close> for a new one.
\<close>

definition MAX_CACHED_CAP :: nat where "MAX_CACHED_CAP = 64"
definition MAX_CACHED_BUFFERS :: nat where "MAX_CACHED_BUFFERS = 4"

definition arena_take :: "nat list \<Rightarrow> nat \<times> nat list" where
  "arena_take arena = (case arena of [] \<Rightarrow> (0, []) | cap # rest \<Rightarrow> (cap, rest))"

definition arena_give :: "nat \<Rightarrow> nat list \<Rightarrow> nat list" where
  "arena_give cap arena =
     (if cap > MAX_CACHED_CAP then arena
      else if length arena < MAX_CACHED_BUFFERS then cap # arena
      else arena)"

definition arena_bounded :: "nat list \<Rightarrow> bool" where
  "arena_bounded arena \<longleftrightarrow> length arena \<le> MAX_CACHED_BUFFERS \<and> (\<forall>c\<in>set arena. c \<le> MAX_CACHED_CAP)"

lemma arena_stays_bounded:
  "arena_bounded []" "arena_bounded a \<Longrightarrow> arena_bounded (snd (arena_take a))" "arena_bounded a \<Longrightarrow> arena_bounded (arena_give c a)"
  by (auto simp: arena_bounded_def arena_take_def arena_give_def split: list.split)

section \<open>What the driver is handed\<close>

definition bracketed :: "(nat \<Rightarrow> 'c) \<Rightarrow> 'c submit \<times> bool \<Rightarrow> 'c submit \<times> handle option \<Rightarrow> bool" where
  "bracketed mk x y =
     (case snd y of
        None \<Rightarrow> \<not> snd x \<and> fst y = fst x
      | Some h \<Rightarrow> snd x \<and> su_cbs (fst y) = mk (start_cb h) # su_cbs (fst x) @ [mk (end_cb h)]
          \<and> su_present_id (fst y) = su_present_id (fst x) \<and> su_rest (fst y) = su_rest (fst x))"

lemma wrap_submit_fields [simp]:
  "su_cbs (wrap_submit mk h su) = mk (start_cb h) # su_cbs su @ [mk (end_cb h)]"
  "su_present_id (wrap_submit mk h su) = su_present_id su" "su_rest (wrap_submit mk h su) = su_rest su"
  by (simp_all add: wrap_submit_def)

lemma wrap_submits_Cons:
  assumes "wrap_submits mk fns k ((su, inject) # rest) p = Inr (res, p')"
  obtains (skip) res' where "\<not> inject" "wrap_submits mk fns k rest p = Inr (res', p')"
      "res = (case res' of Refused hs \<Rightarrow> Refused hs | Wrapped ws \<Rightarrow> Wrapped ((su, None) # ws))"
  | (stop) "inject" "pool_acquire (fns k) p = Inr (None, p')" "res = Refused []"
  | (wrap) h p1 res' where "inject" "pool_acquire (fns k) p = Inr (Some h, p1)"
      "wrap_submits mk fns (Suc k) rest p1 = Inr (res', p')"
      "res = (case res' of Refused hs \<Rightarrow> Refused (h # hs) | Wrapped ws \<Rightarrow> Wrapped ((wrap_submit mk h su, Some h) # ws))"
proof (cases inject)
  case False
  then show ?thesis using assms skip by (fastforce split: sum.splits wrapped.splits)
next
  case True
  show ?thesis
  proof (cases "pool_acquire (fns k) p")
    case (Inl e)
    then show ?thesis using assms True by simp
  next
    case (Inr x)
    then show ?thesis
      using assms True stop wrap by (cases x; cases "fst x") (fastforce split: sum.splits wrapped.splits)+
  qed
qed

lemma wrap_submits_shape:
  "wrap_submits mk fns k xs p = Inr (Wrapped ws, p') \<Longrightarrow> list_all2 (bracketed mk) xs ws"
proof (induction xs arbitrary: k p ws)
  case (Cons x xs)
  obtain su inject where x: "x = (su, inject)" by (cases x)
  from Cons.prems [unfolded x] show ?case
  proof (cases rule: wrap_submits_Cons)
    case (skip res')
    then show ?thesis using Cons.IH x by (auto simp: bracketed_def split: wrapped.splits)
  next
    case (wrap h p1 res')
    then show ?thesis using Cons.IH x by (auto simp: bracketed_def split: wrapped.splits)
  qed simp
qed simp

text \<open>
  A submission of the application inside what the driver is handed: its command buffers, in
  order, with nothing between them, at most one buffer of the layer before and one after,
  and its other fields.
\<close>

definition preserves :: "(nat \<Rightarrow> 'c) \<Rightarrow> 'c submit \<Rightarrow> 'c submit \<Rightarrow> bool" where
  "preserves mk su su' \<longleftrightarrow> su' = su
     \<or> (\<exists>first last. su_cbs su' = mk first # su_cbs su @ [mk last]
         \<and> su_present_id su' = su_present_id su \<and> su_rest su' = su_rest su)"

lemma length_mask [simp]: "length (inject_mask q al sus) = length sus"
  by (simp add: inject_mask_def)

lemma wrapped_handed:
  assumes "wrap_submits mk fns k (zip sus bs) p = Inr (Wrapped ws, p')" and "length bs = length sus"
  shows "list_all2 (preserves mk) sus (map fst ws) \<and> (\<forall>i<length sus. \<not> bs ! i \<longrightarrow> map fst ws ! i = sus ! i)
    \<and> length ws = length sus"
proof -
  have l: "length ws = length sus" and b: "\<And>i. i < length sus \<Longrightarrow> bracketed mk (sus ! i, bs ! i) (ws ! i)"
    using wrap_submits_shape [OF assms(1)] assms(2) by (auto simp: list_all2_conv_all_nth)
  have "preserves mk (sus ! i) (fst (ws ! i)) \<and> (\<not> bs ! i \<longrightarrow> fst (ws ! i) = sus ! i)" if "i < length sus" for i
    using b [OF that] by (auto simp: bracketed_def preserves_def split: option.splits)
  then show ?thesis using l by (simp add: list_all2_conv_all_nth)
qed

lemma preserves_refl: "list_all2 (preserves mk) sus sus"
  by (simp add: list_all2_same preserves_def)

text \<open>The four ways through the hook.\<close>

lemma submit_body_cases:
  assumes b: "submit_body mk fns al driver sus q c = Inr (r, handed, q', c')"
  obtains (plain) "handed = sus" "r = driver sus" "q' = q"
      "c' = (if sus = [] then c else record_submit_call (of_nat (length sus)) 0 c)"
      "list_all (\<lambda>b. \<not> b) (inject_mask q al sus)"
  | (refused) hs p where "wrap_submits mk fns 0 (zip sus (inject_mask q al sus)) (q_pool q) = Inr (Refused hs, p)"
      "handed = sus" "r = driver sus" "q' = q\<lparr>q_pool := fold handle_drop hs p\<rparr>" "c' = c"
  | (failed) ws p where "wrap_submits mk fns 0 (zip sus (inject_mask q al sus)) (q_pool q) = Inr (Wrapped ws, p)"
      "handed = map fst ws" "r = driver handed" "r \<noteq> SUCCESS"
      "q' = q\<lparr>q_pool := fold handle_drop (List.map_filter snd ws) p\<rparr>" "c' = c"
  | (accepted) ws p n where "wrap_submits mk fns 0 (zip sus (inject_mask q al sus)) (q_pool q) = Inr (Wrapped ws, p)"
      "handed = map fst ws" "r = driver handed" "r = SUCCESS"
      "notify_submits (zip sus (map snd ws)) (q\<lparr>q_pool := p\<rparr>) 0 = (q', n)"
      "c' = record_submit_call (of_nat (length sus)) n c"
proof (cases "sus = [] \<or> list_all (\<lambda>b. \<not> b) (inject_mask q al sus)")
  case True
  have e: "list_all (\<lambda>b. \<not> b) (inject_mask q al [])" by (simp add: inject_mask_def)
  show ?thesis
    using b True e by (cases "sus = []") (auto intro: plain simp: submit_body_def Let_def)
next
  case False
  then have s: "submit_body mk fns al driver sus q c =
      (case wrap_submits mk fns 0 (zip sus (inject_mask q al sus)) (q_pool q) of
         Inl e \<Rightarrow> Inl e
       | Inr (Refused hs, p) \<Rightarrow> Inr (driver sus, sus, q\<lparr>q_pool := fold handle_drop hs p\<rparr>, c)
       | Inr (Wrapped ws, p) \<Rightarrow>
           (if driver (map fst ws) \<noteq> SUCCESS then
              Inr (driver (map fst ws), map fst ws, q\<lparr>q_pool := fold handle_drop (List.map_filter snd ws) p\<rparr>, c)
            else
              (case notify_submits (zip sus (map snd ws)) (q\<lparr>q_pool := p\<rparr>) 0 of
                 (q', injected) \<Rightarrow>
                   Inr (SUCCESS, map fst ws, q', record_submit_call (of_nat (length sus)) injected c))))"
    unfolding submit_body_def Let_def by (simp only: if_False if_not_P de_Morgan_disj)
  obtain res p where w: "wrap_submits mk fns 0 (zip sus (inject_mask q al sus)) (q_pool q) = Inr (res, p)"
    using b s by (cases "wrap_submits mk fns 0 (zip sus (inject_mask q al sus)) (q_pool q)") auto
  show ?thesis
  proof (cases res)
    case (Refused hs)
    then show ?thesis using b s w by (intro refused) auto
  next
    case (Wrapped ws)
    obtain q1 n where n: "notify_submits (zip sus (map snd ws)) (q\<lparr>q_pool := p\<rparr>) 0 = (q1, n)" by fastforce
    show ?thesis
    proof (cases "driver (map fst ws) = SUCCESS")
      case True
      then show ?thesis using b s w Wrapped n by (intro accepted [of ws p n]) auto
    next
      case False
      then show ?thesis using b s w Wrapped by (intro failed [of ws p]) auto
    qed
  qed
qed


section \<open>What happens to the pool\<close>

definition handles_of :: "'c wrapped \<Rightarrow> handle list" where
  "handles_of w = (case w of Wrapped ws \<Rightarrow> List.map_filter snd ws | Refused hs \<Rightarrow> hs)"

text \<open>The pool of a queue as a state of the interleaving model, with the handles some thread holds.\<close>

definition pool_at :: "pool_inner \<Rightarrow> handle list \<Rightarrow> expiring_handle option \<Rightarrow> pool_state" where
  "pool_at p hs r = \<lparr>inner = p, live = hs, reaping = r\<rparr>"

lemma pool_steps_trans: "pool_steps D t u \<Longrightarrow> pool_steps D s t \<Longrightarrow> pool_steps D s u"
  by (induction rule: pool_steps.induct) (auto intro: pool_steps.more)

lemma pool_steps_one: "pool_step D s t \<Longrightarrow> pool_steps D s t"
  by (blast intro: pool_steps.intros)

lemma drop_steps: "pool_steps D (pool_at p (xs @ hs) r) (pool_at (fold handle_drop hs p) xs r)"
proof (induction hs arbitrary: p)
  case Nil
  then show ?case by (simp add: pool_steps.none)
next
  case (Cons h hs)
  have "pool_step D (pool_at p (xs @ h # hs) r) (pool_at (handle_drop h p) (xs @ hs) r)"
    using pool_step.dropped [of "pool_at p (xs @ h # hs) r" xs h hs D] by (simp add: pool_at_def)
  then show ?case using pool_steps_trans [OF Cons.IH pool_steps_one] by simp
qed

lemma wrap_steps:
  "wrap_submits mk fns k xs p = Inr (res, p') \<Longrightarrow>
    pool_steps (range fns) (pool_at p hs r) (pool_at p' (hs @ handles_of res) r)"
proof (induction xs arbitrary: k p hs res)
  case Nil
  then show ?case by (auto simp: handles_of_def map_filter_def pool_steps.none)
next
  case (Cons x xs)
  obtain su inject where x: "x = (su, inject)" by (cases x)
  from Cons.prems [unfolded x] show ?case
  proof (cases rule: wrap_submits_Cons)
    case (skip res')
    have "handles_of res = handles_of res'" using skip(3) by (simp add: handles_of_def map_filter_def split: wrapped.split)
    then show ?thesis using Cons.IH [OF skip(2)] by simp
  next
    case stop
    then have "pool_step (range fns) (pool_at p hs r) (pool_at p' hs r)"
      using pool_step.refused [of "fns k" "range fns" "pool_at p hs r" p'] by (simp add: pool_at_def)
    then show ?thesis using stop(3) by (simp add: handles_of_def pool_steps_one)
  next
    case (wrap h p1 res')
    have "pool_step (range fns) (pool_at p hs r) (pool_at p1 (hs @ [h]) r)"
      using wrap(2) pool_step.acquired [of "fns k" "range fns" "pool_at p hs r" h p1] by (simp add: pool_at_def)
    moreover have "handles_of res = h # handles_of res'"
      using wrap(4) by (simp add: handles_of_def map_filter_def split: wrapped.split)
    ultimately show ?thesis
      using Cons.IH [OF wrap(3), of "hs @ [h]"] pool_steps_trans [OF _ pool_steps_one] by fastforce
  qed
qed

lemma wrap_submits_no_panic:
  "pool_inv (pool_at p hs r) \<Longrightarrow> wrap_submits mk fns k xs p \<noteq> Inl e"
proof (induction xs arbitrary: k p hs)
  case (Cons x xs)
  obtain su inject where x: "x = (su, inject)" by (cases x)
  show ?case
  proof (cases inject)
    case False
    then show ?thesis using Cons x by (auto split: sum.splits wrapped.splits)
  next
    case True
    obtain ho p1 where a: "pool_acquire (fns k) p = Inr (ho, p1)"
      using pool_acquire_no_panic [OF Cons.prems, of "fns k"]
      by (cases "pool_acquire (fns k) p") (auto simp: pool_at_def)
    have i: "pool_inv (pool_at p1 (hs @ [h]) r)" if "ho = Some h" for h
    proof -
      have "pool_step (range fns) (pool_at p hs r) (pool_at p1 (hs @ [h]) r)"
        using a that pool_step.acquired [of "fns k" "range fns" "pool_at p hs r" h p1] by (simp add: pool_at_def)
      then show ?thesis using pool_steps_keep [OF pool_steps_one Cons.prems] by (simp add: keeps_ledger_def)
    qed
    show ?thesis
      using Cons.IH [OF i] x a True by (cases ho) (auto split: sum.splits wrapped.splits)
  qed
qed simp

lemma submit_no_panic: "pool_inv (pool_at (q_pool q) hs r) \<Longrightarrow> submit_body mk fns al driver sus q c \<noteq> Inl e"
  using wrap_submits_no_panic [of "q_pool q" hs r mk fns 0 "zip sus (inject_mask q al sus)"]
  unfolding submit_body_def Let_def
  by (auto split: sum.splits wrapped.splits prod.splits)

lemma wrap_submit_longer: "wrap_submit mk h su \<noteq> su"
  by (auto dest: arg_cong [of _ _ "\<lambda>x. length (su_cbs x)"])

definition given :: "('c submit \<times> handle option) list \<Rightarrow> ('c submit \<times> handle) list" where
  "given xs = List.map_filter (\<lambda>(su, ho). map_option (Pair su) ho) xs"

definition strategy_given :: "'c submit \<times> handle \<Rightarrow> queue_strategy \<Rightarrow> queue_strategy" where
  "strategy_given x s = fst (strategy_notify_submit (su_present_id (fst x)) ((snd x)\<lparr>was_submitted := True\<rparr>) s)"

lemma given_simps [simp]:
  "given [] = []" "given ((su, None) # xs) = given xs" "given ((su, Some h) # xs) = (su, h) # given xs"
  by (simp_all add: given_def List.map_filter_simps)

lemma notify_submits_spec:
  "notify_submits xs q n = (q', n') \<Longrightarrow>
     q_strategy q' = fold strategy_given (given xs) (q_strategy q) \<and> n' = n + of_nat (length (given xs))"
proof (induction xs q n rule: notify_submits.induct)
  case (3 su h rest q n)
  obtain s released where sn: "strategy_notify_submit (su_present_id su) (h\<lparr>was_submitted := True\<rparr>) (q_strategy q) = (s, released)"
    by fastforce
  then show ?case using 3(1) [OF sn [symmetric]] 3(2) by (simp add: strategy_given_def)
qed simp_all

lemma notify_submits_nothing: "given xs = [] \<Longrightarrow> notify_submits xs q n = (q, n)"
proof (induction xs q n rule: notify_submits.induct)
  case (3 su h rest q n)
  then show ?case by simp
qed simp_all

lemma unbracketed_given:
  "wrap_submits mk fns k (zip sus bs) p = Inr (Wrapped ws, p') \<Longrightarrow> length bs = length sus \<Longrightarrow> map fst ws = sus \<Longrightarrow>
     list_all (\<lambda>w. snd w = None) ws"
proof -
  assume a: "wrap_submits mk fns k (zip sus bs) p = Inr (Wrapped ws, p')" "length bs = length sus" "map fst ws = sus"
  have b: "\<And>i. i < length ws \<Longrightarrow> bracketed mk (sus ! i, bs ! i) (ws ! i)"
    using wrap_submits_shape [OF a(1)] a(2) by (auto simp: list_all2_conv_all_nth)
  have "snd (ws ! i) = None" if "i < length ws" for i
  proof -
    have "fst (ws ! i) = sus ! i" using a(3) that by auto
    then show ?thesis
      using b [OF that] wrap_submit_longer by (fastforce simp: bracketed_def split: option.splits)
  qed
  then show ?thesis by (simp add: list_all_length)
qed

lemma all_None_given:
  "list_all (\<lambda>w. snd w = None) ws \<Longrightarrow> given (zip sus (map snd ws)) = [] \<and> List.map_filter snd ws = []"
proof (induction ws arbitrary: sus)
  case (Cons w ws)
  then show ?case by (cases sus) (auto simp: List.map_filter_simps)
qed (simp add: List.map_filter_simps)


lemma given_handles: "length ws = length sus \<Longrightarrow> map snd (given (zip sus (map snd ws))) = List.map_filter snd ws"
proof (induction ws arbitrary: sus)
  case (Cons w ws)
  then obtain su rest where "sus = su # rest" by (cases sus) auto
  then show ?case using Cons by (cases "snd w") (auto simp: List.map_filter_simps)
qed (simp add: List.map_filter_simps)

lemma pool_steps_held:
  assumes "pool_steps D (pool_at p xs r) (pool_at p' ys r)" and "pool_inv (pool_at p xs r)"
  shows "pool_inv (pool_at p' ys r) \<and> distinct (map (\<lambda>h. (chunk_idx h, query_index h)) ys)
    \<and> (\<forall>h\<in>set ys. buffers_ok (chunks p') h)"
proof -
  have "pool_inv (pool_at p' ys r)"
    using pool_steps_keep [OF assms] by (simp add: keeps_ledger_def)
  then show ?thesis by (simp add: pool_inv_def pool_at_def held_slots_def live_slots_def)
qed

text \<open>
  C4. A call the driver accepts tracks exactly what it bracketed: starting from a well-formed
  pool, the handles around the bracketed submissions name query pairs that are pairwise
  different and different from those of every handle held before, the buffers the driver is
  handed are the ones of these pairs, the strategy is given these handles in submission
  order, marked as submitted and under the present id of their submission, and the counters
  count the submissions and the injections.
\<close>

theorem submit_tracks_what_it_bracketed:
  assumes "submit_body mk fns al driver sus q c = Inr (SUCCESS, handed, q', c')"
    and "handed \<noteq> sus" and "pool_inv (pool_at (q_pool q) held rp)"
  shows "\<exists>ws (p :: pool_inner). handed = map fst ws
      \<and> list_all2 (bracketed mk) (zip sus (inject_mask q al sus)) ws
      \<and> distinct (map (\<lambda>h. (chunk_idx h, query_index h)) (held @ List.map_filter snd ws))
      \<and> (\<forall>h\<in>set (List.map_filter snd ws). buffers_ok (chunks p) h)
      \<and> q_strategy q' = fold strategy_given (given (zip sus (map snd ws))) (q_strategy q)
      \<and> map snd (given (zip sus (map snd ws))) = List.map_filter snd ws
      \<and> c' = record_submit_call (of_nat (length sus)) (of_nat (length (List.map_filter snd ws))) c"
  using assms(1)
proof (cases rule: submit_body_cases)
  case (accepted ws p n)
  have steps: "pool_steps (range fns) (pool_at (q_pool q) held rp) (pool_at p (held @ List.map_filter snd ws) rp)"
    using wrap_steps [OF accepted(1), of held rp] by (simp add: handles_of_def)
  have l: "length ws = length sus" using wrapped_handed [OF accepted(1)] by simp
  have n: "q_strategy q' = fold strategy_given (given (zip sus (map snd ws))) (q_strategy q)"
      "n = of_nat (length (given (zip sus (map snd ws))))"
    using notify_submits_spec [OF accepted(5)] by simp_all
  have g: "length (given (zip sus (map snd ws))) = length (List.map_filter snd ws)"
    using arg_cong [OF given_handles [OF l], of length] by simp
  show ?thesis
    using accepted(2,6) wrap_submits_shape [OF accepted(1)] pool_steps_held [OF steps assms(3)] n g given_handles [OF l]
    by (intro exI [of _ ws] exI [of _ p]) auto
qed (use assms(2) in auto)

section \<open>Concrete calls\<close>

definition example_queue :: queue_ctx where
  "example_queue = \<lparr>q_layer_enabled = True, q_timestamp_valid_bits = 64, q_graphics = True, q_expose_reflex = True,
     q_strategy = make_queue_strategy True, q_pool = pool_new\<rparr>"

definition example_submit :: "nat submit" where
  "example_submit = \<lparr>su_cbs = [901], su_present_id = Some 3, su_rest = 5\<rparr>"

lemma example_pool: "pool_inv (pool_at (q_pool example_queue) [] None)"
  using pool_start_inv by (simp add: pool_at_def pool_start_def example_queue_def)

lemma example_runs:
  "\<exists>r handed q' c'. submit_body (\<lambda>cb. cb) (\<lambda>_. good_fns) (\<lambda>_. None) driver [example_submit] example_queue c = Inr (r, handed, q', c')"
proof (cases "submit_body (\<lambda>cb. cb) (\<lambda>_. good_fns) (\<lambda>_. None) driver [example_submit] example_queue c")
  case (Inl e)
  then show ?thesis using submit_no_panic [OF example_pool] by blast
next
  case (Inr x)
  then show ?thesis by (cases x) auto
qed

lemma example_brackets:
  "\<exists>h q' c'. submit_body (\<lambda>cb. cb) (\<lambda>_. good_fns) (\<lambda>_. None) (\<lambda>_. r) [example_submit] example_queue c
     = Inr (r, [wrap_submit (\<lambda>cb. cb) h example_submit], q', c')"
proof -
  have m: "inject_mask example_queue (\<lambda>_. None) [example_submit] = [True]"
    by (simp add: inject_mask_def should_inject_for_submit_def should_inject_timestamps_def example_queue_def)
  obtain h p where "pool_acquire good_fns (q_pool example_queue) = Inr (Some h, p)"
    using good_acquire [OF example_pool] by (auto simp: pool_at_def)
  then have "wrap_submits (\<lambda>cb. cb) (\<lambda>_. good_fns) 0 [(example_submit, True)] (q_pool example_queue)
      = Inr (Wrapped [(wrap_submit (\<lambda>cb. cb) h example_submit, Some h)], p)" by simp
  then show ?thesis
    by (cases "notify_submits [(example_submit, Some h)] (example_queue\<lparr>q_pool := p\<rparr>) 0")
      (auto simp: submit_body_def m Let_def)
qed



theorem submit_tracks_what_it_bracketed_witness:
  "\<exists>handed q' c'. submit_body (\<lambda>cb. cb) (\<lambda>_. good_fns) (\<lambda>_. None) (\<lambda>_. SUCCESS) [example_submit] example_queue counters_default
       = Inr (SUCCESS, handed, q', c')
     \<and> (\<exists>ws :: (nat submit \<times> handle option) list. handed = map fst ws \<and> c' = record_submit_call 1 (of_nat (length (List.map_filter snd ws))) counters_default)"
proof -
  obtain h q' c' where e: "submit_body (\<lambda>cb. cb) (\<lambda>_. good_fns) (\<lambda>_. None) (\<lambda>_. SUCCESS) [example_submit] example_queue counters_default
      = Inr (SUCCESS, [wrap_submit (\<lambda>cb. cb) h example_submit], q', c')" using example_brackets by blast
  have n: "[wrap_submit (\<lambda>cb. cb) h example_submit] \<noteq> [example_submit]" using wrap_submit_longer by simp
  obtain ws :: "(nat submit \<times> handle option) list" where "[wrap_submit (\<lambda>cb. cb) h example_submit] = map fst ws"
      "c' = record_submit_call (of_nat (length [example_submit])) (of_nat (length (List.map_filter snd ws))) counters_default"
    using submit_tracks_what_it_bracketed [OF e n example_pool] by (elim exE conjE) (rule that)
  moreover have "of_nat (length [example_submit]) = (1 :: u32)" by simp
  ultimately have w: "[wrap_submit (\<lambda>cb. cb) h example_submit] = map fst ws"
      and c: "c' = record_submit_call 1 (of_nat (length (List.map_filter snd ws))) counters_default"
    by (simp_all only:)
  show ?thesis by (intro exI conjI) (rule e, rule w, rule c)
qed

end
