(* ===== verification/Contexts.thy ===== *)
theory Contexts
  imports Extensions PNext Submit Dispatch Clock
begin

text \<open>
  The objects of the layer: the registries of \<open>src/registry.rs\<close> and the contexts of
  \<open>src/instance.rs\<close>, \<open>src/physical_device.rs\<close>, \<open>src/device.rs\<close> and \<open>src/queue.rs\<close>. A context
  lives on a heap under an address; an \<open>Arc\<close> to it is its address in a registry or in a
  field of another context, and it is dropped when nothing refers to it any more
  (\<open>collect\<close>). The driver's answers and the environment are parameters; a panic is a result
  of its own. The pacing targets of a device are here too.
\<close>

section \<open>Registries\<close>

definition reg_remove :: "nat \<Rightarrow> (nat \<times> 'v) list \<Rightarrow> (nat \<times> 'v) list" where
  "reg_remove k m = filter (\<lambda>x. fst x \<noteq> k) m"

definition reg_insert :: "nat \<Rightarrow> 'v \<Rightarrow> (nat \<times> 'v) list \<Rightarrow> (nat \<times> 'v) list" where
  "reg_insert k v m = (k, v) # reg_remove k m"

section \<open>Contexts\<close>

record app_info =
  ai_name :: "ustr option"
  ai_api_version :: u32

record instance_ctx =
  i_handle :: nat
  i_fns :: instance_table
  i_config :: layer_config
  i_decoupled :: bool
  i_api_version :: u32
  i_physical_devices :: "(nat \<times> nat) list"

definition read_app_info :: "app_info option \<Rightarrow> ustr option \<times> u32" where
  "read_app_info info = (case info of None \<Rightarrow> (None, 0) | Some a \<Rightarrow> (ai_name a, ai_api_version a))"

text \<open>\<open>exe\<close> is the basename of the executable, when it can be read.\<close>

definition instance_ctx_new ::
  "environ \<Rightarrow> layer_config \<Rightarrow> ustr option \<Rightarrow> app_info option \<Rightarrow> nat \<Rightarrow> instance_table \<Rightarrow> panic + instance_ctx" where
  "instance_ctx_new env base exe info inst fns =
     (let app_name = (case fst (read_app_info info) of Some n \<Rightarrow> Some n | None \<Rightarrow> exe) in
      case finalize_for_app env app_name base of
        Inl e \<Rightarrow> Inl e
      | Inr config \<Rightarrow> Inr \<lparr>i_handle = inst, i_fns = fns, i_config = config,
          i_decoupled = is_known_decoupled app_name config, i_api_version = snd (read_app_info info),
          i_physical_devices = []\<rparr>)"

definition API_VERSION_1_2 :: u32 where "API_VERSION_1_2 = 4202496"
definition API_VERSION_1_3 :: u32 where "API_VERSION_1_3 = 4206592"

definition supports_1_2 :: "instance_ctx \<Rightarrow> bool" where
  "supports_1_2 i \<longleftrightarrow> API_VERSION_1_2 \<le> i_api_version i"

definition supports_1_3 :: "instance_ctx \<Rightarrow> bool" where
  "supports_1_3 i \<longleftrightarrow> API_VERSION_1_3 \<le> i_api_version i"

record queue_family =
  timestamp_valid_bits :: u32
  graphics :: bool

text \<open>What the driver answers about a physical device.\<close>

record pd_driver =
  pdd_properties :: device_properties
  pdd_family_count :: u32
  pdd_family_fill :: "u32 \<Rightarrow> u32 \<times> queue_family list"
  pdd_extensions :: enum_driver

definition query_queue_families :: "pd_driver \<Rightarrow> queue_family list" where
  "query_queue_families drv =
     (let n = pdd_family_count drv in
      case pdd_family_fill drv n of (got, written) \<Rightarrow>
        take (unat got) (take (unat n) written
          @ replicate (unat n - length written) \<lparr>timestamp_valid_bits = 0, graphics = False\<rparr>))"

record physical_device_ctx =
  p_instance :: nat
  p_properties :: device_properties
  p_families :: "queue_family list"
  p_extensions :: pd_extensions

definition physical_device_ctx_new :: "nat \<Rightarrow> pd_driver \<Rightarrow> physical_device_ctx" where
  "physical_device_ctx_new i drv = \<lparr>p_instance = i, p_properties = pdd_properties drv,
     p_families = query_queue_families drv, p_extensions = pd_extensions_new (pdd_extensions drv)\<rparr>"

text \<open>
  A device strategy owns an \<open>Arc\<close> to its device. \<open>d_clock\<close> and \<open>d_worker\<close> own a thread that
  calls the driver with the device's handle and ends when the context is dropped.
\<close>

datatype device_strategy = LowLatency2D | AntiLagD

datatype display_worker = NoWorker | PresentWaitW | GoogleTimingW

record device_ctx =
  d_handle :: nat
  d_fns :: device_table
  d_instance :: nat
  d_physical_device :: nat
  d_layer_enabled :: bool
  d_clock :: "device_clock option"
  d_strategy :: "device_strategy option"
  d_queues :: "(nat \<times> nat) list"
  d_worker :: display_worker
  d_vrr_target :: u64

definition make_device_strategy :: "layer_config \<Rightarrow> device_strategy" where
  "make_device_strategy cfg = (if expose_reflex cfg then LowLatency2D else AntiLagD)"

definition make_display_worker :: "device_table \<Rightarrow> display_worker" where
  "make_display_worker fns =
     (if dt_wait_for_present_khr fns \<noteq> None then PresentWaitW
      else if dt_get_past_presentation_timing_google fns \<noteq> None then GoogleTimingW
      else NoWorker)"

text \<open>\<open>calib\<close> is the answer of the first calibration, if the entry point is called.\<close>

definition device_ctx_new ::
  "(vk_result \<times> u64 \<times> u64) \<Rightarrow> instance_ctx \<Rightarrow> nat \<Rightarrow> physical_device_ctx \<Rightarrow> nat \<Rightarrow> device_table \<Rightarrow> bool \<Rightarrow> device_ctx" where
  "device_ctx_new calib i pd_addr pd device fns enabled =
     (let strategy = make_device_strategy (i_config i) in
      \<lparr>d_handle = device, d_fns = fns, d_instance = p_instance pd, d_physical_device = pd_addr, d_layer_enabled = enabled,
       d_clock = (if enabled then device_clock_new (map_option (\<lambda>_. calib) (dt_get_calibrated_timestamps_khr fns))
                                    (timestamp_period (p_properties pd)) else None),
       d_strategy = (if enabled then Some strategy else None),
       d_queues = [],
       d_worker = (if enabled \<and> strategy = LowLatency2D then make_display_worker fns else NoWorker),
       d_vrr_target = 0\<rparr>)"

record queue_obj =
  qo_device :: nat
  qo_command_pool :: nat
  qo_ctx :: queue_ctx

section \<open>The layer\<close>

datatype layer_call =
    CreateInstance | DestroyInstance nat
  | CreateDevice nat nat "string list" | DestroyDevice nat | DeviceWaitIdle nat
  | CreateCommandPool nat nat | DestroyCommandPool nat nat | PoolCall driver_call

record layer =
  instances :: "(nat \<times> nat) list"
  physical_devices :: "(nat \<times> nat) list"
  devices :: "(nat \<times> nat) list"
  queues :: "(nat \<times> nat) list"
  i_heap :: "(nat \<times> instance_ctx) list"
  p_heap :: "(nat \<times> physical_device_ctx) list"
  d_heap :: "(nat \<times> device_ctx) list"
  q_heap :: "(nat \<times> queue_obj) list"
  next_addr :: nat
  calls :: "layer_call list"

definition layer_start :: layer where
  "layer_start = \<lparr>instances = [], physical_devices = [], devices = [], queues = [],
     i_heap = [], p_heap = [], d_heap = [], q_heap = [], next_addr = 1, calls = []\<rparr>"

section \<open>Dropping contexts\<close>

definition q_owned :: "layer \<Rightarrow> nat \<Rightarrow> bool" where
  "q_owned st a \<longleftrightarrow> a \<in> set (map snd (queues st)) \<or> list_ex (\<lambda>d. a \<in> set (map snd (d_queues (snd d)))) (d_heap st)"

definition d_owned :: "layer \<Rightarrow> nat \<Rightarrow> bool" where
  "d_owned st a \<longleftrightarrow> a \<in> set (map snd (devices st)) \<or> list_ex (\<lambda>q. qo_device (snd q) = a) (q_heap st)
     \<or> list_ex (\<lambda>d. fst d = a \<and> d_strategy (snd d) \<noteq> None) (d_heap st)"

definition p_owned :: "layer \<Rightarrow> nat \<Rightarrow> bool" where
  "p_owned st a \<longleftrightarrow> a \<in> set (map snd (physical_devices st))
     \<or> list_ex (\<lambda>i. a \<in> set (map snd (i_physical_devices (snd i)))) (i_heap st)
     \<or> list_ex (\<lambda>d. d_physical_device (snd d) = a) (d_heap st)"

definition i_owned :: "layer \<Rightarrow> nat \<Rightarrow> bool" where
  "i_owned st a \<longleftrightarrow> a \<in> set (map snd (instances st)) \<or> list_ex (\<lambda>p. p_instance (snd p) = a) (p_heap st)
     \<or> list_ex (\<lambda>d. d_instance (snd d) = a) (d_heap st)"

text \<open>
  The fields of a queue context drop in order: the strategy gives its handles to the pool,
  the pool frees its chunks, the command pool is destroyed.
\<close>

definition queue_drop_calls :: "nat \<Rightarrow> queue_obj \<Rightarrow> layer_call list" where
  "queue_drop_calls device q =
     map PoolCall (snd (pool_drop True (q_pool (qo_ctx q)))) @ [DestroyCommandPool device (qo_command_pool q)]"

definition device_handle_of :: "layer \<Rightarrow> nat \<Rightarrow> nat" where
  "device_handle_of st a = (case map_of (d_heap st) a of Some d \<Rightarrow> d_handle d | None \<Rightarrow> 0)"

definition collect_queues :: "layer \<Rightarrow> layer" where
  "collect_queues st = st\<lparr>q_heap := filter (\<lambda>x. q_owned st (fst x)) (q_heap st),
     calls := calls st @ concat (map (\<lambda>x. queue_drop_calls (device_handle_of st (qo_device (snd x))) (snd x))
       (filter (\<lambda>x. \<not> q_owned st (fst x)) (q_heap st)))\<rparr>"

definition collect_devices :: "layer \<Rightarrow> layer" where
  "collect_devices st = st\<lparr>d_heap := filter (\<lambda>x. d_owned st (fst x)) (d_heap st)\<rparr>"

definition collect_physical_devices :: "layer \<Rightarrow> layer" where
  "collect_physical_devices st = st\<lparr>p_heap := filter (\<lambda>x. p_owned st (fst x)) (p_heap st)\<rparr>"

definition collect_instances :: "layer \<Rightarrow> layer" where
  "collect_instances st = st\<lparr>i_heap := filter (\<lambda>x. i_owned st (fst x)) (i_heap st)\<rparr>"

text \<open>At the end of a call its local references are gone and everything unowned is dropped.\<close>

definition collect :: "layer \<Rightarrow> layer" where
  "collect st = collect_instances (collect_physical_devices (collect_devices (collect_queues st)))"

section \<open>The pacing target of a device\<close>

definition effective_min_delay_ns :: "layer_config \<Rightarrow> device_ctx \<Rightarrow> u64" where
  "effective_min_delay_ns cfg d = max (fps_cap_min_delay_ns cfg) (d_vrr_target d)"

text \<open>\<open>query\<close> is what \<open>vkGetRefreshCycleDurationGOOGLE\<close> answers when it is loaded: the result and the duration.\<close>

definition ensure_vrr_target :: "layer_config \<Rightarrow> (vk_result \<times> u64) \<Rightarrow> device_ctx \<Rightarrow> device_ctx" where
  "ensure_vrr_target cfg query d =
     (if \<not> vrr_enabled cfg then d
      else if d_vrr_target d \<noteq> 0 then d
      else
        (case dt_get_refresh_cycle_duration_google (d_fns d) of
           None \<Rightarrow> d
         | Some _ \<Rightarrow>
             (case query of (r, refresh_duration) \<Rightarrow>
                if r \<noteq> SUCCESS \<or> refresh_duration = 0 then d
                else
                  (let refresh_hz = 1000000000 div refresh_duration;
                       target_hz = max (saturating_sub refresh_hz (ucast (vrr_offset_hz cfg))) 1
                   in d\<lparr>d_vrr_target := 1000000000 div target_hz\<rparr>))))"

lemma ensure_vrr_once: "d_vrr_target d \<noteq> 0 \<Longrightarrow> ensure_vrr_target cfg query d = d"
  by (simp add: ensure_vrr_target_def)

lemma u64_div_le_mono2:
  assumes "b \<le> c" and "b \<noteq> 0"
  shows "a div c \<le> a div (b :: u64)"
proof -
  have "unat b \<le> unat c" "0 < unat b" using assms by (simp_all add: word_le_nat_alt unat_gt_0)
  then show ?thesis by (simp add: word_le_nat_alt unat_div div_le_mono2)
qed

text \<open>
  The VRR target keeps the display in its window: once a refresh cycle of at most one
  second has been read, the target frame time is at least the refresh cycle and at most one
  second, whatever the configured offset, so no frame is paced faster than the display; the
  effective minimum delay is the stricter of it and the frame cap, and neither a later query
  nor a failed one changes the target.
\<close>

theorem vrr_target_within_window:
  assumes "vrr_enabled cfg" and "d_vrr_target d = 0" and "dt_get_refresh_cycle_duration_google (d_fns d) \<noteq> None"
    and "cycle \<noteq> 0" and "cycle \<le> 1000000000"
  shows "cycle \<le> d_vrr_target (ensure_vrr_target cfg (SUCCESS, cycle) d)
    \<and> d_vrr_target (ensure_vrr_target cfg (SUCCESS, cycle) d) \<le> 1000000000
    \<and> ensure_vrr_target cfg query (ensure_vrr_target cfg (SUCCESS, cycle) d) = ensure_vrr_target cfg (SUCCESS, cycle) d
    \<and> cycle \<le> effective_min_delay_ns cfg (ensure_vrr_target cfg (SUCCESS, cycle) d)
    \<and> fps_cap_min_delay_ns cfg \<le> effective_min_delay_ns cfg (ensure_vrr_target cfg (SUCCESS, cycle) d)"
proof -
  let ?G = "1000000000 :: u64"
  let ?hz = "?G div cycle"
  let ?t = "max (saturating_sub ?hz (ucast (vrr_offset_hz cfg))) 1"
  let ?d = "ensure_vrr_target cfg (SUCCESS, cycle) d"
  have d: "d_vrr_target ?d = ?G div ?t"
    using assms by (auto simp: ensure_vrr_target_def Let_def)
  have c: "0 < unat cycle" "unat cycle \<le> 1000000000" using assms(4,5) by (simp_all add: word_le_nat_alt unat_gt_0)
  have hz: "unat ?hz * unat cycle \<le> 1000000000" "1 \<le> unat ?hz"
    using u64_div_mult_le [of ?G cycle] c by (simp_all add: unat_div Suc_le_eq div_greater_zero_iff)
  have hz1: "1 \<le> ?hz" using hz(2) by (simp add: word_le_nat_alt)
  have "saturating_sub ?hz x \<le> ?hz" for x
    by (simp add: word_le_def uint_saturating_sub)
  then have "?t \<le> ?hz" using hz1 by simp
  moreover have t0: "?t \<noteq> 0"
  proof -
    have "1 \<le> ?t" by simp
    then show ?thesis by (auto simp: word_le_nat_alt)
  qed
  ultimately have "?G div ?hz \<le> ?G div ?t" by (rule u64_div_le_mono2)
  moreover have "cycle \<le> ?G div ?hz"
  proof -
    have "unat cycle \<le> 1000000000 div unat ?hz" using hz by (simp add: less_eq_div_iff_mult_less_eq mult.commute)
    then show ?thesis by (simp add: word_le_nat_alt unat_div)
  qed
  ultimately have low: "cycle \<le> d_vrr_target ?d" unfolding d by (rule order.trans [rotated])
  have "?G div ?t \<le> ?G" by (simp add: word_le_nat_alt unat_div)
  then have high: "d_vrr_target ?d \<le> ?G" unfolding d .
  have "d_vrr_target ?d \<noteq> 0" using low c(1) by (auto simp: word_le_nat_alt)
  then have "ensure_vrr_target cfg query ?d = ?d" by (rule ensure_vrr_once)
  then show ?thesis using low high by (simp add: effective_min_delay_ns_def le_max_iff_disj)
qed

text \<open>A device whose next layer resolves every name, to the length of the name.\<close>

definition plain_device :: "device_table \<Rightarrow> device_ctx" where
  "plain_device t = \<lparr>d_handle = 1, d_fns = t, d_instance = 1, d_physical_device = 2, d_layer_enabled = False, d_clock = None,
     d_strategy = None, d_queues = [], d_worker = NoWorker, d_vrr_target = 0\<rparr>"

lemma full_table: "\<exists>t. device_table_load (\<lambda>n. Some (length n)) = Inr t \<and> dt_get_refresh_cycle_duration_google t \<noteq> None"
  by (simp add: device_table_load_def require_def)

theorem vrr_target_within_window_witness:
  "\<exists>t. dt_get_refresh_cycle_duration_google t \<noteq> None
     \<and> 6944444 \<le> d_vrr_target (ensure_vrr_target (example_config\<lparr>vrr_enabled := True\<rparr>) (SUCCESS, 6944444) (plain_device t))"
proof -
  obtain t :: device_table where t: "dt_get_refresh_cycle_duration_google t \<noteq> None" using full_table by blast
  have "(6944444 :: u64) \<noteq> 0" "(6944444 :: u64) \<le> 1000000000" by simp_all
  then show ?thesis
    using vrr_target_within_window [of "example_config\<lparr>vrr_enabled := True\<rparr>" "plain_device t" 6944444 "(TIMEOUT, 0)"] t
    by (auto simp: plain_device_def)
qed

end
