(* ===== verification/Lifecycle.thy ===== *)
theory Lifecycle
  imports Contexts
begin

text \<open>
  The entry points of \<open>src/lib.rs\<close> that create, look up and destroy instances, devices and
  queues, with \<open>QueueContext::new\<close> of \<open>src/queue.rs\<close> and \<open>drain_for_destroy\<close> of
  \<open>src/device.rs\<close>, over the objects of \<open>Contexts\<close>. A result \<open>None\<close> is a call without a value
  (undefined behaviour, or a walk of a cyclic chain); \<open>Inl\<close> is a panic.
\<close>

section \<open>Instances\<close>

text \<open>
  The layer links of the loader: the next link and which of the two function pointers are set.
  Address \<open>0\<close> is null.
\<close>

record layer_link =
  link_next :: nat
  link_gipa :: bool
  link_gdpa :: bool

type_synonym 'a outcome = "(panic + 'a) option"

definition fails :: "vk_result \<Rightarrow> layer \<Rightarrow> store \<Rightarrow> (vk_result \<times> layer \<times> store) outcome" where
  "fails r st h = Some (Inr (r, st, h))"

text \<open>Taking the link out of the chain: the link found and the store in which it is advanced.\<close>

definition take_link :: "(nat \<rightharpoonup> layer_link) \<Rightarrow> (layer_link \<Rightarrow> bool) \<Rightarrow> nat option option \<Rightarrow> store \<Rightarrow> store option option" where
  "take_link links usable found h =
     (case found of
        None \<Rightarrow> None
      | Some None \<Rightarrow> Some None
      | Some (Some l) \<Rightarrow>
          (case h l of
             None \<Rightarrow> None
           | Some n \<Rightarrow>
               if p_layer_info n = 0 then Some None
               else
                 (case links (p_layer_info n) of
                    None \<Rightarrow> None
                  | Some lk \<Rightarrow>
                      if \<not> usable lk then Some None
                      else Some (Some (h(l \<mapsto> n\<lparr>p_layer_info := link_next lk\<rparr>))))))"

text \<open>A call of the next layer, and a new context registered under its handle.\<close>

definition add_call :: "layer_call \<Rightarrow> layer \<Rightarrow> layer" where
  "add_call c st = st\<lparr>calls := calls st @ [c]\<rparr>"

definition add_instance :: "nat \<Rightarrow> instance_ctx \<Rightarrow> layer \<Rightarrow> layer" where
  "add_instance k ctx st = st\<lparr>instances := reg_insert k (next_addr st) (instances st),
     i_heap := (next_addr st, ctx) # i_heap st, next_addr := Suc (next_addr st)\<rparr>"

definition add_physical_device :: "nat \<Rightarrow> physical_device_ctx \<Rightarrow> layer \<Rightarrow> layer" where
  "add_physical_device k ctx st = st\<lparr>physical_devices := reg_insert k (next_addr st) (physical_devices st),
     p_heap := (next_addr st, ctx) # p_heap st, next_addr := Suc (next_addr st)\<rparr>"

definition add_device :: "nat \<Rightarrow> device_ctx \<Rightarrow> layer \<Rightarrow> layer" where
  "add_device k ctx st = st\<lparr>devices := reg_insert k (next_addr st) (devices st),
     d_heap := (next_addr st, ctx) # d_heap st, next_addr := Suc (next_addr st)\<rparr>"

definition add_queue :: "nat \<Rightarrow> queue_obj \<Rightarrow> layer \<Rightarrow> layer" where
  "add_queue k q st = st\<lparr>queues := reg_insert k (next_addr st) (queues st),
     q_heap := (next_addr st, q) # q_heap st, next_addr := Suc (next_addr st)\<rparr>"

record instance_driver =
  create_instance_next :: "vk_result \<times> nat"
  next_instance_functions :: "string \<Rightarrow> nat option"

definition create_instance ::
  "environ \<Rightarrow> layer_config \<Rightarrow> ustr option \<Rightarrow> (nat \<rightharpoonup> layer_link) \<Rightarrow> instance_driver
     \<Rightarrow> (nat \<times> app_info option) option \<Rightarrow> store \<Rightarrow> layer \<Rightarrow> (vk_result \<times> layer \<times> store) outcome" where
  "create_instance env base exe links drv create_info h st =
     (case create_info of
        None \<Rightarrow> fails ERROR_INITIALIZATION_FAILED st h
      | Some (head, info) \<Rightarrow>
          (case take_link links link_gipa (find_instance_link h head) h of
             None \<Rightarrow> None
           | Some None \<Rightarrow> fails ERROR_INITIALIZATION_FAILED st h
           | Some (Some h') \<Rightarrow>
               (case create_instance_next drv of (r, inst) \<Rightarrow>
                  let st1 = add_call CreateInstance st in
                  if r \<noteq> SUCCESS then fails r st1 h'
                  else
                    (case instance_table_load (next_instance_functions drv) of
                       Inl e \<Rightarrow> Some (Inl e)
                     | Inr fns \<Rightarrow>
                         (case instance_ctx_new env base exe info inst fns of
                            Inl e \<Rightarrow> Some (Inl e)
                          | Inr ctx \<Rightarrow>
                              Some (Inr (SUCCESS, collect (add_instance inst ctx st1), h')))))))"

definition destroy_instance :: "nat \<Rightarrow> layer \<Rightarrow> layer" where
  "destroy_instance inst st =
     (case map_of (instances st) inst of
        None \<Rightarrow> st
      | Some a \<Rightarrow>
          (let st1 = st\<lparr>instances := reg_remove inst (instances st)\<rparr>;
               pds = (case map_of (i_heap st) a of Some i \<Rightarrow> map fst (i_physical_devices i) | None \<Rightarrow> []);
               st2 = st1\<lparr>physical_devices := fold reg_remove pds (physical_devices st1)\<rparr>;
               st3 = collect st2
           in add_call (DestroyInstance inst) st3))"

section \<open>Physical devices\<close>

text \<open>Changing the context at an address in place.\<close>

definition update_at :: "nat \<Rightarrow> ('c \<Rightarrow> 'c) \<Rightarrow> (nat \<times> 'c) list \<Rightarrow> (nat \<times> 'c) list" where
  "update_at a f m = map (\<lambda>x. if fst x = a then (a, f (snd x)) else x) m"

definition set_instance :: "nat \<Rightarrow> (instance_ctx \<Rightarrow> instance_ctx) \<Rightarrow> layer \<Rightarrow> layer" where
  "set_instance a f st = st\<lparr>i_heap := update_at a f (i_heap st)\<rparr>"

text \<open>One device of the driver's array: registered under its handle unless it already is.\<close>

definition register_physical_device :: "nat \<Rightarrow> nat \<times> pd_driver \<Rightarrow> layer \<Rightarrow> layer" where
  "register_physical_device a x st =
     (let key = fst x;
          st1 = (case map_of (physical_devices st) key of
                   Some _ \<Rightarrow> st
                 | None \<Rightarrow> add_physical_device key (physical_device_ctx_new a (snd x)) st)
      in case map_of (physical_devices st1) key of
           None \<Rightarrow> st1
         | Some p \<Rightarrow> set_instance a (\<lambda>i. i\<lparr>i_physical_devices := reg_insert key p (i_physical_devices i)\<rparr>) st1)"

text \<open>
  \<open>r\<close> and \<open>written\<close> are the driver's answer: the result and the devices it wrote into the
  array; \<open>with_array\<close> says that the application passed an array.
\<close>

definition enumerate_physical_devices ::
  "nat \<Rightarrow> bool \<Rightarrow> vk_result \<Rightarrow> (nat \<times> pd_driver) list \<Rightarrow> layer \<Rightarrow> vk_result \<times> layer" where
  "enumerate_physical_devices inst with_array r written st =
     (case map_of (instances st) inst of
        None \<Rightarrow> (ERROR_INITIALIZATION_FAILED, st)
      | Some a \<Rightarrow>
          if r \<noteq> SUCCESS \<or> \<not> with_array then (r, st)
          else (SUCCESS, collect (fold (register_physical_device a) written st)))"

section \<open>Devices\<close>

record device_driver =
  create_device_next :: "nat \<Rightarrow> store \<Rightarrow> string list \<Rightarrow> vk_result \<times> nat"
  next_device_functions :: "string \<Rightarrow> nat option"
  first_calibration :: "vk_result \<times> u64 \<times> u64"

text \<open>
  The create info: the head of its chain and its extension names, where \<open>None\<close> is a null
  pointer to the names, from which the code makes a slice. \<open>box\<close> is where the appended
  structures are allocated.
\<close>

definition create_device ::
  "(nat \<rightharpoonup> layer_link) \<Rightarrow> device_driver \<Rightarrow> (feature \<Rightarrow> nat) \<Rightarrow> nat \<Rightarrow> (nat \<times> string list option) option
     \<Rightarrow> store \<Rightarrow> layer \<Rightarrow> (vk_result \<times> layer \<times> store) outcome" where
  "create_device links drv box physical_device create_info h st =
     (case create_info of
        None \<Rightarrow> fails ERROR_INITIALIZATION_FAILED st h
      | Some (head, names) \<Rightarrow>
     (case map_of (physical_devices st) physical_device of
        None \<Rightarrow> fails ERROR_INITIALIZATION_FAILED st h
      | Some pa \<Rightarrow>
     (case map_of (p_heap st) pa of
        None \<Rightarrow> None
      | Some pd \<Rightarrow>
     (case map_of (i_heap st) (p_instance pd) of
        None \<Rightarrow> None
      | Some i \<Rightarrow>
     (case names of
        None \<Rightarrow> None
      | Some enabled_exts \<Rightarrow>
     (case device_request_of (i_config i) (p_extensions pd) enabled_exts of
        None \<Rightarrow> fails ERROR_INITIALIZATION_FAILED st h
      | Some rq \<Rightarrow>
     (case take_link links (\<lambda>l. link_gipa l \<and> link_gdpa l) (find_device_link h head) h of
        None \<Rightarrow> None
      | Some None \<Rightarrow> fails ERROR_INITIALIZATION_FAILED st h
      | Some (Some h1) \<Rightarrow>
     (case (if rq_layer_enabled rq then
              (case patch_features \<lparr>v_1_2 = supports_1_2 i, v_1_3 = supports_1_3 i,
                  enable_present_id = rq_present_id rq, enable_present_wait = rq_present_wait rq\<rparr> head h1 of
                 None \<Rightarrow> None
               | Some (h2, ap) \<Rightarrow> Some (h2, relink_into ap box (head, h2)))
            else Some (h1, (head, h1))) of
        None \<Rightarrow> None
      | Some (h2, (head', h3)) \<Rightarrow>
     (case create_device_next drv head' h3 (rq_extensions rq) of (r, device) \<Rightarrow>
        let st1 = add_call (CreateDevice physical_device head' (rq_extensions rq)) st in
        if r \<noteq> SUCCESS then fails r st1 h2
        else
          (case device_table_load (next_device_functions drv) of
             Inl e \<Rightarrow> Some (Inl e)
           | Inr fns \<Rightarrow>
               Some (Inr (SUCCESS,
                 collect (add_device device
                   (device_ctx_new (first_calibration drv) i pa pd device fns (rq_layer_enabled rq)) st1), h2))))))))))))"

definition set_device :: "nat \<Rightarrow> (device_ctx \<Rightarrow> device_ctx) \<Rightarrow> layer \<Rightarrow> layer" where
  "set_device a f st = st\<lparr>d_heap := update_at a f (d_heap st)\<rparr>"

text \<open>\<open>drain_for_destroy\<close>: wait for the device, then drop the device's references to its queues.\<close>

definition drain_for_destroy :: "nat \<Rightarrow> layer \<Rightarrow> layer" where
  "drain_for_destroy a st =
     collect_queues (set_device a (\<lambda>d. d\<lparr>d_queues := []\<rparr>)
       (add_call (DeviceWaitIdle (device_handle_of st a)) st))"

definition destroy_device :: "nat \<Rightarrow> layer \<Rightarrow> layer" where
  "destroy_device device st =
     (case map_of (devices st) device of
        None \<Rightarrow> st
      | Some a \<Rightarrow>
          (let st1 = drain_for_destroy a (st\<lparr>devices := reg_remove device (devices st)\<rparr>);
               keys = (case map_of (d_heap st1) a of Some d \<Rightarrow> map fst (d_queues d) | None \<Rightarrow> []);
               st2 = collect (st1\<lparr>queues := fold reg_remove keys (queues st1)\<rparr>)
           in add_call (DestroyDevice device) st2))"

section \<open>Queues\<close>

text \<open>
  \<open>QueueContext::new\<close>, with the driver's answer for the command pool; \<open>None\<close> is a context
  that could not be made.
\<close>

definition queue_obj_new :: "layer_config \<Rightarrow> nat \<Rightarrow> device_ctx \<Rightarrow> queue_family list \<Rightarrow> nat \<Rightarrow> (vk_result \<times> nat) \<Rightarrow> queue_obj option" where
  "queue_obj_new cfg a d families family pool_answer =
     (if \<not> family < length families then None
      else
        (case pool_answer of (r, cp) \<Rightarrow>
           if r \<noteq> SUCCESS then None
           else Some \<lparr>qo_device = a, qo_command_pool = cp,
             qo_ctx = \<lparr>q_layer_enabled = d_layer_enabled d,
               q_timestamp_valid_bits = timestamp_valid_bits (families ! family), q_graphics = graphics (families ! family),
               q_expose_reflex = expose_reflex cfg, q_strategy = make_queue_strategy (expose_reflex cfg),
               q_pool = pool_new\<rparr>\<rparr>))"

definition register_queue :: "nat \<Rightarrow> nat \<Rightarrow> nat \<Rightarrow> (vk_result \<times> nat) \<Rightarrow> layer \<Rightarrow> layer" where
  "register_queue a queue family pool_answer st =
     (case map_of (queues st) queue of
        Some _ \<Rightarrow> st
      | None \<Rightarrow>
     (case map_of (d_heap st) a of
        None \<Rightarrow> st
      | Some d \<Rightarrow>
     (case map_of (p_heap st) (d_physical_device d) of
        None \<Rightarrow> st
      | Some pd \<Rightarrow>
     (case map_of (i_heap st) (d_instance d) of
        None \<Rightarrow> st
      | Some i \<Rightarrow>
          (let st1 = (if family < length (p_families pd)
                      then add_call (CreateCommandPool (d_handle d) (snd pool_answer)) st else st)
           in case queue_obj_new (i_config i) a d (p_families pd) family pool_answer of
                None \<Rightarrow> st1
              | Some q \<Rightarrow>
                  set_device a (\<lambda>d. d\<lparr>d_queues := reg_insert queue (next_addr st1) (d_queues d)\<rparr>)
                    (add_queue queue q st1))))))"

text \<open>\<open>vkGetDeviceQueue\<close> and \<open>vkGetDeviceQueue2\<close>; \<open>queue\<close> is what the driver wrote (\<open>0\<close> is null).\<close>

definition get_device_queue :: "nat \<Rightarrow> nat \<Rightarrow> nat \<Rightarrow> (vk_result \<times> nat) \<Rightarrow> layer \<Rightarrow> layer" where
  "get_device_queue device family queue pool_answer st =
     (case map_of (devices st) device of
        None \<Rightarrow> st
      | Some a \<Rightarrow> if queue = 0 then st else register_queue a queue family pool_answer st)"

definition get_device_queue2 :: "nat \<Rightarrow> nat \<Rightarrow> nat \<Rightarrow> (vk_result \<times> nat) \<Rightarrow> layer \<Rightarrow> layer" where
  "get_device_queue2 device family queue pool_answer st =
     (case map_of (devices st) device of
        None \<Rightarrow> st
      | Some a \<Rightarrow>
          (case map_of (d_heap st) a of
             None \<Rightarrow> st
           | Some d \<Rightarrow>
               if dt_get_device_queue2 (d_fns d) = None then st
               else if queue = 0 then st
               else register_queue a queue family pool_answer st))"

section \<open>Histories\<close>

inductive layer_step :: "layer \<Rightarrow> layer \<Rightarrow> bool" where
  instance_created: "create_instance env base exe links idrv ci h st = Some (Inr (r, st', h')) \<Longrightarrow> layer_step st st'"
| instance_destroyed: "layer_step st (destroy_instance inst st)"
| enumerated: "layer_step st (snd (enumerate_physical_devices inst with_array r written st))"
| device_created: "create_device links ddrv box pd ci2 h st = Some (Inr (r, st', h')) \<Longrightarrow> layer_step st st'"
| device_destroyed: "layer_step st (destroy_device device st)"
| queue_got: "layer_step st (get_device_queue device family queue pool_answer st)"
| queue_got2: "layer_step st (get_device_queue2 device family queue pool_answer st)"

definition reachable :: "layer \<Rightarrow> bool" where
  "reachable st \<longleftrightarrow> rtranclp layer_step layer_start st"

section \<open>Invariant\<close>

text \<open>
  Every reference leads to a context on its heap; addresses are below the next one; and, as
  the code stands, every queue context is in the registry, under the key its device knows.
\<close>

definition refs :: "(nat \<times> nat) list \<Rightarrow> nat set" where
  "refs m = snd ` set m"

definition doms :: "(nat \<times> 'c) list \<Rightarrow> nat set" where
  "doms m = fst ` set m"

definition no_dangling :: "layer \<Rightarrow> bool" where
  "no_dangling st \<longleftrightarrow> refs (instances st) \<subseteq> doms (i_heap st) \<and> refs (physical_devices st) \<subseteq> doms (p_heap st)
     \<and> refs (devices st) \<subseteq> doms (d_heap st) \<and> refs (queues st) \<subseteq> doms (q_heap st)
     \<and> (\<forall>x\<in>set (i_heap st). refs (i_physical_devices (snd x)) \<subseteq> doms (p_heap st))
     \<and> (\<forall>x\<in>set (p_heap st). p_instance (snd x) \<in> doms (i_heap st))
     \<and> (\<forall>x\<in>set (d_heap st). d_instance (snd x) \<in> doms (i_heap st) \<and> d_physical_device (snd x) \<in> doms (p_heap st)
          \<and> refs (d_queues (snd x)) \<subseteq> doms (q_heap st))
     \<and> (\<forall>x\<in>set (q_heap st). qo_device (snd x) \<in> doms (d_heap st))"

definition layer_inv :: "layer \<Rightarrow> bool" where
  "layer_inv st \<longleftrightarrow> no_dangling st
     \<and> (\<forall>a\<in>doms (i_heap st) \<union> doms (p_heap st) \<union> doms (d_heap st) \<union> doms (q_heap st). a < next_addr st)
     \<and> doms (q_heap st) \<subseteq> refs (queues st) \<and> distinct (map fst (d_heap st))"

definition same_workers :: "device_ctx \<Rightarrow> device_ctx \<Rightarrow> bool" where
  "same_workers d d' \<longleftrightarrow> d_handle d' = d_handle d \<and> d_clock d' = d_clock d \<and> d_worker d' = d_worker d
     \<and> d_strategy d' = d_strategy d"

text \<open>What no call of the layer ever undoes.\<close>

definition keeps :: "layer \<Rightarrow> layer \<Rightarrow> bool" where
  "keeps s t \<longleftrightarrow> layer_inv t
     \<and> (\<forall>k a. map_of (queues s) k = Some a \<longrightarrow> map_of (queues t) k = Some a \<and> map_of (q_heap t) a = map_of (q_heap s) a)
     \<and> (\<forall>a d. map_of (d_heap s) a = Some d \<longrightarrow> d_strategy d \<noteq> None \<longrightarrow>
          (\<exists>d'. map_of (d_heap t) a = Some d' \<and> same_workers d d'))
     \<and> (\<forall>c\<in>set (calls t). c \<in> set (calls s) \<or> (\<forall>x y. c \<noteq> DestroyCommandPool x y))"

lemma keeps_refl: "layer_inv s \<Longrightarrow> keeps s s"
  by (auto simp: keeps_def same_workers_def)

lemma keeps_trans:
  assumes "keeps s t" and "keeps t u"
  shows "keeps s u"
proof -
  have d: "\<exists>d'. map_of (d_heap u) a = Some d' \<and> same_workers d d'"
    if a: "map_of (d_heap s) a = Some d" "d_strategy d \<noteq> None" for a d
  proof -
    obtain d1 where d1: "map_of (d_heap t) a = Some d1" "same_workers d d1" using assms(1) a unfolding keeps_def by blast
    then have "d_strategy d1 \<noteq> None" using a(2) by (simp add: same_workers_def)
    then obtain d2 where "map_of (d_heap u) a = Some d2" "same_workers d1 d2" using assms(2) d1(1) unfolding keeps_def by blast
    then show ?thesis using d1(2) by (auto simp: same_workers_def)
  qed
  have c: "c \<in> set (calls s) \<or> (\<forall>x y. c \<noteq> DestroyCommandPool x y)" if "c \<in> set (calls u)" for c
    using assms that unfolding keeps_def by blast
  have q: "map_of (queues u) k = Some a \<and> map_of (q_heap u) a = map_of (q_heap s) a"
    if "map_of (queues s) k = Some a" for k a
  proof -
    have 1: "map_of (queues t) k = Some a \<and> map_of (q_heap t) a = map_of (q_heap s) a"
      using assms(1) that unfolding keeps_def by blast
    then have "map_of (queues u) k = Some a \<and> map_of (q_heap u) a = map_of (q_heap t) a"
      using assms(2) unfolding keeps_def by blast
    then show ?thesis using 1 by simp
  qed
  show ?thesis using assms(2) d c q by (simp add: keeps_def)
qed

text \<open>Association lists.\<close>

lemma set_reg_remove: "set (reg_remove k m) = {x \<in> set m. fst x \<noteq> k}"
  by (auto simp: reg_remove_def)

lemma refs_remove: "refs (reg_remove k m) \<subseteq> refs m"
  by (auto simp: refs_def reg_remove_def)

lemma refs_fold_remove: "refs (fold reg_remove ks m) \<subseteq> refs m"
proof (induction ks arbitrary: m)
  case (Cons k ks)
  then show ?case using refs_remove by fastforce
qed simp

lemma refs_insert: "refs (reg_insert k v m) \<subseteq> insert v (refs m)"
  by (auto simp: refs_def reg_insert_def reg_remove_def)

lemma map_of_filter_keys: "map_of (filter (\<lambda>x. P (fst x)) m) k = (if P k then map_of m k else None)"
  by (induction m) auto

lemma map_of_reg_insert: "map_of (reg_insert k v m) k' = (if k' = k then Some v else map_of m k')"
  by (simp add: reg_insert_def reg_remove_def map_of_filter_keys [of "\<lambda>x. x \<noteq> k"])

lemma map_of_update_at:
  "map_of (update_at a f m) k = (if k = a then map_option f (map_of m k) else map_of m k)"
  by (induction m) (auto simp: update_at_def)

lemma doms_update_at [simp]: "doms (update_at a f m) = doms m"
  by (induction m) (auto simp: doms_def update_at_def)

lemma map_fst_update_at [simp]: "map fst (update_at a f m) = map fst m"
  by (induction m) (auto simp: update_at_def)

lemma ball_update_at:
  "(\<forall>x\<in>set m. P (snd x)) \<Longrightarrow> (\<And>c. P c \<Longrightarrow> P (f c)) \<Longrightarrow> \<forall>x\<in>set (update_at a f m). P (snd x)"
  by (auto simp: update_at_def)

lemma doms_filter: "doms (filter (\<lambda>x. P (fst x)) m) = {a \<in> doms m. P a}"
  by (auto simp: doms_def)

lemma map_of_doms: "map_of m k = Some v \<Longrightarrow> k \<in> doms m"
  by (force simp: doms_def dest: map_of_SomeD)

lemma map_of_refs: "map_of m k = Some v \<Longrightarrow> v \<in> refs m"
  by (force simp: refs_def dest: map_of_SomeD)

lemma doms_map_of: "k \<in> doms m \<Longrightarrow> \<exists>v. map_of m k = Some v"
  by (metis doms_def map_of_eq_None_iff not_None_eq)

section \<open>Dropping keeps the invariant\<close>

lemma collect_queues_id: "layer_inv st \<Longrightarrow> collect_queues st = st"
proof -
  assume "layer_inv st"
  then have o1: "\<forall>x\<in>set (q_heap st). q_owned st (fst x)"
    by (auto simp: layer_inv_def q_owned_def refs_def doms_def)
  then have "filter (\<lambda>x. q_owned st (fst x)) (q_heap st) = q_heap st" "filter (\<lambda>x. \<not> q_owned st (fst x)) (q_heap st) = []"
    by (auto simp: filter_id_conv filter_empty_conv)
  then show ?thesis by (simp add: collect_queues_def)
qed

lemma collect_devices_keeps:
  assumes "layer_inv st"
  shows "keeps st (collect_devices st)"
proof -
  let ?h = "filter (\<lambda>x. d_owned st (fst x)) (d_heap st)"
  have own: "refs (devices st) \<subseteq> {a. d_owned st a}" "\<And>x. x \<in> set (q_heap st) \<Longrightarrow> d_owned st (qo_device (snd x))"
    by (auto simp: d_owned_def refs_def list_ex_iff)
  have "no_dangling (collect_devices st)"
    using assms own
    by (auto simp: layer_inv_def no_dangling_def collect_devices_def doms_filter)
  moreover have "d_owned st a" if "map_of (d_heap st) a = Some d" "d_strategy d \<noteq> None" for a d
    using map_of_SomeD [OF that(1)] that(2) by (force simp: d_owned_def list_ex_iff)
  ultimately show ?thesis
    using assms by (auto simp: keeps_def layer_inv_def collect_devices_def doms_filter map_of_filter_keys same_workers_def
        distinct_map_filter)
qed

lemma collect_physical_devices_keeps:
  assumes "layer_inv st"
  shows "keeps st (collect_physical_devices st)"
proof -
  have "refs (physical_devices st) \<subseteq> {a. p_owned st a}"
      "\<And>x. x \<in> set (i_heap st) \<Longrightarrow> refs (i_physical_devices (snd x)) \<subseteq> {a. p_owned st a}"
      "\<And>x. x \<in> set (d_heap st) \<Longrightarrow> p_owned st (d_physical_device (snd x))"
    by (auto simp: p_owned_def refs_def list_ex_iff)
  then have "no_dangling (collect_physical_devices st)"
    using assms unfolding layer_inv_def no_dangling_def
    by (simp add: collect_physical_devices_def doms_filter subset_iff)
  then show ?thesis
    using assms by (auto simp: keeps_def layer_inv_def collect_physical_devices_def doms_filter same_workers_def)
qed

lemma collect_instances_keeps:
  assumes "layer_inv st"
  shows "keeps st (collect_instances st)"
proof -
  have "refs (instances st) \<subseteq> {a. i_owned st a}"
      "\<And>x. x \<in> set (p_heap st) \<Longrightarrow> i_owned st (p_instance (snd x))"
      "\<And>x. x \<in> set (d_heap st) \<Longrightarrow> i_owned st (d_instance (snd x))"
    by (auto simp: i_owned_def refs_def list_ex_iff)
  then have "no_dangling (collect_instances st)"
    using assms unfolding layer_inv_def no_dangling_def
    by (simp add: collect_instances_def doms_filter subset_iff) fastforce
  then show ?thesis
    using assms by (auto simp: keeps_def layer_inv_def collect_instances_def doms_filter same_workers_def)
qed

lemma keeps_inv: "keeps s t \<Longrightarrow> layer_inv t"
  by (simp add: keeps_def)

lemma collect_keeps: "layer_inv st \<Longrightarrow> keeps st (collect st)"
  unfolding collect_def
  by (metis collect_queues_id collect_devices_keeps collect_physical_devices_keeps collect_instances_keeps keeps_trans keeps_inv)

section \<open>Operations keep the invariant\<close>

lemma doms_Cons [simp]: "doms (x # m) = insert (fst x) (doms m)"
  by (simp add: doms_def)

lemma subset_insert_trans: "A \<subseteq> insert v B \<Longrightarrow> B \<subseteq> C \<Longrightarrow> v \<in> C \<Longrightarrow> A \<subseteq> C"
  by blast

lemma keeps_call:
  "layer_inv st \<Longrightarrow> (\<And>x y. c \<noteq> DestroyCommandPool x y) \<Longrightarrow> keeps st (add_call c st)"
  by (auto simp: add_call_def keeps_def layer_inv_def no_dangling_def same_workers_def)

lemma keeps_remove:
  assumes "layer_inv st" and "refs is \<subseteq> refs (instances st)" and "refs ps \<subseteq> refs (physical_devices st)"
    and "refs ds \<subseteq> refs (devices st)"
  shows "keeps st (st\<lparr>instances := is, physical_devices := ps, devices := ds\<rparr>)"
  using assms by (auto simp: keeps_def layer_inv_def no_dangling_def same_workers_def)

lemma keeps_add_instance:
  assumes "layer_inv st" and "i_physical_devices ctx = []"
  shows "keeps st (add_instance k ctx st)"
proof -
  have "refs (reg_insert k (next_addr st) (instances st)) \<subseteq> insert (next_addr st) (doms (i_heap st))"
    using refs_insert [of k "next_addr st" "instances st"] assms(1) by (auto simp: layer_inv_def no_dangling_def)
  then show ?thesis
    using assms by (auto simp: add_instance_def keeps_def layer_inv_def no_dangling_def same_workers_def refs_def [of "[]"] less_SucI)
qed

lemma keeps_add_physical_device:
  assumes "layer_inv st" and "p_instance ctx \<in> doms (i_heap st)"
  shows "keeps st (add_physical_device k ctx st)"
proof -
  have "refs (reg_insert k (next_addr st) (physical_devices st)) \<subseteq> insert (next_addr st) (doms (p_heap st))"
    using refs_insert [of k "next_addr st" "physical_devices st"] assms(1) by (auto simp: layer_inv_def no_dangling_def)
  then show ?thesis
    using assms by (auto simp: add_physical_device_def keeps_def layer_inv_def no_dangling_def same_workers_def less_SucI)
qed

lemma keeps_add_device:
  assumes "layer_inv st" and "d_instance ctx \<in> doms (i_heap st)" and "d_physical_device ctx \<in> doms (p_heap st)"
    and "d_queues ctx = []"
  shows "keeps st (add_device k ctx st)"
proof -
  let ?n = "next_addr st"
  have r: "refs (reg_insert k ?n (devices st)) \<subseteq> insert ?n (doms (d_heap st))"
    using refs_insert [of k ?n "devices st"] assms(1) by (auto simp: layer_inv_def no_dangling_def)
  have "map_of (d_heap st) ?n = None"
    using assms(1) doms_map_of map_of_doms [of "d_heap st" ?n] by (fastforce simp: layer_inv_def)
  then have l: "map_of ((?n, ctx) # d_heap st) a = Some d" if "map_of (d_heap st) a = Some d" for a d
    using that by auto
  have "?n \<notin> fst ` set (d_heap st)"
    using assms(1) by (auto simp: layer_inv_def doms_def)
  then show ?thesis
    using assms r l by (auto simp: add_device_def keeps_def layer_inv_def no_dangling_def same_workers_def refs_def [of "[]"] less_SucI)
qed

lemma keeps_set_instance:
  assumes inv: "layer_inv st" and p: "p \<in> doms (p_heap st)"
  shows "keeps st (set_instance a (\<lambda>i. i\<lparr>i_physical_devices := reg_insert k p (i_physical_devices i)\<rparr>) st)"
proof -
  have "refs (reg_insert k p x) \<subseteq> doms (p_heap st)" if "refs x \<subseteq> doms (p_heap st)" for x
    using refs_insert [of k p x] that p by blast
  then have "\<forall>x\<in>set (update_at a (\<lambda>i. i\<lparr>i_physical_devices := reg_insert k p (i_physical_devices i)\<rparr>) (i_heap st)).
      refs (i_physical_devices (snd x)) \<subseteq> doms (p_heap st)"
    using inv by (intro ball_update_at) (simp_all add: layer_inv_def no_dangling_def)
  then show ?thesis
    using inv by (auto simp: keeps_def layer_inv_def no_dangling_def same_workers_def set_instance_def)
qed

lemma keeps_set_device:
  assumes inv: "layer_inv st"
    and f: "\<And>d. same_workers d (f d) \<and> d_instance (f d) = d_instance d \<and> d_physical_device (f d) = d_physical_device d"
    and q: "\<And>d. refs (d_queues d) \<subseteq> doms (q_heap st) \<Longrightarrow> refs (d_queues (f d)) \<subseteq> doms (q_heap st)"
  shows "keeps st (set_device a f st)"
proof -
  have d: "\<exists>d'. map_of (update_at a f (d_heap st)) b = Some d' \<and> same_workers d d'"
    if "map_of (d_heap st) b = Some d" for b d
    using that f [of d] by (cases "b = a") (auto simp: same_workers_def map_of_update_at)
  have "\<forall>x\<in>set (update_at a f (d_heap st)). d_instance (snd x) \<in> doms (i_heap st)
      \<and> d_physical_device (snd x) \<in> doms (p_heap st) \<and> refs (d_queues (snd x)) \<subseteq> doms (q_heap st)"
    using inv f q by (intro ball_update_at) (simp_all add: layer_inv_def no_dangling_def)
  then show ?thesis
    using inv d by (simp add: keeps_def layer_inv_def no_dangling_def set_device_def)
qed

lemma keeps_add_queue:
  assumes "layer_inv st" and "map_of (queues st) k = None" and "qo_device q \<in> doms (d_heap st)"
  shows "keeps st (add_queue k q st)"
proof -
  let ?n = "next_addr st"
  have k: "\<forall>x\<in>set (queues st). fst x \<noteq> k" using assms(2) by (auto simp: map_of_eq_None_iff)
  then have "refs (reg_insert k ?n (queues st)) = insert ?n (refs (queues st))"
    by (auto simp: refs_def reg_insert_def reg_remove_def filter_id_conv)
  moreover have "a < ?n" if "map_of (queues st) x = Some a" for x a
    using map_of_refs [OF that] assms(1) by (auto simp: layer_inv_def no_dangling_def)
  ultimately show ?thesis
    using assms by (auto simp: add_queue_def keeps_def layer_inv_def no_dangling_def same_workers_def map_of_reg_insert less_SucI)
qed

end
