(* ===== verification/Lifetimes.thy ===== *)
theory Lifetimes
  imports Lifecycle
begin

text \<open>
  What every call of \<open>Lifecycle\<close> keeps, and what follows for every history of calls: which
  contexts outlive their Vulkan object, what a destroyed device's handles still lead to, and
  how creating a device fails.
\<close>

section \<open>Each call\<close>

lemma create_instance_result:
  assumes "create_instance env base exe links drv ci h st = Some (Inr (r, st', h'))"
  shows "st' = st \<or> st' = add_call CreateInstance st
    \<or> (\<exists>inst ctx. i_physical_devices ctx = [] \<and> st' = collect (add_instance inst ctx (add_call CreateInstance st)))"
proof -
  have "i_physical_devices ctx = []" if "instance_ctx_new env base exe info inst fns = Inr ctx" for ctx info inst fns
    using that by (auto simp: instance_ctx_new_def Let_def split: sum.splits)
  then show ?thesis
    using assms by (auto simp: create_instance_def fails_def Let_def split: option.splits prod.splits if_splits sum.splits)
      blast
qed

lemma keeps_step: "keeps s t \<Longrightarrow> (layer_inv t \<Longrightarrow> keeps t u) \<Longrightarrow> keeps s u"
  using keeps_trans keeps_inv by blast

lemma create_instance_keeps:
  assumes "create_instance env base exe links drv ci h st = Some (Inr (r, st', h'))" and inv: "layer_inv st"
  shows "keeps st st'"
proof -
  have call: "keeps st (add_call CreateInstance st)" by (rule keeps_call [OF inv]) simp
  from create_instance_result [OF assms(1)] show ?thesis
  proof (elim disjE exE conjE)
    fix inst and ctx :: instance_ctx
    assume ctx: "i_physical_devices ctx = []" and st': "st' = collect (add_instance inst ctx (add_call CreateInstance st))"
    have "keeps st (add_instance inst ctx (add_call CreateInstance st))"
      using call by (rule keeps_step) (rule keeps_add_instance [OF _ ctx])
    then show ?thesis unfolding st' by (rule keeps_step) (rule collect_keeps)
  qed (use inv call in \<open>simp_all add: keeps_refl\<close>)
qed

lemma destroy_instance_keeps:
  assumes inv: "layer_inv st"
  shows "keeps st (destroy_instance inst st)"
proof (cases "map_of (instances st) inst")
  case None
  then show ?thesis using inv by (simp add: destroy_instance_def keeps_refl)
next
  case (Some a)
  define pds where "pds = (case map_of (i_heap st) a of Some i \<Rightarrow> map fst (i_physical_devices i) | None \<Rightarrow> [])"
  let ?st2 = "st\<lparr>instances := reg_remove inst (instances st), physical_devices := fold reg_remove pds (physical_devices st)\<rparr>"
  have "keeps st (st\<lparr>instances := reg_remove inst (instances st),
      physical_devices := fold reg_remove pds (physical_devices st), devices := devices st\<rparr>)"
    by (rule keeps_remove [OF inv refs_remove refs_fold_remove]) simp
  then have "keeps st ?st2" by simp
  then have "keeps st (collect ?st2)" by (rule keeps_step) (rule collect_keeps)
  then have "keeps st (add_call (DestroyInstance inst) (collect ?st2))"
    by (rule keeps_step) (simp add: keeps_call)
  then show ?thesis using Some by (simp add: destroy_instance_def pds_def [symmetric] Let_def)
qed

lemma register_physical_device_keeps:
  assumes inv: "layer_inv st" and a: "a \<in> doms (i_heap st)"
  shows "keeps st (register_physical_device a x st) \<and> a \<in> doms (i_heap (register_physical_device a x st))"
proof -
  obtain k drv where x: "x = (k, drv)" by (cases x)
  define st1 where "st1 = (case map_of (physical_devices st) k of
      Some _ \<Rightarrow> st
    | None \<Rightarrow> add_physical_device k (physical_device_ctx_new a drv) st)"
  have k1: "keeps st st1"
    using inv a by (auto simp: st1_def keeps_refl physical_device_ctx_new_def intro!: keeps_add_physical_device split: option.splits)
  have h1: "i_heap st1 = i_heap st" by (simp add: st1_def add_physical_device_def split: option.splits)
  have r: "register_physical_device a x st = (case map_of (physical_devices st1) k of
      None \<Rightarrow> st1
    | Some p \<Rightarrow> set_instance a (\<lambda>i. i\<lparr>i_physical_devices := reg_insert k p (i_physical_devices i)\<rparr>) st1)"
    unfolding register_physical_device_def x st1_def Let_def fst_conv snd_conv by (rule refl)
  show ?thesis
  proof (cases "map_of (physical_devices st1) k")
    case None
    then show ?thesis using r k1 h1 a by simp
  next
    case (Some p)
    then have "p \<in> doms (p_heap st1)"
      using keeps_inv [OF k1] map_of_refs [OF Some] by (auto simp: layer_inv_def no_dangling_def)
    then have "keeps st (set_instance a (\<lambda>i. i\<lparr>i_physical_devices := reg_insert k p (i_physical_devices i)\<rparr>) st1)"
      using keeps_step [OF k1] keeps_set_instance by blast
    then show ?thesis using r Some h1 a by (simp add: set_instance_def)
  qed
qed

lemma register_all_keeps:
  assumes "layer_inv st" and "a \<in> doms (i_heap st)"
  shows "keeps st (fold (register_physical_device a) xs st)"
  using assms
proof (induction xs arbitrary: st)
  case Nil
  then show ?case by (simp add: keeps_refl)
next
  case (Cons x xs)
  note 1 = register_physical_device_keeps [OF Cons.prems, of x]
  then have "keeps (register_physical_device a x st) (fold (register_physical_device a) xs (register_physical_device a x st))"
    using Cons.IH keeps_inv by blast
  then show ?case using 1 keeps_trans by simp blast
qed

lemma enumerate_keeps:
  assumes inv: "layer_inv st"
  shows "keeps st (snd (enumerate_physical_devices inst w r written st))"
proof (cases "map_of (instances st) inst")
  case (Some a)
  then have "a \<in> doms (i_heap st)"
    using inv map_of_refs [OF Some] by (auto simp: layer_inv_def no_dangling_def)
  then have "keeps st (collect (fold (register_physical_device a) written st))"
    using keeps_step [OF register_all_keeps [OF inv] collect_keeps] by blast
  then show ?thesis using Some inv by (simp add: enumerate_physical_devices_def keeps_refl)
qed (use inv in \<open>simp add: enumerate_physical_devices_def keeps_refl\<close>)

lemma device_ctx_new_fields [simp]:
  "d_instance (device_ctx_new calib i pa pd k fns en) = p_instance pd"
  "d_physical_device (device_ctx_new calib i pa pd k fns en) = pa"
  "d_queues (device_ctx_new calib i pa pd k fns en) = []"
  by (simp_all add: device_ctx_new_def Let_def)

lemma create_device_result:
  assumes "create_device links drv box p ci h st = Some (Inr (r, st', h'))"
  shows "st' = st \<or> (\<exists>q x e. st' = add_call (CreateDevice q x e) st)
    \<or> (\<exists>q x e k ctx pd. map_of (p_heap st) (d_physical_device ctx) = Some pd \<and> d_instance ctx = p_instance pd
        \<and> d_queues ctx = [] \<and> st' = collect (add_device k ctx (add_call (CreateDevice q x e) st)))"
  using assms unfolding create_device_def fails_def Let_def
  by (simp split: option.split_asm prod.split_asm if_split_asm sum.split_asm) (metis device_ctx_new_fields)+

text \<open>The context of a successful request.\<close>

definition requested_ctx ::
  "device_driver \<Rightarrow> instance_ctx \<Rightarrow> nat \<Rightarrow> physical_device_ctx \<Rightarrow> nat \<Rightarrow> device_table \<Rightarrow> device_request \<Rightarrow> device_ctx" where
  "requested_ctx drv i pa pd k fns rq = device_ctx_new (first_calibration drv) i pa pd k fns (rq_layer_enabled rq)"

lemma create_device_cases:
  assumes "create_device links drv box p ci h st = Some (Inr (r, st', h'))"
  shows "r = ERROR_INITIALIZATION_FAILED \<and> st' = st \<and> h' = h
    \<or> (\<exists>x e h3 k. r \<noteq> SUCCESS \<and> create_device_next drv x h3 e = (r, k) \<and> st' = add_call (CreateDevice p x e) st)
    \<or> (\<exists>x h3 k fns i pa pd cfg exts head names rq. r = SUCCESS \<and> map_of (p_heap st) pa = Some pd
        \<and> device_request_of cfg exts names = Some rq \<and> ci = Some (head, Some names)
        \<and> create_device_next drv x h3 (rq_extensions rq) = (SUCCESS, k)
        \<and> st' = collect (add_device k (requested_ctx drv i pa pd k fns rq) (add_call (CreateDevice p x (rq_extensions rq)) st)))"
  using assms unfolding create_device_def fails_def Let_def requested_ctx_def [symmetric]
  by (simp split: option.split_asm prod.split_asm if_split_asm sum.split_asm) blast+

lemma create_device_keeps:
  assumes "create_device links drv box p ci h st = Some (Inr (r, st', h'))" and inv: "layer_inv st"
  shows "keeps st st'"
proof -
  have call: "keeps st (add_call (CreateDevice q x e) st)" for q x e
    by (rule keeps_call [OF inv]) simp
  from create_device_result [OF assms(1)] show ?thesis
  proof (elim disjE exE conjE)
    fix q x e k ctx and pd :: physical_device_ctx
    let ?st1 = "add_call (CreateDevice q x e) st"
    assume pd: "map_of (p_heap st) (d_physical_device ctx) = Some pd" and i: "d_instance ctx = p_instance pd"
      and none: "d_queues ctx = []" and st': "st' = collect (add_device k ctx ?st1)"
    have d: "d_instance ctx \<in> doms (i_heap ?st1)" "d_physical_device ctx \<in> doms (p_heap ?st1)"
      using map_of_doms [OF pd] map_of_SomeD [OF pd] inv i by (auto simp: layer_inv_def no_dangling_def add_call_def)
    have "keeps st (add_device k ctx ?st1)"
      using call by (rule keeps_step) (rule keeps_add_device [OF _ d none])
    then show ?thesis unfolding st' by (rule keeps_step) (rule collect_keeps)
  qed (use inv call in \<open>simp_all add: keeps_refl\<close>)
qed

text \<open>
  Clearing the device's own references drops no queue: each is in the registry too. The
  loop of \<open>vkDestroyDevice\<close> over the cleared map removes none of them from there.
\<close>

lemma drain_keeps:
  assumes inv: "layer_inv st"
  shows "keeps st (drain_for_destroy a st) \<and> queues (drain_for_destroy a st) = queues st
    \<and> (\<forall>d. map_of (d_heap (drain_for_destroy a st)) a = Some d \<longrightarrow> d_queues d = [])
    \<and> calls (drain_for_destroy a st) = calls st @ [DeviceWaitIdle (device_handle_of st a)]"
proof -
  let ?st1 = "add_call (DeviceWaitIdle (device_handle_of st a)) st"
  let ?st2 = "set_device a (\<lambda>d. d\<lparr>d_queues := []\<rparr>) ?st1"
  have 1: "keeps st ?st1" by (rule keeps_call [OF inv]) simp
  then have "keeps ?st1 ?st2"
    by (intro keeps_set_device keeps_inv [OF 1]) (auto simp: same_workers_def refs_def)
  then have 2: "keeps st ?st2" using 1 keeps_trans by blast
  then have "drain_for_destroy a st = ?st2"
    by (simp add: drain_for_destroy_def collect_queues_id keeps_inv)
  then show ?thesis using 2 by (auto simp: set_device_def map_of_update_at add_call_def)
qed

lemma queues_self: "queues s = q \<Longrightarrow> s\<lparr>queues := q\<rparr> = s"
  by auto

lemma drain_id:
  assumes inv: "layer_inv st"
  shows "collect_queues (set_device a (\<lambda>d. d\<lparr>d_queues := []\<rparr>) (add_call (DeviceWaitIdle x) st))
    = set_device a (\<lambda>d. d\<lparr>d_queues := []\<rparr>) (add_call (DeviceWaitIdle x) st)"
proof -
  have 1: "keeps st (add_call (DeviceWaitIdle x) st)" by (rule keeps_call [OF inv]) simp
  have "keeps (add_call (DeviceWaitIdle x) st) (set_device a (\<lambda>d. d\<lparr>d_queues := []\<rparr>) (add_call (DeviceWaitIdle x) st))"
    by (intro keeps_set_device keeps_inv [OF 1]) (auto simp: same_workers_def refs_def)
  then show ?thesis by (rule collect_queues_id [OF keeps_inv])
qed

lemma destroy_device_eq:
  assumes inv: "layer_inv st" and a: "map_of (devices st) device = Some a"
  shows "destroy_device device st =
    (let st1 = collect (drain_for_destroy a (st\<lparr>devices := reg_remove device (devices st)\<rparr>))
     in add_call (DestroyDevice device) st1)
    \<and> layer_inv (st\<lparr>devices := reg_remove device (devices st)\<rparr>)
    \<and> keeps st (drain_for_destroy a (st\<lparr>devices := reg_remove device (devices st)\<rparr>))"
proof -
  let ?st0 = "st\<lparr>devices := reg_remove device (devices st)\<rparr>"
  have "keeps st (st\<lparr>instances := instances st, physical_devices := physical_devices st, devices := reg_remove device (devices st)\<rparr>)"
    by (rule keeps_remove [OF inv _ _ refs_remove]) simp_all
  then have 0: "keeps st ?st0" by simp
  note dr = drain_keeps [OF keeps_inv [OF 0], of a]
  have "(case map_of (d_heap (drain_for_destroy a ?st0)) a of Some d \<Rightarrow> map fst (d_queues d) | None \<Rightarrow> []) = []"
    using dr by (auto split: option.splits)
  then have "destroy_device device st = (let st1 = collect (drain_for_destroy a ?st0)
     in add_call (DestroyDevice device) st1)"
    using a by (simp add: destroy_device_def Let_def queues_self [OF refl])
  then show ?thesis using dr keeps_trans [OF 0] keeps_inv [OF 0] by blast
qed

lemma destroy_device_keeps:
  assumes inv: "layer_inv st"
  shows "keeps st (destroy_device device st)"
proof (cases "map_of (devices st) device")
  case None
  then show ?thesis using inv by (simp add: destroy_device_def keeps_refl)
next
  case (Some a)
  note eq = destroy_device_eq [OF inv Some]
  let ?st1 = "collect (drain_for_destroy a (st\<lparr>devices := reg_remove device (devices st)\<rparr>))"
  have "keeps st ?st1" using keeps_step eq collect_keeps by blast
  then have "keeps st (add_call (DestroyDevice device) ?st1)"
    by (rule keeps_step) (simp add: keeps_call)
  then show ?thesis using eq by (simp add: Let_def)
qed

lemma register_queue_keeps:
  assumes inv: "layer_inv st"
  shows "keeps st (register_queue a queue family ans st)"
proof (cases "\<exists>d pd i q. map_of (queues st) queue = None \<and> map_of (d_heap st) a = Some d
    \<and> map_of (p_heap st) (d_physical_device d) = Some pd \<and> map_of (i_heap st) (d_instance d) = Some i
    \<and> queue_obj_new (i_config i) a d (p_families pd) family ans = Some q")
  case True
  then obtain d pd i q where fresh: "map_of (queues st) queue = None" and d: "map_of (d_heap st) a = Some d"
    and pd: "map_of (p_heap st) (d_physical_device d) = Some pd" and i: "map_of (i_heap st) (d_instance d) = Some i"
    and q: "queue_obj_new (i_config i) a d (p_families pd) family ans = Some q" by blast
  let ?st1 = "add_call (CreateCommandPool (d_handle d) (snd ans)) st"
  let ?st2 = "add_queue queue q ?st1"
  let ?f = "\<lambda>d. d\<lparr>d_queues := reg_insert queue (next_addr ?st1) (d_queues d)\<rparr>"
  have fam: "family < length (p_families pd)" and qa: "qo_device q = a"
    using q by (auto simp: queue_obj_new_def split: if_splits prod.splits)
  have 1: "keeps st ?st1" by (rule keeps_call [OF inv]) simp
  then have 2: "keeps st ?st2"
    using map_of_doms [OF d] fresh qa by (intro keeps_step [OF 1] keeps_add_queue) (simp_all add: add_call_def)
  have "refs (d_queues (?f c)) \<subseteq> doms (q_heap ?st2)" if "refs (d_queues c) \<subseteq> doms (q_heap ?st2)" for c
    using that refs_insert [of queue "next_addr st" "d_queues c"] by (auto simp: add_queue_def add_call_def)
  then have "keeps st (set_device a ?f ?st2)"
    by (intro keeps_step [OF 2] keeps_set_device) (simp_all add: same_workers_def)
  then show ?thesis using fresh d pd i q fam by (simp add: register_queue_def Let_def)
next
  case False
  then have "register_queue a queue family ans st = st
      \<or> (\<exists>h cp. register_queue a queue family ans st = add_call (CreateCommandPool h cp) st)"
    by (auto simp: register_queue_def Let_def split: option.splits)
  then show ?thesis using inv by (auto simp: keeps_refl intro!: keeps_call)
qed

lemma layer_step_keeps: "layer_step s t \<Longrightarrow> layer_inv s \<Longrightarrow> keeps s t"
proof (induction rule: layer_step.induct)
  case (queue_got device family queue pool_answer st)
  then show ?case
    by (simp add: get_device_queue_def keeps_refl register_queue_keeps split: option.split)
next
  case (queue_got2 device family queue pool_answer st)
  then show ?case
    by (simp add: get_device_queue2_def keeps_refl register_queue_keeps split: option.split)
qed (auto intro: create_instance_keeps destroy_instance_keeps enumerate_keeps create_device_keeps destroy_device_keeps)

interpretation lk: kept_relation layer_step layer_inv keeps
  by unfold_locales (auto intro: keeps_refl keeps_trans keeps_inv layer_step_keeps)

lemma layer_start_inv: "layer_inv layer_start"
  by (simp add: layer_inv_def no_dangling_def layer_start_def refs_def doms_def)

lemma reachable_inv: "reachable s \<Longrightarrow> layer_inv s"
  unfolding reachable_def using lk.steps_inv [OF _ layer_start_inv] by blast

lemma reachable_step: "reachable s \<Longrightarrow> layer_step s t \<Longrightarrow> reachable t"
  unfolding reachable_def by (rule rtranclp.rtrancl_into_rtrancl)

section \<open>An example history\<close>

text \<open>
  An application creates instance 50 and, with the extension of the layer, device 70 on
  physical device 60, and gets queue 80 of family 0.
\<close>

definition example_links :: "nat \<rightharpoonup> layer_link" where
  "example_links = [9 \<mapsto> \<lparr>link_next = 0, link_gipa = True, link_gdpa = True\<rparr>]"

definition example_chain_store :: store where
  "example_chain_store =
     [4 \<mapsto> \<lparr>s_type = LOADER_INSTANCE_CREATE_INFO, p_next = 0, flags = (\<lambda>f. False), layer_function = 0, p_layer_info = 9\<rparr>,
      2 \<mapsto> \<lparr>s_type = LOADER_DEVICE_CREATE_INFO, p_next = 0, flags = (\<lambda>f. False), layer_function = 0, p_layer_info = 9\<rparr>]"

definition resolve_all :: "string \<Rightarrow> nat option" where
  "resolve_all n = Some (length n)"

definition example_env :: environ where
  "example_env = \<lparr>env_var = (\<lambda>_. None), env_os = (\<lambda>_. None), read_file = (\<lambda>_. NotFound)\<rparr>"

definition example_pd :: pd_driver where
  "example_pd = \<lparr>pdd_properties = \<lparr>vendor_id = 0x1002, dp_device_id = 7, dp_device_name = [], timestamp_period = 10\<rparr>,
     pdd_family_count = 1, pdd_family_fill = (\<lambda>n. (1, [\<lparr>timestamp_valid_bits = 64, graphics = True\<rparr>])),
     pdd_extensions = example_driver\<rparr>"

lemma example_instance:
  "\<exists>s ctx. reachable s \<and> i_config ctx = example_config
     \<and> s = \<lparr>instances = [(50, 1)], physical_devices = [], devices = [], queues = [], i_heap = [(1, ctx)], p_heap = [],
          d_heap = [], q_heap = [], next_addr = 2, calls = [CreateInstance]\<rparr> \<and> i_physical_devices ctx = []"
proof -
  let ?drv = "\<lparr>create_instance_next = (SUCCESS, 50), next_instance_functions = resolve_all\<rparr>"
  obtain fns where fns: "instance_table_load resolve_all = Inr fns"
    by (simp add: instance_table_load_def require_def resolve_all_def)
  define ctx where "ctx = \<lparr>i_handle = 50, i_fns = fns, i_config = example_config, i_decoupled = is_known_decoupled None example_config,
      i_api_version = API_VERSION_1_3, i_physical_devices = []\<rparr>"
  have ctx: "instance_ctx_new env example_config None (Some \<lparr>ai_name = None, ai_api_version = API_VERSION_1_3\<rparr>) 50 fns = Inr ctx" for env
    by (simp add: instance_ctx_new_def read_app_info_def finalize_for_app_def ctx_def)
  have link: "find_instance_link example_chain_store 4 = Some (Some 4)"
    by (simp add: find_instance_link_def find_link.simps example_chain_store_def)
  obtain h' where h': "take_link example_links link_gipa (find_instance_link example_chain_store 4) example_chain_store = Some (Some h')"
    unfolding link by (simp add: take_link_def example_links_def example_chain_store_def)
  have "create_instance example_env example_config None example_links ?drv
      (Some (4, Some \<lparr>ai_name = None, ai_api_version = API_VERSION_1_3\<rparr>)) example_chain_store layer_start
      = Some (Inr (SUCCESS, collect (add_instance 50 ctx (add_call CreateInstance layer_start)), h'))"
    by (simp add: create_instance_def h' fns ctx)
  then have "reachable (collect (add_instance 50 ctx (add_call CreateInstance layer_start)))"
    unfolding reachable_def using instance_created by blast
  moreover have "collect (add_instance 50 ctx (add_call CreateInstance layer_start)) =
      \<lparr>instances = [(50, 1)], physical_devices = [], devices = [], queues = [], i_heap = [(1, ctx)], p_heap = [],
          d_heap = [], q_heap = [], next_addr = 2, calls = [CreateInstance]\<rparr>"
    by (simp add: collect_def collect_queues_def collect_devices_def collect_physical_devices_def collect_instances_def
        add_instance_def add_call_def layer_start_def reg_insert_def reg_remove_def i_owned_def)
  ultimately show ?thesis by (intro exI [of _ ctx] exI) (auto simp: ctx_def)
qed

lemma example_physical_device:
  "\<exists>s ctx. reachable s \<and> i_config ctx = example_config
     \<and> s = \<lparr>instances = [(50, 1)], physical_devices = [(60, 2)], devices = [], queues = [],
          i_heap = [(1, ctx)], p_heap = [(2, physical_device_ctx_new 1 example_pd)],
          d_heap = [], q_heap = [], next_addr = 3, calls = [CreateInstance]\<rparr>"
proof -
  obtain s and ctx :: instance_ctx where r: "reachable s" and c: "i_config ctx = example_config" "i_physical_devices ctx = []"
    and s: "s = \<lparr>instances = [(50, 1)], physical_devices = [], devices = [], queues = [], i_heap = [(1, ctx)], p_heap = [],
          d_heap = [], q_heap = [], next_addr = 2, calls = [CreateInstance]\<rparr>"
    using example_instance by blast
  let ?ctx = "ctx\<lparr>i_physical_devices := [(60, 2)]\<rparr>"
  have "snd (enumerate_physical_devices 50 True SUCCESS [(60, example_pd)] s) =
      \<lparr>instances = [(50, 1)], physical_devices = [(60, 2)], devices = [], queues = [],
          i_heap = [(1, ?ctx)], p_heap = [(2, physical_device_ctx_new 1 example_pd)],
          d_heap = [], q_heap = [], next_addr = 3, calls = [CreateInstance]\<rparr>"
    by (simp add: enumerate_physical_devices_def s register_physical_device_def add_physical_device_def set_instance_def update_at_def
        collect_def collect_queues_def collect_devices_def collect_physical_devices_def collect_instances_def
        reg_insert_def reg_remove_def i_owned_def p_owned_def c)
  moreover have "reachable (snd (enumerate_physical_devices 50 True SUCCESS [(60, example_pd)] s))"
    using r enumerated by (rule reachable_step)
  ultimately show ?thesis by (intro exI [of _ ?ctx] exI) (auto simp: c)
qed

definition example_device_driver :: device_driver where
  "example_device_driver = \<lparr>create_device_next = (\<lambda>_ _ _. (SUCCESS, 70)), next_device_functions = resolve_all,
     first_calibration = (SUCCESS, 1, 1)\<rparr>"

lemma example_create_device:
  "\<exists>s ctx fns c h'. reachable s \<and> i_config ctx = example_config
     \<and> s = \<lparr>instances = [(50, 1)], physical_devices = [(60, 2)], devices = [], queues = [],
          i_heap = [(1, ctx)], p_heap = [(2, physical_device_ctx_new 1 example_pd)],
          d_heap = [], q_heap = [], next_addr = 3, calls = [CreateInstance]\<rparr>
     \<and> create_device example_links example_device_driver (\<lambda>_. 5) 60 (Some (2, Some [''VK_NV_low_latency2''])) example_chain_store s
       = Some (Inr (SUCCESS, collect (add_device 70
           (device_ctx_new (SUCCESS, 1, 1) ctx 2 (physical_device_ctx_new 1 example_pd) 70 fns True) (add_call c s)), h'))"
proof -
  obtain s and ctx :: instance_ctx where r: "reachable s" and c: "i_config ctx = example_config"
    and s: "s = \<lparr>instances = [(50, 1)], physical_devices = [(60, 2)], devices = [], queues = [],
          i_heap = [(1, ctx)], p_heap = [(2, physical_device_ctx_new 1 example_pd)],
          d_heap = [], q_heap = [], next_addr = 3, calls = [CreateInstance]\<rparr>"
    using example_physical_device by blast
  let ?names = "[''VK_NV_low_latency2'']"
  obtain fns where fns: "device_table_load resolve_all = Inr fns"
    by (simp add: device_table_load_def require_def resolve_all_def)
  obtain rq where rq: "device_request_of example_config (pd_extensions_new example_driver) ?names = Some rq" "rq_layer_enabled rq"
    by (auto simp: device_request_of_def pd_extensions_new_def example_available watched_ext_def example_config_def
        REQUIRED_EXTENSIONS_def Let_def)
  have link: "find_device_link example_chain_store 2 = Some (Some 2)"
    by (simp add: find_device_link_def find_link.simps example_chain_store_def)
  obtain h1 n where h1: "take_link example_links (\<lambda>l. link_gipa l \<and> link_gdpa l) (find_device_link example_chain_store 2) example_chain_store = Some (Some h1)"
      and n: "h1 2 = Some n" "p_next n = 0"
    unfolding link by (simp add: take_link_def example_links_def example_chain_store_def)
  have ch: "chain h1 2 [2]" using n by simp
  obtain h2 ap where pf: "patch_features \<lparr>v_1_2 = supports_1_2 ctx, v_1_3 = supports_1_3 ctx,
      enable_present_id = rq_present_id rq, enable_present_wait = rq_present_wait rq\<rparr> 2 h1 = Some (h2, ap)"
    using patch_features_ok [OF ch] by blast
  obtain hd' h3 where rl: "relink_into ap (\<lambda>_. 5) (2, h2) = (hd', h3)" by fastforce
  let ?d = "device_ctx_new (SUCCESS, 1, 1) ctx 2 (physical_device_ctx_new 1 example_pd) 70 fns True"
  have "create_device example_links example_device_driver (\<lambda>_. 5) 60 (Some (2, Some ?names)) example_chain_store s
      = Some (Inr (SUCCESS, collect (add_device 70 ?d (add_call (CreateDevice 60 hd' (rq_extensions rq)) s)), h2))"
    using rq h1 pf rl fns c
    by (simp add: create_device_def example_device_driver_def s physical_device_ctx_new_def example_pd_def)
  then show ?thesis using r c s by blast
qed

lemma example_device:
  "\<exists>s ctx d. reachable s \<and> i_config ctx = example_config \<and> d_layer_enabled d \<and> d_strategy d = Some LowLatency2D
     \<and> d_instance d = 1 \<and> d_physical_device d = 2 \<and> d_handle d = 70
     \<and> map_of (instances s) 50 = Some 1 \<and> map_of (devices s) 70 = Some 3 \<and> queues s = [] \<and> map_of (d_heap s) 3 = Some d
     \<and> map_of (p_heap s) 2 = Some (physical_device_ctx_new 1 example_pd) \<and> map_of (i_heap s) 1 = Some ctx"
proof -
  let ?pd = "physical_device_ctx_new 1 example_pd"
  obtain s and ctx :: instance_ctx and fns cl h' where r: "reachable s" and c: "i_config ctx = example_config"
    and s: "s = \<lparr>instances = [(50, 1)], physical_devices = [(60, 2)], devices = [], queues = [],
          i_heap = [(1, ctx)], p_heap = [(2, ?pd)],
          d_heap = [], q_heap = [], next_addr = 3, calls = [CreateInstance]\<rparr>"
    and run: "create_device example_links example_device_driver (\<lambda>_. 5) 60 (Some (2, Some [''VK_NV_low_latency2''])) example_chain_store s
       = Some (Inr (SUCCESS, collect (add_device 70 (device_ctx_new (SUCCESS, 1, 1) ctx 2 ?pd 70 fns True) (add_call cl s)), h'))"
    using example_create_device by (elim exE conjE) (rule that)
  let ?d = "device_ctx_new (SUCCESS, 1, 1) ctx 2 ?pd 70 fns True"
  have "reachable (collect (add_device 70 ?d (add_call cl s)))"
    using reachable_step [OF r] device_created [OF run] by blast
  moreover have "collect (add_device 70 ?d (add_call cl s)) =
      s\<lparr>devices := [(70, 3)], d_heap := [(3, ?d)], next_addr := 4, calls := [CreateInstance, cl]\<rparr>"
    by (simp add: collect_def collect_queues_def collect_devices_def collect_physical_devices_def collect_instances_def
        add_device_def add_call_def s reg_insert_def reg_remove_def i_owned_def p_owned_def d_owned_def)
  moreover have "d_layer_enabled ?d \<and> d_strategy ?d = Some LowLatency2D \<and> d_instance ?d = 1 \<and> d_physical_device ?d = 2 \<and> d_handle ?d = 70"
    using c by (simp add: device_ctx_new_def make_device_strategy_def example_config_def physical_device_ctx_new_def Let_def)
  ultimately show ?thesis using c s by (intro exI [of _ ctx] exI [of _ ?d] exI) auto
qed

lemma example_handles:
  "\<exists>s :: layer. map_of (instances s) 50 = Some 1 \<and> map_of (physical_devices s) 61 = None"
proof -
  obtain s and ctx :: instance_ctx where s: "s = \<lparr>instances = [(50, 1)], physical_devices = [(60, 2)], devices = [], queues = [],
          i_heap = [(1, ctx)], p_heap = [(2, physical_device_ctx_new 1 example_pd)],
          d_heap = [], q_heap = [], next_addr = 3, calls = [CreateInstance]\<rparr>"
    using example_physical_device by blast
  then show ?thesis by (intro exI [of _ s]) simp
qed

lemma register_queue_skips: "map_of (queues t) k = Some a \<Longrightarrow> register_queue b k family ans t = t"
  by (simp add: register_queue_def)

lemma example_queue:
  "\<exists>s a. reachable s \<and> map_of (devices s) 70 = Some 3 \<and> map_of (queues s) 80 = Some a"
proof -
  obtain s and ctx :: instance_ctx and d :: device_ctx where r: "reachable s"
    and s: "d_instance d = 1" "d_physical_device d = 2" "map_of (devices s) 70 = Some 3" "queues s = []" "map_of (d_heap s) 3 = Some d"
      "map_of (p_heap s) 2 = Some (physical_device_ctx_new 1 example_pd)" "map_of (i_heap s) 1 = Some ctx"
    using example_device by blast
  have fam: "p_families (physical_device_ctx_new 1 example_pd) = [\<lparr>timestamp_valid_bits = 64, graphics = True\<rparr>]"
    by (simp add: physical_device_ctx_new_def query_queue_families_def example_pd_def)
  let ?t = "get_device_queue 70 0 80 (SUCCESS, 90) s"
  have "reachable ?t" using r queue_got by (rule reachable_step)
  moreover have "map_of (devices ?t) 70 = Some 3 \<and> (\<exists>a. map_of (queues ?t) 80 = Some a)"
    using s fam by (simp add: get_device_queue_def register_queue_def queue_obj_new_def add_call_def add_queue_def
        set_device_def Let_def map_of_reg_insert)
  ultimately show ?thesis by blast
qed

lemma device_request_extends:
  "device_request_of cfg pd names = Some rq \<Longrightarrow>
     set names \<subseteq> set (rq_extensions rq) \<and> (rq_layer_enabled rq \<longrightarrow> set REQUIRED_EXTENSIONS \<subseteq> set (rq_extensions rq))"
  by (auto simp: device_request_of_def Let_def push_missing_eq split: if_splits)

section \<open>Properties\<close>



text \<open>
  C19. A queue handle is bound for the life of the process: once \<open>vkGetDeviceQueue\<close> has
  registered it, every later call leaves it on the same context, of the same device context,
  also \<open>vkDestroyDevice\<close>, whose loop runs over a map that was cleared before; a queue of a
  later device with the same handle is not registered, and no command pool of the layer is
  ever destroyed.
\<close>

theorem queue_handle_bound_forever:
  assumes "reachable s" and "rtranclp layer_step s t" and "map_of (queues s) k = Some a"
  shows "map_of (queues t) k = Some a \<and> map_of (q_heap t) a = map_of (q_heap s) a \<and> a \<in> doms (q_heap t)
    \<and> register_queue b k family ans t = t \<and> (\<forall>x y. DestroyCommandPool x y \<notin> set (calls t))"
proof -
  have inv: "layer_inv s" using assms(1) by (rule reachable_inv)
  have st: "keeps s t" by (rule lk.steps_rel [OF assms(2) inv])
  then have q: "map_of (queues t) k = Some a \<and> map_of (q_heap t) a = map_of (q_heap s) a"
    using assms(3) unfolding keeps_def by blast
  then have "a \<in> doms (q_heap t)"
    using keeps_inv [OF st] map_of_refs [of "queues t" k a] by (auto simp: layer_inv_def no_dangling_def)
  moreover have "keeps layer_start t"
    using assms(1,2) lk.steps_rel [OF _ layer_start_inv] unfolding reachable_def by (meson rtranclp_trans)
  then have "DestroyCommandPool x y \<notin> set (calls t)" for x y
    unfolding keeps_def by (auto simp: layer_start_def)
  ultimately show ?thesis using q register_queue_skips by blast
qed

theorem queue_handle_bound_forever_witness:
  "\<exists>s a. map_of (devices s) 70 = Some 3 \<and> map_of (queues (destroy_device 70 s)) 80 = Some a
     \<and> (\<forall>x y. DestroyCommandPool x y \<notin> set (calls (destroy_device 70 s)))"
proof -
  obtain s a where s: "reachable s" "map_of (devices s) 70 = Some 3" "map_of (queues s) 80 = Some a" using example_queue by blast
  have "rtranclp layer_step s (destroy_device 70 s)" using device_destroyed by (rule r_into_rtranclp)
  then show ?thesis using queue_handle_bound_forever [OF s(1) _ s(3)] s(2) by blast
qed

text \<open>
  A device created with the layer enabled is never freed: its strategy holds a reference
  to it, so after \<open>vkDestroyDevice\<close> has called the driver, and for every later call, its
  context is still there, with the same strategy, calibration clock and display worker, which
  hold the destroyed handle.
\<close>

theorem enabled_device_never_freed:
  assumes "reachable s" and "map_of (devices s) device = Some a" and "map_of (d_heap s) a = Some d"
    and "d_strategy d \<noteq> None" and "rtranclp layer_step (destroy_device device s) t"
  shows "last (calls (destroy_device device s)) = DestroyDevice device
    \<and> (\<exists>d'. map_of (d_heap t) a = Some d' \<and> same_workers d d')"
proof -
  have inv: "layer_inv s" using assms(1) by (rule reachable_inv)
  have "keeps s t"
    using keeps_trans destroy_device_keeps [OF inv] lk.steps_rel [OF assms(5)] keeps_inv by blast
  moreover have "last (calls (destroy_device device s)) = DestroyDevice device"
    using destroy_device_eq [OF inv assms(2)] by (simp add: Let_def add_call_def)
  ultimately show ?thesis using assms(3,4) unfolding keeps_def by blast
qed

theorem enabled_device_never_freed_witness:
  "\<exists>s d'. map_of (devices s) 70 = Some 3 \<and> last (calls (destroy_device 70 s)) = DestroyDevice 70
     \<and> map_of (d_heap (destroy_device 70 s)) 3 = Some d' \<and> d_strategy d' = Some LowLatency2D"
proof -
  obtain s and d :: device_ctx where s: "reachable s" "map_of (devices s) 70 = Some 3" "map_of (d_heap s) 3 = Some d"
      "d_strategy d = Some LowLatency2D"
    using example_device by blast
  then show ?thesis
    using enabled_device_never_freed [of s 70 3 d "destroy_device 70 s"] by (auto simp: same_workers_def)
qed

lemma collect_fields [simp]:
  "instances (collect st) = instances st" "physical_devices (collect st) = physical_devices st"
  "devices (collect st) = devices st" "queues (collect st) = queues st" "next_addr (collect st) = next_addr st"
  by (simp_all add: collect_def collect_queues_def collect_devices_def collect_physical_devices_def collect_instances_def)

lemma collect_calls: "layer_inv st \<Longrightarrow> calls (collect st) = calls st"
  by (simp add: collect_def collect_queues_id) (simp add: collect_devices_def collect_physical_devices_def collect_instances_def)

lemma collect_d_heap: "layer_inv st \<Longrightarrow> d_heap (collect st) = filter (\<lambda>x. d_owned st (fst x)) (d_heap st)"
  by (simp add: collect_def collect_queues_id) (simp add: collect_devices_def collect_physical_devices_def collect_instances_def)

lemma bex_update_at:
  "(\<exists>x\<in>set (update_at a f m). fst x = a \<and> P (snd x)) \<longleftrightarrow> (\<exists>x\<in>set m. fst x = a \<and> P (f (snd x)))"
  by (induction m) (auto simp: update_at_def)

text \<open>
  \<open>vkDestroyDevice\<close>: the layer waits for the device, then calls the driver's
  \<open>vkDestroyDevice\<close>, and makes no other call; the handle is forgotten and no other one; the
  context is dropped exactly when the layer was not enabled on it, no queue of it was ever
  registered and no other handle leads to it.
\<close>

theorem destroy_device_calls_and_drop:
  assumes "reachable s" and dev: "map_of (devices s) device = Some a"
    and d: "map_of (d_heap s) a = Some d"
  shows "calls (destroy_device device s) = calls s @ [DeviceWaitIdle (d_handle d), DestroyDevice device]
    \<and> devices (destroy_device device s) = reg_remove device (devices s) \<and> queues (destroy_device device s) = queues s
    \<and> (map_of (d_heap (destroy_device device s)) a = None \<longleftrightarrow>
         d_strategy d = None \<and> (\<forall>x\<in>set (q_heap s). qo_device (snd x) \<noteq> a) \<and> a \<notin> refs (reg_remove device (devices s)))"
proof -
  have inv: "layer_inv s" using assms(1) by (rule reachable_inv)
  let ?s0 = "s\<lparr>devices := reg_remove device (devices s)\<rparr>"
  let ?s1 = "drain_for_destroy a ?s0"
  note eq = destroy_device_eq [OF inv dev]
  have inv0: "layer_inv ?s0" and inv1: "layer_inv ?s1" using eq keeps_inv by blast+
  note dr = drain_keeps [OF inv0, of a]
  have s1: "?s1 = set_device a (\<lambda>d. d\<lparr>d_queues := []\<rparr>) (add_call (DeviceWaitIdle (device_handle_of ?s0 a)) ?s0)"
    unfolding drain_for_destroy_def by (rule drain_id [OF inv0])
  have t: "destroy_device device s = add_call (DestroyDevice device) (collect ?s1)" using eq by (simp add: Let_def)
  have one: "snd x = d" if "x \<in> set (d_heap s)" "fst x = a" for x
    using inv map_of_SomeD [OF d] that eq_key_imp_eq_value [of "d_heap s" a "snd x" d]
    by (cases x) (simp add: layer_inv_def)
  have "list_ex (\<lambda>x. fst x = a \<and> d_strategy (snd x) \<noteq> None) (d_heap ?s1)
      \<longleftrightarrow> (\<exists>x\<in>set (d_heap s). fst x = a \<and> d_strategy (snd x) \<noteq> None)"
    using bex_update_at [of a "d_queues_update (\<lambda>_. [])" "d_heap s" "\<lambda>d. d_strategy d \<noteq> None"]
    by (simp add: s1 set_device_def add_call_def list_ex_iff)
  also have "\<dots> \<longleftrightarrow> d_strategy d \<noteq> None"
    using one map_of_SomeD [OF d] by (metis fst_conv snd_conv)
  finally have "list_ex (\<lambda>x. fst x = a \<and> d_strategy (snd x) \<noteq> None) (d_heap ?s1) \<longleftrightarrow> d_strategy d \<noteq> None" .
  then have own: "d_owned ?s1 a \<longleftrightarrow> a \<in> refs (reg_remove device (devices s))
      \<or> (\<exists>x\<in>set (q_heap s). qo_device (snd x) = a) \<or> d_strategy d \<noteq> None"
    unfolding d_owned_def by (simp add: s1 set_device_def add_call_def refs_def list_ex_iff)
  have "map_of (d_heap ?s1) a \<noteq> None" using d by (simp add: s1 set_device_def add_call_def map_of_update_at)
  then have "map_of (d_heap (collect ?s1)) a = None \<longleftrightarrow> \<not> d_owned ?s1 a"
    by (simp add: collect_d_heap [OF inv1] map_of_filter_keys)
  moreover have "calls (collect ?s1) = calls s @ [DeviceWaitIdle (d_handle d)]"
    using dr d by (simp add: collect_calls [OF inv1] device_handle_of_def)
  moreover have "devices ?s1 = reg_remove device (devices s)" "queues ?s1 = queues s"
    by (simp_all add: s1 set_device_def add_call_def)
  ultimately show ?thesis
    using own by (simp add: t add_call_def) blast
qed

theorem destroy_device_calls_and_drop_witness:
  "\<exists>s. map_of (devices s) 70 = Some 3 \<and> devices (destroy_device 70 s) = reg_remove 70 (devices s)
     \<and> calls (destroy_device 70 s) = calls s @ [DeviceWaitIdle 70, DestroyDevice 70]"
proof -
  obtain s and d :: device_ctx where s: "reachable s" "map_of (devices s) 70 = Some 3" "map_of (d_heap s) 3 = Some d" "d_handle d = 70"
    using example_device by blast
  then show ?thesis using destroy_device_calls_and_drop [OF s(1-3)] by auto
qed

text \<open>The registered device is owned, so it is there when the call ends.\<close>

lemma add_device_owned:
  assumes "layer_inv st" and "map_of (p_heap st) (d_physical_device ctx) = Some pd" and "d_instance ctx = p_instance pd" and "d_queues ctx = []"
  shows "map_of (devices (collect (add_device k ctx (add_call c st)))) k = Some (next_addr st)
    \<and> map_of (d_heap (collect (add_device k ctx (add_call c st)))) (next_addr st) = Some ctx
    \<and> ((\<forall>x y. c \<noteq> DestroyCommandPool x y) \<longrightarrow> calls (collect (add_device k ctx (add_call c st))) = calls st @ [c])"
proof -
  let ?st = "add_device k ctx (add_call c st)"
  have "collect_queues ?st = ?st"
  proof -
    have "q_owned ?st (fst x)" if "x \<in> set (q_heap st)" for x
      using that assms(1) by (auto simp: layer_inv_def doms_def refs_def q_owned_def add_device_def add_call_def)
    then have "filter (\<lambda>x. q_owned ?st (fst x)) (q_heap st) = q_heap st" "filter (\<lambda>x. \<not> q_owned ?st (fst x)) (q_heap st) = []"
      by (auto simp: filter_id_conv filter_empty_conv)
    then show ?thesis by (simp add: collect_queues_def) (simp add: add_device_def add_call_def)
  qed
  then have c: "d_heap (collect ?st) = filter (\<lambda>x. d_owned ?st (fst x)) (d_heap ?st)" "calls (collect ?st) = calls st @ [c]"
    by (simp_all add: collect_def collect_devices_def collect_physical_devices_def collect_instances_def)
      (simp add: add_device_def add_call_def)
  have "d_owned ?st (next_addr st)"
    by (simp add: d_owned_def add_device_def add_call_def reg_insert_def)
  then show ?thesis
    using c by (simp add: map_of_filter_keys) (simp add: add_device_def add_call_def map_of_reg_insert)
qed



text \<open>
  A partial enumeration makes no device usable: when the driver answers
  \<open>VK_INCOMPLETE\<close>, none of the devices it wrote is registered, and creating a device on one
  that was not known before fails with \<open>ERROR_INITIALIZATION_FAILED\<close> without a call to the
  driver; after an answer of \<open>VK_SUCCESS\<close> every device written is registered.
\<close>

theorem incomplete_enumeration_registers_nothing:
  assumes "map_of (instances st) inst = Some a" and "map_of (physical_devices st) pd = None"
  shows "create_device links drv box pd (Some ci) h (snd (enumerate_physical_devices inst True INCOMPLETE written st))
      = Some (Inr (ERROR_INITIALIZATION_FAILED, st, h))
    \<and> (\<forall>x\<in>set written. map_of (physical_devices (snd (enumerate_physical_devices inst True SUCCESS written st))) (fst x) \<noteq> None)"
proof
  show "create_device links drv box pd (Some ci) h (snd (enumerate_physical_devices inst True INCOMPLETE written st))
      = Some (Inr (ERROR_INITIALIZATION_FAILED, st, h))"
    using assms by (simp add: enumerate_physical_devices_def create_device_def fails_def split: prod.split)
  have mono: "map_of (physical_devices s) k \<noteq> None \<Longrightarrow> map_of (physical_devices (register_physical_device a x s)) k \<noteq> None"
    and new: "map_of (physical_devices (register_physical_device a x s)) (fst x) \<noteq> None" for s k x
    by (auto simp: register_physical_device_def add_physical_device_def set_instance_def Let_def map_of_reg_insert split: option.split)
  have keep: "map_of (physical_devices s) k \<noteq> None \<Longrightarrow> map_of (physical_devices (fold (register_physical_device a) xs s)) k \<noteq> None" for s k xs
  proof (induction xs arbitrary: s)
    case (Cons y xs)
    then show ?case using mono by simp
  qed simp
  have "\<forall>x\<in>set xs. map_of (physical_devices (fold (register_physical_device a) xs s)) (fst x) \<noteq> None" for xs s
  proof (induction xs arbitrary: s)
    case (Cons y xs)
    then show ?case using keep [OF new] by (metis (no_types, lifting) fold_simps(2) set_ConsD)
  qed simp
  then show "\<forall>x\<in>set written. map_of (physical_devices (snd (enumerate_physical_devices inst True SUCCESS written st))) (fst x) \<noteq> None"
    using assms by (simp add: enumerate_physical_devices_def)
qed

theorem incomplete_enumeration_registers_nothing_witness:
  "\<exists>s. map_of (physical_devices (snd (enumerate_physical_devices 50 True SUCCESS [(61, example_pd)] s))) 61 \<noteq> None
     \<and> create_device example_links example_device_driver (\<lambda>_. 5) 61 (Some (2, Some [])) example_chain_store
         (snd (enumerate_physical_devices 50 True INCOMPLETE [(61, example_pd)] s))
       = Some (Inr (ERROR_INITIALIZATION_FAILED, s, example_chain_store))"
proof -
  obtain s :: layer where s: "map_of (instances s) 50 = Some 1" "map_of (physical_devices s) 61 = None"
    using example_handles by blast
  show ?thesis
    using incomplete_enumeration_registers_nothing [OF s, of example_links example_device_driver "\<lambda>_. 5" "(2, Some [])" example_chain_store "[(61, example_pd)]"]
    by auto
qed

end
