(* ===== verification/Queries.thy ===== *)
theory Queries
  imports Lifetimes
begin

text \<open>
  The entry points of \<open>src/lib.rs\<close> through which an application asks about a physical device:
  properties (all three variants), features, extensions and surface capabilities. Each looks
  its handle up in the registry, calls the function the next layer has for it and then edits
  the answer. The next layer is a parameter \<open>next_layer\<close>: what the function behind a pointer makes
  of the memory it is given. A result \<open>None\<close> is a call without a value, as in \<open>Lifecycle\<close>.
\<close>

section \<open>Looking up the physical device\<close>

definition physical_device_of :: "layer \<Rightarrow> nat \<Rightarrow> (instance_ctx \<times> physical_device_ctx) option option" where
  "physical_device_of st physical_device =
     (case map_of (physical_devices st) physical_device of
        None \<Rightarrow> Some None
      | Some a \<Rightarrow>
     (case map_of (p_heap st) a of
        None \<Rightarrow> None
      | Some pd \<Rightarrow>
     (case map_of (i_heap st) (p_instance pd) of
        None \<Rightarrow> None
      | Some i \<Rightarrow> Some (Some (i, pd)))))"

text \<open>
  The memory of the application that a query may write: the headers of its chain, and by
  address the flag of a \<open>VkPhysicalDeviceAntiLagFeaturesAMD\<close> and the fields of a
  \<open>VkLatencySurfaceCapabilitiesNV\<close>.
\<close>

record query_memory =
  qm_chain :: store
  qm_anti_lag :: "nat \<Rightarrow> bool"
  qm_latency_caps :: "nat \<Rightarrow> latency_surface_caps"

definition ANTI_LAG_FEATURES_AMD :: stype where "ANTI_LAG_FEATURES_AMD = OTHER_STYPE 1000476000"
definition LATENCY_SURFACE_CAPABILITIES_NV :: stype where "LATENCY_SURFACE_CAPABILITIES_NV = OTHER_STYPE 1000505008"

section \<open>Entry points\<close>

definition vk_get_physical_device_properties ::
  "(nat \<Rightarrow> device_properties \<Rightarrow> device_properties) \<Rightarrow> layer \<Rightarrow> nat \<Rightarrow> device_properties \<Rightarrow> device_properties option" where
  "vk_get_physical_device_properties next_layer st physical_device props =
     (case physical_device_of st physical_device of
        None \<Rightarrow> None
      | Some None \<Rightarrow> Some props
      | Some (Some (i, pd)) \<Rightarrow>
          Some (get_physical_device_properties (i_config i) (next_layer (it_get_physical_device_properties (i_fns i)) props)))"

text \<open>The second variant has the properties inside a larger structure; \<open>khr\<close> selects the slot.\<close>

definition vk_get_physical_device_properties2 ::
  "(nat \<Rightarrow> device_properties \<Rightarrow> device_properties) \<Rightarrow> bool \<Rightarrow> layer \<Rightarrow> nat \<Rightarrow> device_properties \<Rightarrow> device_properties option" where
  "vk_get_physical_device_properties2 next_layer khr st physical_device props =
     (case physical_device_of st physical_device of
        None \<Rightarrow> None
      | Some None \<Rightarrow> Some props
      | Some (Some (i, pd)) \<Rightarrow>
          (case (if khr then it_get_physical_device_properties2_khr (i_fns i) else it_get_physical_device_properties2 (i_fns i)) of
             None \<Rightarrow> Some props
           | Some getp2 \<Rightarrow>
               (let written = next_layer getp2 props
                in Some (if spoof_nvidia (i_config i) then apply_nvidia_spoof_v1 (i_config i) written else written))))"

text \<open>\<open>head\<close> is the \<open>p_next\<close> of the structure the application passes.\<close>

definition vk_get_physical_device_features2 ::
  "(nat \<Rightarrow> query_memory \<Rightarrow> query_memory) \<Rightarrow> bool \<Rightarrow> layer \<Rightarrow> nat \<Rightarrow> nat \<Rightarrow> query_memory \<Rightarrow> query_memory option" where
  "vk_get_physical_device_features2 next_layer khr st physical_device head m =
     (case physical_device_of st physical_device of
        None \<Rightarrow> None
      | Some None \<Rightarrow> Some m
      | Some (Some (i, pd)) \<Rightarrow>
          (case (if khr then it_get_physical_device_features2_khr (i_fns i) else it_get_physical_device_features2 (i_fns i)) of
             None \<Rightarrow> Some m
           | Some getf2 \<Rightarrow>
               (let m1 = next_layer getf2 m in
                if expose_reflex (i_config i) then Some m1
                else
                  (case pnext_find (qm_chain m1) head ANTI_LAG_FEATURES_AMD of
                     None \<Rightarrow> None
                   | Some None \<Rightarrow> Some m1
                   | Some (Some p) \<Rightarrow>
                       Some (m1\<lparr>qm_anti_lag := (qm_anti_lag m1)(p := supports_required_extensions (p_extensions pd))\<rparr>)))))"

text \<open>The hooks of the core functions and of their KHR aliases.\<close>

definition get_physical_device_properties2 where
  "get_physical_device_properties2 next_layer = vk_get_physical_device_properties2 next_layer False"

definition get_physical_device_properties2_khr where
  "get_physical_device_properties2_khr next_layer = vk_get_physical_device_properties2 next_layer True"

definition get_physical_device_features2 where
  "get_physical_device_features2 next_layer = vk_get_physical_device_features2 next_layer False"

definition get_physical_device_features2_khr where
  "get_physical_device_features2_khr next_layer = vk_get_physical_device_features2 next_layer True"

text \<open>
  The variants are strict: a hook whose own slot was not loaded writes nothing, whether the
  other one was loaded or not.
\<close>

lemma variants_are_strict:
  assumes "physical_device_of st pd = Some (Some (i, ctx))"
  shows "it_get_physical_device_properties2 (i_fns i) = None \<Longrightarrow> get_physical_device_properties2 nl st pd props = Some props"
    and "it_get_physical_device_properties2_khr (i_fns i) = None \<Longrightarrow> get_physical_device_properties2_khr nl st pd props = Some props"
    and "it_get_physical_device_features2 (i_fns i) = None \<Longrightarrow> get_physical_device_features2 nf st pd head m = Some m"
    and "it_get_physical_device_features2_khr (i_fns i) = None \<Longrightarrow> get_physical_device_features2_khr nf st pd head m = Some m"
  using assms
  by (simp_all add: get_physical_device_properties2_def get_physical_device_properties2_khr_def
      get_physical_device_features2_def get_physical_device_features2_khr_def
      vk_get_physical_device_properties2_def vk_get_physical_device_features2_def)

definition vk_enumerate_device_extension_properties ::
  "enum_driver \<Rightarrow> enum_answer \<Rightarrow> layer \<Rightarrow> nat \<Rightarrow> string option \<Rightarrow> u32 \<Rightarrow> ext_prop list option \<Rightarrow> enum_answer option" where
  "vk_enumerate_device_extension_properties drv other st physical_device layer_filter n props =
     (case physical_device_of st physical_device of
        None \<Rightarrow> None
      | Some None \<Rightarrow> Some (ERROR_INITIALIZATION_FAILED, n, props)
      | Some (Some (i, pd)) \<Rightarrow>
          Some (enumerate_device_extension_properties (i_config i) drv other layer_filter n props))"

definition vk_get_surface_capabilities2 ::
  "(nat \<Rightarrow> query_memory \<Rightarrow> vk_result \<times> query_memory) \<Rightarrow> layer \<Rightarrow> nat \<Rightarrow> nat \<Rightarrow> query_memory
     \<Rightarrow> (vk_result \<times> query_memory) option" where
  "vk_get_surface_capabilities2 next_layer st physical_device head m =
     (case physical_device_of st physical_device of
        None \<Rightarrow> None
      | Some None \<Rightarrow> Some (ERROR_INITIALIZATION_FAILED, m)
      | Some (Some (i, pd)) \<Rightarrow>
          (case it_get_physical_device_surface_capabilities2_khr (i_fns i) of
             None \<Rightarrow> Some (ERROR_INITIALIZATION_FAILED, m)
           | Some getcaps \<Rightarrow>
               (case next_layer getcaps m of (r, m1) \<Rightarrow>
                  if r \<noteq> SUCCESS \<or> \<not> expose_reflex (i_config i) then Some (r, m1)
                  else
                    (case pnext_find (qm_chain m1) head LATENCY_SURFACE_CAPABILITIES_NV of
                       None \<Rightarrow> None
                     | Some None \<Rightarrow> Some (r, m1)
                     | Some (Some p) \<Rightarrow>
                         Some (r, m1\<lparr>qm_latency_caps := (qm_latency_caps m1)(p := fill_present_modes (qm_latency_caps m1 p))\<rparr>)))))"

section \<open>What the application learns\<close>

lemma physical_device_known:
  assumes "layer_inv st" and "map_of (physical_devices st) physical_device = Some a"
  shows "\<exists>i pd. map_of (p_heap st) a = Some pd \<and> map_of (i_heap st) (p_instance pd) = Some i
    \<and> physical_device_of st physical_device = Some (Some (i, pd))"
proof -
  have nd: "no_dangling st" using assms(1) by (simp add: layer_inv_def)
  have "a \<in> doms (p_heap st)" using nd map_of_refs [OF assms(2)] by (auto simp: no_dangling_def)
  then obtain pd where pd: "map_of (p_heap st) a = Some pd" using doms_map_of by metis
  then have "p_instance pd \<in> doms (i_heap st)" using nd by (force simp: no_dangling_def dest: map_of_SomeD)
  then obtain i where "map_of (i_heap st) (p_instance pd) = Some i" using doms_map_of by metis
  then show ?thesis using pd assms(2) by (simp add: physical_device_of_def)
qed

lemma physical_device_unknown:
  "map_of (physical_devices st) physical_device = None \<Longrightarrow> physical_device_of st physical_device = Some None"
  by (simp add: physical_device_of_def)

text \<open>
  C32. The three properties queries tell the same story: on a device the layer knows, and on a
  driver that writes the same properties through its three functions, each variant that is
  loaded answers alike; with spoofing on that answer is the identity of the configured preset,
  read back by a C program, and without it the driver's own. A variant that is not loaded
  leaves the memory as it was.
\<close>

theorem identity_queries_agree:
  assumes "layer_inv st" and "map_of (physical_devices st) physical_device = Some a"
    and "\<forall>f. next_layer f props = written" and "length (dp_device_name written) = NAME_LEN"
  shows "\<exists>i answer. map_of (i_heap st) (p_instance (the (map_of (p_heap st) a))) = Some i
    \<and> vk_get_physical_device_properties next_layer st physical_device props = Some answer
    \<and> (\<forall>khr. vk_get_physical_device_properties2 next_layer khr st physical_device props =
         Some (if (if khr then it_get_physical_device_properties2_khr (i_fns i) else it_get_physical_device_properties2 (i_fns i)) = None
               then props else answer))
    \<and> (\<not> spoof_nvidia (i_config i) \<longrightarrow> answer = written)
    \<and> (spoof_nvidia (i_config i) \<longrightarrow> spoof_profile (i_config i) \<in> snd ` set NVIDIA_PRESETS \<longrightarrow>
         map of_char (c_string (dp_device_name answer)) = device_name (spoof_profile (i_config i))
         \<and> vendor_id answer = NVIDIA_VENDOR_ID \<and> dp_device_id answer = device_id (spoof_profile (i_config i))
         \<and> timestamp_period answer = timestamp_period written)"
proof -
  obtain i pd where k: "map_of (p_heap st) a = Some pd" "map_of (i_heap st) (p_instance pd) = Some i"
      "physical_device_of st physical_device = Some (Some (i, pd))"
    using physical_device_known [OF assms(1,2)] by blast
  let ?a = "get_physical_device_properties (i_config i) written"
  have sp: "map of_char (c_string (dp_device_name ?a)) = device_name (spoof_profile (i_config i))
         \<and> vendor_id ?a = NVIDIA_VENDOR_ID \<and> dp_device_id ?a = device_id (spoof_profile (i_config i))
         \<and> timestamp_period ?a = timestamp_period written"
    if "spoof_nvidia (i_config i)" "spoof_profile (i_config i) \<in> snd ` set NVIDIA_PRESETS"
  proof -
    have "i_config i = (i_config i)\<lparr>spoof_nvidia := True, spoof_profile := spoof_profile (i_config i)\<rparr>" using that(1) by simp
    then show ?thesis using spoofed_identity [OF that(2) assms(4), of ?a "i_config i"] by (simp add: NVIDIA_VENDOR_ID_def)
  qed
  show ?thesis
    by (rule exI [of _ i], rule exI [of _ ?a])
      (use k sp assms(3) in \<open>auto simp: vk_get_physical_device_properties_def vk_get_physical_device_properties2_def
         get_physical_device_properties_def Let_def split: option.splits if_splits\<close>)
qed

text \<open>
  C35. The anti-lag feature tells the truth: on a device the layer knows, with anti-lag as the
  extension offered and a driver that leaves the chain as it is, a features query in a variant
  that is loaded answers the first anti-lag structure of the chain with TRUE exactly when
  creating a device with the extension passes the layer's check, and where it answers FALSE
  such a creation fails without a call to the driver. No other flag is touched.
\<close>

theorem anti_lag_feature_tells_the_truth:
  assumes "layer_inv st" and "map_of (physical_devices st) physical_device = Some a"
    and "\<And>f. qm_chain (next_layer f m) = qm_chain m" and "chain (qm_chain m) head as"
    and "find (\<lambda>x. type_at (qm_chain m) x = Some ANTI_LAG_FEATURES_AMD) as = Some p"
  shows "\<exists>i pd. physical_device_of st physical_device = Some (Some (i, pd))
    \<and> (\<forall>khr f. \<not> expose_reflex (i_config i) \<longrightarrow>
        (if khr then it_get_physical_device_features2_khr (i_fns i) else it_get_physical_device_features2 (i_fns i)) = Some f \<longrightarrow>
        (\<exists>m'. vk_get_physical_device_features2 next_layer khr st physical_device head m = Some m'
          \<and> (\<forall>x. x \<noteq> p \<longrightarrow> qm_anti_lag m' x = qm_anti_lag (next_layer f m) x)
          \<and> (qm_anti_lag m' p \<longleftrightarrow> device_request_of (i_config i) (p_extensions pd) [''VK_AMD_anti_lag''] \<noteq> None)
          \<and> (\<not> qm_anti_lag m' p \<longrightarrow> (\<forall>links drv box head2 names h. ''VK_AMD_anti_lag'' \<in> set names \<longrightarrow>
               create_device links drv box physical_device (Some (head2, Some names)) h st
               = fails ERROR_INITIALIZATION_FAILED st h))))"
proof -
  obtain i pd where k: "map_of (p_heap st) a = Some pd" "map_of (i_heap st) (p_instance pd) = Some i"
      "physical_device_of st physical_device = Some (Some (i, pd))"
    using physical_device_known [OF assms(1,2)] by blast
  have walk: "pnext_find (qm_chain (next_layer f m)) head ANTI_LAG_FEATURES_AMD = Some (Some p)" for f
    using pnext_find_chain [OF assms(4)] assms(3,5) by simp
  have rq: "device_request_of (i_config i) (p_extensions pd) names = None \<longleftrightarrow> \<not> supports_required_extensions (p_extensions pd)"
    if "\<not> expose_reflex (i_config i)" "''VK_AMD_anti_lag'' \<in> set names" for names
    using that by (simp add: device_request_of_def watched_ext_def Let_def)
  have refused: "create_device links drv box physical_device (Some (head2, Some names)) h st = fails ERROR_INITIALIZATION_FAILED st h"
    if "\<not> expose_reflex (i_config i)" "''VK_AMD_anti_lag'' \<in> set names" "\<not> supports_required_extensions (p_extensions pd)"
    for links drv box head2 names h
    using rq [OF that(1,2)] that(3) k(1,2) assms(2) by (simp add: create_device_def)
  show ?thesis
    by (rule exI [of _ i], rule exI [of _ pd])
      (use k(3) walk rq refused in \<open>auto simp: vk_get_physical_device_features2_def Let_def\<close>)
qed

text \<open>
  The surface query follows the two-call protocol for the present modes: with the layer's
  low-latency extension exposed and the structure in the chain, a query without an array
  answers three, and one with an array of \<open>n\<close> elements writes the first \<open>min n 3\<close> modes and
  that count; a failed query and one on an unknown device write nothing.
\<close>

lemma surface_modes_two_call:
  assumes "physical_device_of st physical_device = Some (Some (i, pd))" and "expose_reflex (i_config i)"
    and "it_get_physical_device_surface_capabilities2_khr (i_fns i) = Some f"
    and "next_layer f m = (r, m1)" and "pnext_find (qm_chain m1) head LATENCY_SURFACE_CAPABILITIES_NV = Some (Some p)"
  shows "\<exists>m'. vk_get_surface_capabilities2 next_layer st physical_device head m = Some (r, m')
    \<and> (r \<noteq> SUCCESS \<longrightarrow> m' = m1)
    \<and> (r = SUCCESS \<longrightarrow> qm_latency_caps m' p = (case present_modes (qm_latency_caps m1 p) of
         None \<Rightarrow> (qm_latency_caps m1 p)\<lparr>present_mode_count := 3\<rparr>
       | Some arr \<Rightarrow> \<lparr>present_mode_count = min (present_mode_count (qm_latency_caps m1 p)) 3,
           present_modes = Some (take (unat (min (present_mode_count (qm_latency_caps m1 p)) 3)) SUPPORTED_MODES
             @ drop (unat (min (present_mode_count (qm_latency_caps m1 p)) 3)) arr)\<rparr>))"
  using assms
  by (cases "r = SUCCESS")
    (auto simp: vk_get_surface_capabilities2_def fill_present_modes_def SUPPORTED_MODES_def Let_def split: option.splits)

section \<open>Examples\<close>

text \<open>A layer with one instance and one physical device whose driver has only the swapchain extension.\<close>

definition asked_layer :: "instance_table \<Rightarrow> layer_config \<Rightarrow> layer" where
  "asked_layer fns cfg = \<lparr>instances = [(50, 1)], physical_devices = [(60, 2)], devices = [], queues = [],
     i_heap = [(1, \<lparr>i_handle = 50, i_fns = fns, i_config = cfg, i_decoupled = False, i_api_version = 0, i_physical_devices = [(60, 2)]\<rparr>)],
     p_heap = [(2, physical_device_ctx_new 1 (example_pd\<lparr>pdd_extensions := bare_driver\<rparr>))],
     d_heap = [], q_heap = [], next_addr = 3, calls = []\<rparr>"

lemma asked_layer_inv: "layer_inv (asked_layer fns cfg)"
  by (simp add: asked_layer_def layer_inv_def no_dangling_def refs_def doms_def physical_device_ctx_new_def)

lemma asked_device: "map_of (physical_devices (asked_layer fns cfg)) 60 = Some 2"
  by (simp add: asked_layer_def)

lemma asked_instance:
  "\<exists>i. physical_device_of (asked_layer fns cfg) 60 = Some (Some (i, physical_device_ctx_new 1 (example_pd\<lparr>pdd_extensions := bare_driver\<rparr>)))
    \<and> map_of (i_heap (asked_layer fns cfg)) (p_instance (the (map_of (p_heap (asked_layer fns cfg)) 2))) = Some i
    \<and> i_config i = cfg \<and> i_fns i = fns"
  by (simp add: asked_layer_def physical_device_of_def physical_device_ctx_new_def)

theorem identity_queries_agree_witness:
  "\<exists>fns answer props. vk_get_physical_device_properties (\<lambda>f p. \<lparr>vendor_id = 0x1002, dp_device_id = 7, dp_device_name = replicate 256 CHR ''A'', timestamp_period = 10\<rparr>)
       (asked_layer fns (example_config\<lparr>spoof_nvidia := True\<rparr>)) 60 props = Some answer
     \<and> vendor_id answer = 0x10DE \<and> map of_char (c_string (dp_device_name answer)) = lit ''NVIDIA GeForce RTX 5090''"
proof -
  obtain fns where "instance_table_load resolve_all = Inr fns" by (simp add: instance_table_load_def require_def resolve_all_def)
  let ?w = "\<lparr>vendor_id = 0x1002, dp_device_id = 7, dp_device_name = replicate 256 CHR ''A'', timestamp_period = 10\<rparr> :: device_properties"
  let ?cfg = "example_config\<lparr>spoof_nvidia := True\<rparr>"
  have p: "spoof_profile ?cfg \<in> snd ` set NVIDIA_PRESETS"
    by (simp add: example_config_def NVIDIA_PRESETS_def preset_def)
  have w: "\<forall>f :: nat. ?w = ?w" "length (dp_device_name ?w) = NAME_LEN" by (simp_all add: NAME_LEN_def)
  from identity_queries_agree [OF asked_layer_inv asked_device, where next_layer = "\<lambda>f p. ?w" and written = ?w and props = ?w, OF w, of fns ?cfg]
  obtain i answer where i: "map_of (i_heap (asked_layer fns ?cfg)) (p_instance (the (map_of (p_heap (asked_layer fns ?cfg)) 2))) = Some i"
      "vk_get_physical_device_properties (\<lambda>f p. ?w) (asked_layer fns ?cfg) 60 ?w = Some answer"
      "spoof_nvidia (i_config i) \<longrightarrow> spoof_profile (i_config i) \<in> snd ` set NVIDIA_PRESETS \<longrightarrow>
         map of_char (c_string (dp_device_name answer)) = device_name (spoof_profile (i_config i)) \<and> vendor_id answer = NVIDIA_VENDOR_ID"
    by blast
  have "i_config i = ?cfg" using asked_instance [of fns ?cfg] i(1) by auto
  then have "map of_char (c_string (dp_device_name answer)) = device_name (spoof_profile ?cfg) \<and> vendor_id answer = NVIDIA_VENDOR_ID"
    using i(3) p by simp
  moreover have "device_name (spoof_profile ?cfg) = lit ''NVIDIA GeForce RTX 5090''" by (simp add: example_config_def)
  ultimately show ?thesis using i(2) unfolding NVIDIA_VENDOR_ID_def by (metis (no_types, lifting))
qed

theorem anti_lag_feature_tells_the_truth_witness:
  "\<exists>fns m m'. vk_get_physical_device_features2 (\<lambda>f m. m) False (asked_layer fns (example_config\<lparr>expose_reflex := False\<rparr>)) 60 7 m = Some m'
     \<and> qm_anti_lag m 7 \<and> \<not> qm_anti_lag m' 7"
proof -
  let ?cfg = "example_config\<lparr>expose_reflex := False\<rparr>"
  let ?n = "\<lparr>s_type = ANTI_LAG_FEATURES_AMD, p_next = 0, flags = (\<lambda>_. False), layer_function = 0, p_layer_info = 0\<rparr>"
  let ?m = "\<lparr>qm_chain = [7 \<mapsto> ?n], qm_anti_lag = (\<lambda>_. True), qm_latency_caps = (\<lambda>_. \<lparr>present_mode_count = 0, present_modes = None\<rparr>)\<rparr>"
  obtain fns :: instance_table and f where f: "it_get_physical_device_features2 fns = Some f"
    by (metis instance_table.select_convs(9))
  have c: "chain (qm_chain ?m) 7 [7]" by simp
  have t: "find (\<lambda>x. type_at (qm_chain ?m) x = Some ANTI_LAG_FEATURES_AMD) [7] = Some 7" by (simp add: type_at_def)
  obtain i where i: "physical_device_of (asked_layer fns ?cfg) 60 = Some (Some (i, physical_device_ctx_new 1 (example_pd\<lparr>pdd_extensions := bare_driver\<rparr>)))"
      "i_config i = ?cfg" "i_fns i = fns" using asked_instance by blast
  have none: "device_request_of ?cfg (pd_extensions_new bare_driver) [''VK_AMD_anti_lag''] = None"
    by (simp add: device_request_of_def watched_ext_def example_config_def pd_extensions_new_def list_available_extensions_def
        bare_driver_def fill_buffer_def make_ext_prop_name NAME_LEN_def REQUIRED_EXTENSIONS_def Let_def)
  have r: "\<not> expose_reflex ?cfg" by (simp add: example_config_def)
  from anti_lag_feature_tells_the_truth [OF asked_layer_inv asked_device, where next_layer = "\<lambda>f m. m", OF refl c t, of fns ?cfg]
  obtain m' where "vk_get_physical_device_features2 (\<lambda>f m. m) False (asked_layer fns ?cfg) 60 7 ?m = Some m'"
      "qm_anti_lag m' 7 \<longleftrightarrow> device_request_of ?cfg (p_extensions (physical_device_ctx_new 1 (example_pd\<lparr>pdd_extensions := bare_driver\<rparr>))) [''VK_AMD_anti_lag''] \<noteq> None"
    using i r f by (metis (no_types, lifting) option.inject prod.inject)
  then show ?thesis using none by (intro exI [of _ fns] exI [of _ ?m] exI [of _ m']) (simp add: physical_device_ctx_new_def)
qed

end
