(* ===== verification/LatencyDevice.thy ===== *)
theory LatencyDevice
  imports Submit Monitor
begin

text \<open>
  The device side of the NV low-latency strategy (\<open>LowLatency2DeviceStrategy\<close> of
  \<open>src/strategy/low_latency2/mod.rs\<close>): its swapchain monitors, the marker history they share,
  and what they do to the queues of the device and to its timeline semaphores. A span in a
  monitor is tagged with the queue it came from, where dropping it returns its handles. The
  thread of a monitor is here as the rounds it completes (\<open>Monitor\<close> has its interleavings);
  dropping a monitor is the drain its thread does before it is joined.
\<close>

section \<open>State\<close>

type_synonym tagged = "nat \<times> handle submission_span"

record ll2_device =
  l2_monitors :: "nat \<rightharpoonup> tagged monitor"
  l2_markers :: history

definition ll2_device_new :: ll2_device where
  "ll2_device_new = \<lparr>l2_monitors = Map.empty, l2_markers = history_new\<rparr>"

text \<open>The strategy with what it reaches: the queues in iteration order, the semaphores, the clock.\<close>

record ll2_world =
  w_dev :: ll2_device
  w_queues :: "queue_ctx list"
  w_sems :: semaphores
  w_tick :: nat

definition set_monitor :: "nat \<Rightarrow> tagged monitor option \<Rightarrow> ll2_world \<Rightarrow> ll2_world" where
  "set_monitor sw m w = w\<lparr>w_dev := (w_dev w)\<lparr>l2_monitors := (l2_monitors (w_dev w))(sw := m)\<rparr>\<rparr>"

section \<open>Dropping spans\<close>

definition drop_span :: "handle submission_span \<Rightarrow> queue_ctx \<Rightarrow> queue_ctx" where
  "drop_span s q = q\<lparr>q_pool := fold handle_drop (span_handles s) (q_pool q)\<rparr>"

definition drop_tagged :: "tagged \<Rightarrow> queue_ctx list \<Rightarrow> queue_ctx list" where
  "drop_tagged x qs = (if fst x < length qs then qs[fst x := drop_span (snd x) (qs ! fst x)] else qs)"

definition drop_all :: "tagged list \<Rightarrow> queue_ctx list \<Rightarrow> queue_ctx list" where
  "drop_all xs qs = fold drop_tagged xs qs"

definition group_spans :: "tagged tagged_spans list \<Rightarrow> tagged list" where
  "group_spans gs = concat (map tg_spans gs)"

definition monitor_spans :: "tagged monitor \<Rightarrow> tagged list" where
  "monitor_spans m = concat (map (\<lambda>p. group_spans (ps_groups p)) (pending_signals m)) @ group_spans (pending_groups m)"

definition drop_monitor :: "tagged monitor \<Rightarrow> ll2_world \<Rightarrow> ll2_world" where
  "drop_monitor m w = w\<lparr>w_sems := fold signal_semaphore (map ps_signal (pending_signals m)) (w_sems w),
     w_queues := drop_all (monitor_spans m) (w_queues w)\<rparr>"

section \<open>Presents\<close>

definition take_one :: "u64 \<Rightarrow> queue_ctx \<Rightarrow> handle submission_span option \<times> queue_ctx" where
  "take_one pid q =
     (case q_strategy q of
        AntiLagQ _ \<Rightarrow> (None, q)
      | LowLatency2Q l \<Rightarrow>
          if is_out_of_band l then (None, q)
          else (case take_by_present_id pid l of (s, l') \<Rightarrow> (s, q\<lparr>q_strategy := LowLatency2Q l'\<rparr>)))"

fun take_work :: "u64 \<Rightarrow> nat \<Rightarrow> queue_ctx list \<Rightarrow> tagged list \<times> queue_ctx list" where
  "take_work pid i [] = ([], [])"
| "take_work pid i (q # qs) =
     (case take_one pid q of (s, q') \<Rightarrow>
        (case take_work pid (Suc i) qs of (work, qs') \<Rightarrow>
           ((case s of Some x \<Rightarrow> (i, x) # work | None \<Rightarrow> work), q' # qs')))"

definition submit_swapchain_present_id :: "nat \<Rightarrow> u64 \<Rightarrow> ll2_world \<Rightarrow> ll2_world" where
  "submit_swapchain_present_id sw pid w =
     (case take_work pid 0 (w_queues w) of (work, qs) \<Rightarrow>
        let w' = w\<lparr>w_queues := qs\<rparr> in
        (case l2_monitors (w_dev w) sw of
           None \<Rightarrow> w'\<lparr>w_queues := drop_all work qs\<rparr>
         | Some m \<Rightarrow>
             if requested m then set_monitor sw (Some (attach_work pid work m)) w'
             else set_monitor sw (Some (attach_work pid work m)) (w'\<lparr>w_queues := drop_all work qs\<rparr>)))"

section \<open>Sleep and its mode\<close>

text \<open>\<open>None\<close> is a null pointer to the mode; otherwise the mode flag and the minimum interval.\<close>

definition notify_latency_sleep_mode :: "nat \<Rightarrow> (bool \<times> u32) option \<Rightarrow> ll2_world \<Rightarrow> ll2_world" where
  "notify_latency_sleep_mode sw info w =
     (case l2_monitors (w_dev w) sw of
        None \<Rightarrow> w
      | Some m \<Rightarrow>
          (case info of
             Some (mode, interval) \<Rightarrow> set_monitor sw (Some (update_params mode (ucast interval) m)) w
           | None \<Rightarrow> set_monitor sw (Some (update_params False 0 m)) w))"

definition notify_latency_sleep_nv :: "nat \<Rightarrow> semaphore_signal \<Rightarrow> ll2_world \<Rightarrow> ll2_world" where
  "notify_latency_sleep_nv sw signal w =
     (case l2_monitors (w_dev w) sw of
        Some m \<Rightarrow>
          (case notify_semaphore signal m of (queued, m') \<Rightarrow>
             let w' = set_monitor sw (Some m') w in
             if queued then w' else w'\<lparr>w_sems := signal_semaphore signal (w_sems w')\<rparr>)
      | None \<Rightarrow> w\<lparr>w_sems := signal_semaphore signal (w_sems w)\<rparr>)"

section \<open>Swapchains\<close>

text \<open>
  \<open>slci\<close> is the flag of a \<open>VkSwapchainLatencyCreateInfoNV\<close> in the chain, if there is one. A
  monitor under the same handle is replaced and dropped.
\<close>

definition ll2_notify_create_swapchain :: "bool \<Rightarrow> bool option \<Rightarrow> nat \<Rightarrow> ll2_world \<Rightarrow> ll2_world" where
  "ll2_notify_create_swapchain decoupled slci sw w =
     (let req = (case slci of Some e \<Rightarrow> e | None \<Rightarrow> True);
          monitor = update_params req 0 (monitor_new decoupled);
          w' = set_monitor sw (Some monitor) w
      in case l2_monitors (w_dev w) sw of None \<Rightarrow> w' | Some old \<Rightarrow> drop_monitor old w')"

definition ll2_notify_destroy_swapchain :: "nat \<Rightarrow> ll2_world \<Rightarrow> ll2_world" where
  "ll2_notify_destroy_swapchain sw w =
     (case l2_monitors (w_dev w) sw of None \<Rightarrow> w | Some old \<Rightarrow> drop_monitor old (set_monitor sw None w))"

section \<open>A round of a monitor\<close>

text \<open>What the worker of a monitor finds: completed spans, their times, the delay of the layer.\<close>

record round_env =
  re_in_time :: "tagged \<Rightarrow> bool"
  re_times :: "tagged \<Rightarrow> (u64 \<times> u64) option"
  re_layer_delay :: u64

definition monitor_round :: "(nat \<Rightarrow> u64) \<Rightarrow> round_env \<Rightarrow> nat \<Rightarrow> ll2_world \<Rightarrow> (panic + ll2_world) option" where
  "monitor_round clk env sw w =
     (case l2_monitors (w_dev w) sw of
        None \<Rightarrow> Some (Inr w)
      | Some m \<Rightarrow>
          (case pending_signals m of
             [] \<Rightarrow> Some (Inr w)
           | p # rest \<Rightarrow>
               (case process_pending False (re_in_time env) (re_times env) clk (present_delay_ns m) (re_layer_delay env) p
                       (l2_markers (w_dev w), mon_delay m, w_sems w, w_tick w) of
                  None \<Rightarrow> None
                | Some (Inl e) \<Rightarrow> Some (Inl e)
                | Some (Inr (h, dc, sems, k)) \<Rightarrow>
                    Some (Inr (set_monitor sw (Some (m\<lparr>pending_signals := rest, mon_delay := dc\<rparr>))
                      (w\<lparr>w_dev := (w_dev w)\<lparr>l2_markers := h\<rparr>, w_queues := drop_all (group_spans (ps_groups p)) (w_queues w),
                         w_sems := sems, w_tick := k\<rparr>))))))"

section \<open>Histories\<close>

datatype ll2_op =
    LCreate bool "bool option" nat
  | LDestroy nat
  | LMode nat "(bool \<times> u32) option"
  | LSleep nat semaphore_signal
  | LPresent nat u64
  | LRound round_env nat

definition ll2_op_step :: "(nat \<Rightarrow> u64) \<Rightarrow> ll2_op \<Rightarrow> ll2_world \<Rightarrow> (panic + ll2_world) option" where
  "ll2_op_step clk op w =
     (case op of
        LCreate decoupled slci sw \<Rightarrow> Some (Inr (ll2_notify_create_swapchain decoupled slci sw w))
      | LDestroy sw \<Rightarrow> Some (Inr (ll2_notify_destroy_swapchain sw w))
      | LMode sw info \<Rightarrow> Some (Inr (notify_latency_sleep_mode sw info w))
      | LSleep sw sg \<Rightarrow> Some (Inr (notify_latency_sleep_nv sw sg w))
      | LPresent sw pid \<Rightarrow> Some (Inr (submit_swapchain_present_id sw pid w))
      | LRound env sw \<Rightarrow> monitor_round clk env sw w)"

fun ll2_run :: "(nat \<Rightarrow> u64) \<Rightarrow> ll2_op list \<Rightarrow> ll2_world \<Rightarrow> (panic + ll2_world) option" where
  "ll2_run clk [] w = Some (Inr w)"
| "ll2_run clk (op # ops) w =
     (case ll2_op_step clk op w of
        Some (Inr w') \<Rightarrow> ll2_run clk ops w'
      | r \<Rightarrow> r)"

section \<open>No sleep is lost\<close>

text \<open>The semaphore has reached the value, or a monitor still has the signal queued.\<close>

definition reached :: "semaphore_signal \<Rightarrow> semaphores \<Rightarrow> bool" where
  "reached sg d \<longleftrightarrow> sig_value sg \<le> counter_value d (sig_semaphore sg)"

definition queued_in :: "semaphore_signal \<Rightarrow> tagged monitor \<Rightarrow> bool" where
  "queued_in sg m \<longleftrightarrow> sg \<in> set (map ps_signal (pending_signals m))"

definition served :: "semaphore_signal \<Rightarrow> ll2_world \<Rightarrow> bool" where
  "served sg w \<longleftrightarrow> reached sg (w_sems w) \<or> (\<exists>sw m. l2_monitors (w_dev w) sw = Some m \<and> queued_in sg m)"

lemma set_monitor_fields [simp]:
  "w_sems (set_monitor sw m w) = w_sems w" "w_queues (set_monitor sw m w) = w_queues w" "w_tick (set_monitor sw m w) = w_tick w"
  "l2_markers (w_dev (set_monitor sw m w)) = l2_markers (w_dev w)"
  "l2_monitors (w_dev (set_monitor sw m w)) = (l2_monitors (w_dev w))(sw := m)"
  by (simp_all add: set_monitor_def)

lemma drop_monitor_fields [simp]:
  "w_dev (drop_monitor m w) = w_dev w" "w_tick (drop_monitor m w) = w_tick w"
  "w_sems (drop_monitor m w) = fold signal_semaphore (map ps_signal (pending_signals m)) (w_sems w)"
  by (simp_all add: drop_monitor_def)

lemma reached_signal: "healthy d \<Longrightarrow> reached sg d \<Longrightarrow> reached sg (signal_semaphore sg' d)"
  by (auto simp: reached_def signal_counter le_max_iff_disj)

lemma signal_reaches: "healthy d \<Longrightarrow> reached sg (signal_semaphore sg d)"
  by (simp add: reached_def signal_counter le_max_iff_disj)

lemma healthy_signals [simp]: "healthy (fold signal_semaphore sgs d) = healthy d"
  by (induction sgs arbitrary: d) simp_all

lemma signals_reach: "healthy d \<Longrightarrow> reached sg d \<or> sg \<in> set sgs \<Longrightarrow> reached sg (fold signal_semaphore sgs d)"
  by (induction sgs arbitrary: d) (auto simp: reached_signal signal_reaches)

lemma served_monitor:
  assumes "served sg w" and "healthy (w_sems w)"
    and sems: "w_sems w' = fold signal_semaphore sgs (w_sems w)"
    and others: "\<And>sw'. sw' \<noteq> sw \<Longrightarrow> l2_monitors (w_dev w') sw' = l2_monitors (w_dev w) sw'"
    and here: "\<And>m. l2_monitors (w_dev w) sw = Some m \<Longrightarrow> queued_in sg m \<Longrightarrow> sg \<in> set sgs \<or> served sg w'"
  shows "served sg w' \<and> healthy (w_sems w')"
proof -
  have h: "healthy (w_sems w')" using assms(2) by (simp add: sems)
  show ?thesis
  proof (cases "reached sg (w_sems w) \<or> sg \<in> set sgs")
    case True
    then show ?thesis using h assms(2) signals_reach by (simp add: served_def sems)
  next
    case False
    then obtain sw' m where m: "l2_monitors (w_dev w) sw' = Some m" "queued_in sg m"
      using assms(1) by (auto simp: served_def)
    show ?thesis
    proof (cases "sw' = sw")
      case True
      then show ?thesis using here m False h by blast
    next
      case False
      then have "l2_monitors (w_dev w') sw' = Some m" using others m(1) by simp
      then show ?thesis using m(2) h by (auto simp: served_def)
    qed
  qed
qed

lemma served_at: "l2_monitors (w_dev w) sw = Some m \<Longrightarrow> queued_in sg m \<Longrightarrow> served sg w"
  by (auto simp: served_def)

lemma queued_in_calls [simp]:
  "queued_in sg (update_params r u m) = queued_in sg m" "queued_in sg (attach_work pid work m) = queued_in sg m"
  by (simp_all add: queued_in_def)

lemma monitor_round_result:
  assumes "monitor_round clk env sw w = Some (Inr w')"
  shows "w' = w \<or> (\<exists>m p rest m' h k qs. l2_monitors (w_dev w) sw = Some m \<and> pending_signals m = p # rest \<and> pending_signals m' = rest
    \<and> pending_groups m' = pending_groups m \<and> requested m' = requested m
    \<and> w' = set_monitor sw (Some m') (w\<lparr>w_dev := (w_dev w)\<lparr>l2_markers := h\<rparr>, w_queues := qs,
         w_sems := signal_semaphore (ps_signal p) (w_sems w), w_tick := k\<rparr>))"
proof (cases "l2_monitors (w_dev w) sw")
  case (Some m)
  show ?thesis
  proof (cases "pending_signals m")
    case (Cons p rest)
    obtain h dc sems k where r: "process_pending False (re_in_time env) (re_times env) clk (present_delay_ns m) (re_layer_delay env) p
          (l2_markers (w_dev w), mon_delay m, w_sems w, w_tick w) = Some (Inr (h, dc, sems, k))"
      and w': "w' = set_monitor sw (Some (m\<lparr>pending_signals := rest, mon_delay := dc\<rparr>))
          (w\<lparr>w_dev := (w_dev w)\<lparr>l2_markers := h\<rparr>, w_queues := drop_all (group_spans (ps_groups p)) (w_queues w), w_sems := sems, w_tick := k\<rparr>)"
      using assms Some Cons by (auto simp: monitor_round_def split: option.splits sum.splits prod.splits)
    have "sems = signal_semaphore (ps_signal p) (w_sems w)"
      using r by (auto simp: process_pending_def split: sum.splits option.splits prod.splits)
    then show ?thesis using Some Cons w' by (intro disjI2 exI [of _ m] exI conjI) auto
  qed (use assms Some in \<open>simp add: monitor_round_def\<close>)
qed (use assms in \<open>simp add: monitor_round_def\<close>)

lemma ll2_step_served:
  assumes "ll2_op_step clk op w = Some (Inr w')" and s: "served sg w" and h: "healthy (w_sems w)"
  shows "served sg w' \<and> healthy (w_sems w')"
proof (cases op)
  case (LCreate decoupled slci sw)
  let ?sgs = "case l2_monitors (w_dev w) sw of None \<Rightarrow> [] | Some m \<Rightarrow> map ps_signal (pending_signals m)"
  show ?thesis
    by (rule served_monitor [OF s h, where sw = sw and sgs = ?sgs])
      (use assms(1) LCreate in \<open>auto simp: ll2_op_step_def ll2_notify_create_swapchain_def Let_def queued_in_def split: option.splits\<close>)
next
  case (LDestroy sw)
  let ?sgs = "case l2_monitors (w_dev w) sw of None \<Rightarrow> [] | Some m \<Rightarrow> map ps_signal (pending_signals m)"
  show ?thesis
    by (rule served_monitor [OF s h, where sw = sw and sgs = ?sgs])
      (use assms(1) LDestroy in \<open>auto simp: ll2_op_step_def ll2_notify_destroy_swapchain_def queued_in_def split: option.splits\<close>)
next
  case (LMode sw info)
  show ?thesis
    by (rule served_monitor [OF s h, where sw = sw and sgs = "[]"])
      (use assms(1) LMode in \<open>auto simp: ll2_op_step_def notify_latency_sleep_mode_def intro!: served_at [of _ sw] split: option.splits prod.splits\<close>)
next
  case (LPresent sw pid)
  show ?thesis
    by (rule served_monitor [OF s h, where sw = sw and sgs = "[]"])
      (use assms(1) LPresent in \<open>auto simp: ll2_op_step_def submit_swapchain_present_id_def Let_def intro!: served_at [of _ sw]
         split: option.splits prod.splits if_splits\<close>)
next
  case (LSleep sw sig)
  let ?sgs = "case l2_monitors (w_dev w) sw of None \<Rightarrow> [sig] | Some m \<Rightarrow> if requested m then [] else [sig]"
  show ?thesis
    by (rule served_monitor [OF s h, where sw = sw and sgs = ?sgs])
      (use assms(1) LSleep in \<open>auto simp: ll2_op_step_def notify_latency_sleep_nv_def notify_semaphore_def queued_in_def Let_def
         intro!: served_at [of _ sw] split: option.splits prod.splits if_splits\<close>)
next
  case (LRound env sw)
  then have "monitor_round clk env sw w = Some (Inr w')" using assms(1) by (simp add: ll2_op_step_def)
  from monitor_round_result [OF this] show ?thesis
  proof (elim disjE exE conjE)
    fix m p rest m' hh k qs
    assume m: "l2_monitors (w_dev w) sw = Some m" "pending_signals m = p # rest" "pending_signals m' = rest"
      and w': "w' = set_monitor sw (Some m') (w\<lparr>w_dev := (w_dev w)\<lparr>l2_markers := hh\<rparr>, w_queues := qs,
         w_sems := signal_semaphore (ps_signal p) (w_sems w), w_tick := k\<rparr>)"
    show ?thesis
      by (rule served_monitor [OF s h, where sw = sw and sgs = "[ps_signal p]"])
        (use m w' in \<open>auto simp: queued_in_def intro!: served_at [of _ sw]\<close>)
  qed (use s h in simp)
qed

lemma ll2_run_served:
  "ll2_run clk ops w = Some (Inr w') \<Longrightarrow> healthy (w_sems w) \<Longrightarrow> served sg w \<Longrightarrow> served sg w'"
proof (induction ops arbitrary: w)
  case (Cons op ops)
  then obtain w1 where w1: "ll2_op_step clk op w = Some (Inr w1)" "ll2_run clk ops w1 = Some (Inr w')"
    by (auto split: option.splits sum.splits)
  then show ?case using Cons.IH ll2_step_served [OF w1(1) Cons.prems(3,2)] by blast
qed simp

lemma ll2_step_healthy:
  assumes "ll2_op_step clk op w = Some (Inr w')" and "healthy (w_sems w)"
  shows "healthy (w_sems w')"
proof -
  have "served \<lparr>sig_semaphore = 0, sig_value = 0\<rparr> w" by (simp add: served_def reached_def)
  then show ?thesis using ll2_step_served assms by blast
qed

lemma sleep_served: "healthy (w_sems w) \<Longrightarrow> served sg (notify_latency_sleep_nv sw sg w)"
  by (auto simp: notify_latency_sleep_nv_def notify_semaphore_def Let_def served_def signal_reaches queued_in_def split: option.split)


definition example_world :: ll2_world where
  "example_world = \<lparr>w_dev = ll2_device_new, w_queues = [],
     w_sems = \<lparr>entrypoints_loaded = True, read_result = (\<lambda>_. SUCCESS), counter_value = (\<lambda>_. 0), signal_calls = []\<rparr>, w_tick = 0\<rparr>"

lemma example_world_healthy: "healthy (w_sems example_world)"
  by (simp add: healthy_def example_world_def)


section \<open>Rounds deliver\<close>

lemma delay_keeps_coupled:
  "\<not> simulation_decoupled c \<Longrightarrow> delay clk d c k = Some (Inr (c', k')) \<Longrightarrow> \<not> simulation_decoupled c'"
  by (auto simp: delay_def Let_def set_previous_def split: option.splits if_splits)

lemma monitor_round_ok:
  assumes inv: "history_inv (l2_markers (w_dev w))" and clk: "\<forall>d n. \<exists>j\<ge>n. d \<le> clk j"
    and m: "l2_monitors (w_dev w) sw = Some m" "pending_signals m = p # rest" "\<not> simulation_decoupled (mon_delay m)"
  shows "\<exists>w' m'. monitor_round clk env sw w = Some (Inr w') \<and> l2_monitors (w_dev w') sw = Some m' \<and> pending_signals m' = rest
    \<and> \<not> simulation_decoupled (mon_delay m') \<and> history_inv (l2_markers (w_dev w')) \<and> w_sems w' = signal_semaphore (ps_signal p) (w_sems w)"
proof -
  let ?d = "max (present_delay_ns m) (re_layer_delay env)"
  obtain h where h: "process_groups (re_in_time env) (re_times env) (ps_groups p) (l2_markers (w_dev w)) = Inr h" "history_inv h"
    using process_groups_ok [OF inv] by blast
  obtain r where r: "delay clk ?d (mon_delay m) (w_tick w) = Some r" using delay_total [OF clk] by blast
  obtain dc k where dc: "r = Inr (dc, k)" using delay_coupled_ok [OF m(3) r] by auto
  have "\<not> simulation_decoupled dc" using delay_keeps_coupled [OF m(3)] r dc by simp
  then show ?thesis using m h r dc by (simp add: monitor_round_def process_pending_def)
qed

lemma rounds_deliver:
  assumes "history_inv (l2_markers (w_dev w))" and "\<forall>d n. \<exists>j\<ge>n. d \<le> clk j"
    and "l2_monitors (w_dev w) sw = Some m" and "\<not> simulation_decoupled (mon_delay m)" and "healthy (w_sems w)"
  shows "\<exists>w' m'. ll2_run clk (replicate (length (pending_signals m)) (LRound env sw)) w = Some (Inr w')
    \<and> l2_monitors (w_dev w') sw = Some m' \<and> pending_signals m' = []
    \<and> (\<forall>sg. reached sg (w_sems w) \<or> queued_in sg m \<longrightarrow> reached sg (w_sems w'))"
  using assms
proof (induction "pending_signals m" arbitrary: m w)
  case Nil
  then show ?case by (auto simp: queued_in_def)
next
  case (Cons p rest)
  obtain w1 m1 where r: "monitor_round clk env sw w = Some (Inr w1)" and m1: "l2_monitors (w_dev w1) sw = Some m1"
      "pending_signals m1 = rest" "\<not> simulation_decoupled (mon_delay m1)" "history_inv (l2_markers (w_dev w1))"
      "w_sems w1 = signal_semaphore (ps_signal p) (w_sems w)"
    using monitor_round_ok [OF Cons.prems(1,2,3) Cons.hyps(2) [symmetric] Cons.prems(4)] by blast
  have h1: "healthy (w_sems w1)" using m1(5) Cons.prems(5) by simp
  obtain w' m' where w': "ll2_run clk (replicate (length (pending_signals m1)) (LRound env sw)) w1 = Some (Inr w')"
      "l2_monitors (w_dev w') sw = Some m'" "pending_signals m' = []"
      "\<forall>sg. reached sg (w_sems w1) \<or> queued_in sg m1 \<longrightarrow> reached sg (w_sems w')"
    using Cons.hyps(1) [OF m1(2) [symmetric] m1(4) Cons.prems(2) m1(1,3) h1] by blast
  have "reached sg (w_sems w')" if "reached sg (w_sems w) \<or> queued_in sg m" for sg
  proof -
    have "reached sg (w_sems w1) \<or> queued_in sg m1"
      using that Cons.hyps(2) m1(2,5) Cons.prems(5) reached_signal signal_reaches
      by (auto simp: queued_in_def) (metis list.set_intros set_ConsD list.set_map image_eqI)+
    then show ?thesis using w'(4) by blast
  qed
  moreover have "ll2_run clk (replicate (length (pending_signals m)) (LRound env sw)) w = Some (Inr w')"
    using r w'(1) m1(2) Cons.hyps(2) [symmetric] by (simp add: ll2_op_step_def)
  ultimately show ?case using w'(2,3) by blast
qed



section \<open>What a present collects\<close>

definition in_band :: "queue_ctx \<Rightarrow> bool" where
  "in_band q \<longleftrightarrow> (case q_strategy q of LowLatency2Q l \<Rightarrow> \<not> is_out_of_band l | AntiLagQ _ \<Rightarrow> False)"

definition span_at :: "u64 \<Rightarrow> queue_ctx \<Rightarrow> handle submission_span option" where
  "span_at pid q = (case q_strategy q of LowLatency2Q l \<Rightarrow> submissions l pid | AntiLagQ _ \<Rightarrow> None)"

definition tracked_span :: "u64 \<Rightarrow> queue_ctx \<Rightarrow> handle submission_span option" where
  "tracked_span pid q = (if in_band q then span_at pid q else None)"

lemma take_one_spec:
  "fst (take_one pid q) = tracked_span pid q \<and> tracked_span pid (snd (take_one pid q)) = None
    \<and> in_band (snd (take_one pid q)) = in_band q \<and> q_pool (snd (take_one pid q)) = q_pool q
    \<and> (\<forall>pid'. pid' \<noteq> pid \<or> \<not> in_band q \<longrightarrow> span_at pid' (snd (take_one pid q)) = span_at pid' q)"
  by (cases "q_strategy q")
    (auto simp: take_one_def tracked_span_def in_band_def span_at_def take_by_present_id_def split: prod.split)

definition numbered :: "nat \<Rightarrow> queue_ctx list \<Rightarrow> (nat \<times> queue_ctx) list" where
  "numbered i qs = zip [i..<i + length qs] qs"

lemma numbered_simps [simp]: "numbered i [] = []" "numbered i (q # qs) = (i, q) # numbered (Suc i) qs"
  by (simp_all add: numbered_def upt_conv_Cons del: upt_Suc)

text \<open>The spans under a present id, with the numbers of their queues, and the queues without them.\<close>

definition present_work :: "u64 \<Rightarrow> queue_ctx list \<Rightarrow> tagged list" where
  "present_work pid qs = List.map_filter (\<lambda>(i, q). map_option (Pair i) (tracked_span pid q)) (numbered 0 qs)"

definition without_work :: "u64 \<Rightarrow> queue_ctx list \<Rightarrow> queue_ctx list" where
  "without_work pid qs = map (\<lambda>q. snd (take_one pid q)) qs"

lemma take_work_from:
  "take_work pid i qs = (List.map_filter (\<lambda>(j, q). map_option (Pair j) (tracked_span pid q)) (numbered i qs), without_work pid qs)"
proof (induction qs arbitrary: i)
  case (Cons q qs)
  then show ?case using take_one_spec [of pid q]
    by (cases "take_one pid q"; cases "tracked_span pid q") (auto simp: List.map_filter_simps without_work_def)
qed (simp add: List.map_filter_simps without_work_def)

lemma take_work_spec: "take_work pid 0 qs = (present_work pid qs, without_work pid qs)"
  by (simp add: take_work_from present_work_def)

lemma attach_nothing: "\<not> requested m \<Longrightarrow> attach_work pid xs m = m"
  by (simp add: attach_work_def)

text \<open>
  C9. What a present collects: with low latency mode on for the swapchain, the present of
  an id hands its monitor one group with that id, holding exactly the spans that the in-band
  queues of the device have under it, in the order of the queues; afterwards no in-band queue
  has a span under it, and every other span and every pool is as before. With low latency
  mode off, or for an unknown swapchain, the spans are let go: every handle of theirs goes
  back to the pool of its queue. The other swapchains are untouched.
\<close>

theorem present_collects_work:
  "(case l2_monitors (w_dev w) sw of
      Some m \<Rightarrow>
        (if requested m
         then submit_swapchain_present_id sw pid w
            = set_monitor sw (Some (m\<lparr>pending_groups := pending_groups m @ [\<lparr>tg_present_id = pid, tg_spans = present_work pid (w_queues w)\<rparr>]\<rparr>))
                (w\<lparr>w_queues := without_work pid (w_queues w)\<rparr>)
         else submit_swapchain_present_id sw pid w
            = w\<lparr>w_queues := drop_all (present_work pid (w_queues w)) (without_work pid (w_queues w))\<rparr>)
    | None \<Rightarrow> submit_swapchain_present_id sw pid w
            = w\<lparr>w_queues := drop_all (present_work pid (w_queues w)) (without_work pid (w_queues w))\<rparr>)
    \<and> list_all (\<lambda>q. tracked_span pid q = None) (without_work pid (w_queues w))
    \<and> map q_pool (without_work pid (w_queues w)) = map q_pool (w_queues w)
    \<and> list_all2 (\<lambda>q q'. in_band q' = in_band q \<and> (\<forall>pid'. span_at pid' q' = (if pid' = pid \<and> in_band q then None else span_at pid' q)))
        (w_queues w) (without_work pid (w_queues w))"
proof -
  have q: "list_all (\<lambda>q. tracked_span pid q = None) (without_work pid qs)"
    "map q_pool (without_work pid qs) = map q_pool qs" for qs
    using take_one_spec by (simp_all add: without_work_def list_all_iff)
  have one: "in_band (snd (take_one pid q)) = in_band q
      \<and> span_at pid' (snd (take_one pid q)) = (if pid' = pid \<and> in_band q then None else span_at pid' q)" for q pid'
    using take_one_spec [of pid q] by (auto simp: tracked_span_def)
  then have r: "list_all2 (\<lambda>q q'. in_band q' = in_band q \<and> (\<forall>pid'. span_at pid' q' = (if pid' = pid \<and> in_band q then None else span_at pid' q)))
      qs (without_work pid qs)" for qs
    by (auto simp: without_work_def list.rel_map intro!: list.rel_refl)
  have same: "set_monitor sw (Some m) v = v" if "l2_monitors (w_dev v) sw = Some m" for v :: ll2_world and m
    using that by (simp add: set_monitor_def fun_upd_idem)
  show ?thesis
    using q r by (simp add: submit_swapchain_present_id_def take_work_spec Let_def attach_nothing same split: option.split)
      (simp add: attach_work_def)
qed

section \<open>Presents without sleeps\<close>

lemma presents_pile_up:
  assumes "l2_monitors (w_dev w) sw = Some m" and "requested m"
  shows "\<exists>w' gs. ll2_run clk (map (LPresent sw) pids) w = Some (Inr w')
    \<and> l2_monitors (w_dev w') sw = Some (m\<lparr>pending_groups := pending_groups m @ gs\<rparr>) \<and> map tg_present_id gs = pids
    \<and> map q_pool (w_queues w') = map q_pool (w_queues w)"
  using assms
proof (induction pids arbitrary: w m)
  case Nil
  then show ?case by simp
next
  case (Cons pid pids)
  let ?w1 = "submit_swapchain_present_id sw pid w"
  let ?g = "\<lparr>tg_present_id = pid, tg_spans = present_work pid (w_queues w)\<rparr>"
  let ?m1 = "m\<lparr>pending_groups := pending_groups m @ [?g]\<rparr>"
  have pools: "map q_pool (without_work pid (w_queues w)) = map q_pool (w_queues w)"
    using take_one_spec by (simp add: without_work_def)
  have w1: "l2_monitors (w_dev ?w1) sw = Some ?m1" "map q_pool (w_queues ?w1) = map q_pool (w_queues w)"
    using Cons.prems pools
    by (simp_all add: submit_swapchain_present_id_def take_work_spec attach_work_def Let_def)
  obtain w' gs where "ll2_run clk (map (LPresent sw) pids) ?w1 = Some (Inr w')"
      "l2_monitors (w_dev w') sw = Some (?m1\<lparr>pending_groups := pending_groups ?m1 @ gs\<rparr>)" "map tg_present_id gs = pids"
      "map q_pool (w_queues w') = map q_pool (w_queues ?w1)"
    using Cons.IH [OF w1(1)] Cons.prems(2) by auto
  then show ?case
    using w1(2) by (intro exI [of _ w'] exI [of _ "?g # gs"]) (simp add: ll2_op_step_def)
qed

text \<open>
  C29. An application that never sleeps is remembered in full: a swapchain created without a
  \<open>VkSwapchainLatencyCreateInfoNV\<close> has low latency mode on, and as long as the application
  presents to it without a \<open>vkLatencySleepNV\<close>, its monitor keeps one group for each present,
  without a bound, and no timestamp handle goes back to a pool.
\<close>

theorem unslept_presents_pile_up:
  assumes "l2_monitors (w_dev w) sw = None"
  shows "\<exists>w' m. ll2_run clk (LCreate decoupled None sw # map (LPresent sw) pids) w = Some (Inr w')
    \<and> l2_monitors (w_dev w') sw = Some m \<and> requested m \<and> pending_signals m = []
    \<and> map tg_present_id (pending_groups m) = pids \<and> map q_pool (w_queues w') = map q_pool (w_queues w)"
proof -
  let ?m = "update_params True 0 (monitor_new decoupled) :: tagged monitor"
  let ?w1 = "set_monitor sw (Some ?m) w"
  have c: "ll2_op_step clk (LCreate decoupled None sw) w = Some (Inr ?w1)"
    using assms by (simp add: ll2_op_step_def ll2_notify_create_swapchain_def Let_def)
  have m: "l2_monitors (w_dev ?w1) sw = Some ?m" "requested ?m" "pending_groups ?m = []" "pending_signals ?m = []"
    by (simp_all add: update_params_def monitor_new_def)
  show ?thesis using presents_pile_up [OF m(1,2), of clk pids] c m(2,3,4) by auto
qed

theorem unslept_presents_pile_up_witness:
  "\<exists>w' m. ll2_run (\<lambda>_. 0) (LCreate False None 5 # map (LPresent 5) [1, 2, 3]) example_world = Some (Inr w')
     \<and> l2_monitors (w_dev w') 5 = Some m \<and> map tg_present_id (pending_groups m) = [1, 2, 3]"
proof -
  have "l2_monitors (w_dev example_world) 5 = None" by (simp add: example_world_def ll2_device_new_def)
  from unslept_presents_pile_up [OF this, of "\<lambda>_. 0" False "[1, 2, 3]"] show ?thesis
    by (elim exE conjE) (rule exI, rule exI, intro conjI)
qed

end
