(* ===== verification/FrameLife.thy ===== *)
theory FrameLife
  imports LatencyDevice Clock
begin

text \<open>
  The life of a frame under the NV low-latency strategy, across the components it touches: the
  calls of \<open>vkQueueSubmit\<close> (\<open>Submit\<close>) bracket its submissions and hand the handles to the
  strategy of the queue, the present collects the span (\<open>LatencyDevice\<close>), the sleep queues the
  semaphore with it, and a round of the monitor (\<open>Monitor\<close>) reads its timestamps through the
  pool (\<open>TimestampPool\<close>) and the clock (\<open>Clock\<close>) into the marker history (\<open>Markers\<close>), paces
  the game (\<open>Delay\<close>), signals, and lets the handles go to the pool.
\<close>

section \<open>The submissions of a frame\<close>

text \<open>The handles a call gives to the strategy: those of an accepted call, in order.\<close>

definition call_handles ::
  "(nat \<Rightarrow> 'c) \<Rightarrow> (nat \<Rightarrow> pool_fns) \<Rightarrow> (nat \<Rightarrow> anti_lag option) \<Rightarrow> ('c submit list \<Rightarrow> vk_result) \<Rightarrow> 'c submit list
     \<Rightarrow> queue_ctx \<Rightarrow> handle list" where
  "call_handles mk fns al driver sus q =
     (case wrap_submits mk fns 0 (zip sus (inject_mask q al sus)) (q_pool q) of
        Inr (Wrapped ws, _) \<Rightarrow> if driver (map fst ws) = SUCCESS then List.map_filter snd ws else []
      | _ \<Rightarrow> [])"

text \<open>What happens to the queue while the frame is recorded: submit calls and turns of the reaper.\<close>

datatype 'c frame_op =
    FSubmit "nat \<Rightarrow> pool_fns" "nat \<Rightarrow> anti_lag option" "'c submit list \<Rightarrow> vk_result" "'c submit list"
  | FReap

fun submit_frame :: "(nat \<Rightarrow> 'c) \<Rightarrow> 'c frame_op list \<Rightarrow> queue_ctx \<Rightarrow> counters \<Rightarrow> panic + handle list \<times> queue_ctx \<times> counters" where
  "submit_frame mk [] q c = Inr ([], q, c)"
| "submit_frame mk (FSubmit fns al driver sus # ops) q c =
     (case submit_body mk fns al driver sus q c of
        Inl e \<Rightarrow> Inl e
      | Inr (r, handed, q', c') \<Rightarrow>
          (case submit_frame mk ops q' c' of
             Inl e \<Rightarrow> Inl e
           | Inr (hs, q'', c'') \<Rightarrow> Inr (call_handles mk fns al driver sus q @ hs, q'', c'')))"
| "submit_frame mk (FReap # ops) q c =
     (case expiring (q_pool q) of
        [] \<Rightarrow> submit_frame mk ops q c
      | item # rest \<Rightarrow>
          (case process_expiring item ((q_pool q)\<lparr>expiring := rest\<rparr>) of
             Inl e \<Rightarrow> Inl e
           | Inr p \<Rightarrow> submit_frame mk ops (q\<lparr>q_pool := p\<rparr>) c))"

definition op_of_frame :: "pool_fns set \<Rightarrow> u64 \<Rightarrow> 'c frame_op \<Rightarrow> bool" where
  "op_of_frame D pid op \<longleftrightarrow>
     (case op of FSubmit fns al driver sus \<Rightarrow> range fns \<subseteq> D \<and> list_all (\<lambda>su. su_present_id su = Some pid) sus | FReap \<Rightarrow> True)"

definition submitted :: "handle \<Rightarrow> handle" where
  "submitted h = h\<lparr>was_submitted := True\<rparr>"

text \<open>The handles a queue holds for a present id.\<close>

definition slot_handles :: "'h submission_span option \<Rightarrow> 'h list" where
  "slot_handles slot = (case slot of None \<Rightarrow> [] | Some s \<Rightarrow> span_handles s)"

lemma submitted_fields [simp]:
  "chunk_idx (submitted h) = chunk_idx h" "query_index (submitted h) = query_index h"
  by (simp_all add: submitted_def)

lemma slot_of_frame: "fold extend_or_init (h # hs) None = Some \<lparr>span_head = h, span_tail = (if hs = [] then None else Some (last hs))\<rparr>"
  by (rule span_of_Cons [unfolded span_of_def])

lemma pool_steps_mono: "pool_steps D s t \<Longrightarrow> D \<subseteq> E \<Longrightarrow> pool_steps E s t"
proof (induction rule: pool_steps.induct)
  case (more s t u)
  from more(2,4) have "pool_step E t u" by cases (auto intro: pool_step.intros)
  then show ?case using more pool_steps.more by blast
qed (rule pool_steps.none)

section \<open>What the queue holds\<close>

text \<open>One more handle: it is marked, and becomes the head or the tail of the span, whose old tail goes.\<close>

lemma extend_steps:
  "pool_steps D (pool_at p (held @ slot_handles slot @ h # hs) r)
     (pool_at (fold handle_drop (replaced_tail slot) p) (held @ slot_handles (extend_or_init (submitted h) slot) @ hs) r)"
proof -
  let ?xs = "held @ slot_handles slot"
  have mark: "pool_steps D (pool_at p (?xs @ h # hs) r) (pool_at p (?xs @ submitted h # hs) r)"
    using pool_step.submitted [of "length ?xs" "pool_at p (?xs @ h # hs) r" D] pool_steps_one
    by (simp add: pool_at_def submitted_def nth_append list_update_append)
  show ?thesis
  proof (cases "replaced_tail slot")
    case Nil
    then have "slot_handles (extend_or_init (submitted h) slot) = slot_handles slot @ [submitted h]"
      by (auto simp: replaced_tail_def slot_handles_def span_handles_def extend_or_init_def span_new_def span_extend_def split: option.splits)
    then show ?thesis using mark Nil by simp
  next
    case (Cons t ts)
    then obtain s where s: "slot = Some s" "span_tail s = Some t" "ts = []"
      by (auto simp: replaced_tail_def span_handles_def split: option.splits)
    have "pool_step D (pool_at p (?xs @ submitted h # hs) r) (pool_at (handle_drop t p) (held @ span_head s # submitted h # hs) r)"
      using pool_step.dropped [of "pool_at p (?xs @ submitted h # hs) r" "held @ [span_head s]" t "submitted h # hs" D] s
      by (simp add: pool_at_def slot_handles_def span_handles_def)
    moreover have "slot_handles (extend_or_init (submitted h) slot) = [span_head s, submitted h]"
      using s by (simp add: slot_handles_def span_handles_def extend_or_init_def span_extend_def)
    ultimately show ?thesis using pool_steps_trans [OF pool_steps_one mark] Cons s(3) by simp
  qed
qed

definition room_for :: "nat \<Rightarrow> 'h ll2_queue \<Rightarrow> bool" where
  "room_for n l \<longleftrightarrow> length (stale_present_ids l) + n \<le> MAX_TRACKED_PRESENTS"

definition frame_added :: "u64 \<Rightarrow> handle list \<Rightarrow> handle ll2_queue \<Rightarrow> handle ll2_queue" where
  "frame_added pid hs l = l\<lparr>submissions := (submissions l)(pid := fold extend_or_init (map submitted hs) (submissions l pid)),
     stale_present_ids := stale_present_ids l @ replicate (length hs) pid\<rparr>"

lemma frame_added_Nil [simp]: "frame_added pid [] l = l"
  by (simp add: frame_added_def)

lemma frame_added_append: "frame_added pid hs' (frame_added pid hs l) = frame_added pid (hs @ hs') l"
  by (simp add: frame_added_def replicate_add)

lemma frame_added_one:
  assumes "pid \<noteq> 0" and "room_for 1 l"
  shows "strategy_notify_submit (Some pid) (h\<lparr>was_submitted := True\<rparr>) (LowLatency2Q l)
    = (LowLatency2Q (frame_added pid [h] l), replaced_tail (submissions l pid))"
  using assms
  by (simp add: strategy_notify_submit_def ll2_notify_submit_def ll2_released_def Let_def frame_added_def room_for_def submitted_def)

lemma notify_frame:
  assumes "list_all (\<lambda>x. su_present_id (fst x) = Some pid) xs" and "pid \<noteq> 0"
    and "q_strategy q = LowLatency2Q l" and "room_for (length (given xs)) l" and "notify_submits xs q n = (q', n')"
  shows "\<exists>p. q' = q\<lparr>q_strategy := LowLatency2Q (frame_added pid (map snd (given xs)) l), q_pool := p\<rparr>
    \<and> pool_steps D (pool_at (q_pool q) (held @ slot_handles (submissions l pid) @ map snd (given xs)) r)
        (pool_at p (held @ slot_handles (submissions (frame_added pid (map snd (given xs)) l) pid)) r)"
  using assms
proof (induction xs q n arbitrary: l rule: notify_submits.induct)
  case (1 q n)
  then show ?case by (auto simp: pool_steps.none intro!: exI [of _ "q_pool q"])
next
  case (2 su rest q n)
  then show ?case by simp
next
  case (3 su h rest q n)
  let ?slot = "submissions l pid" and ?l = "frame_added pid [h] l"
  let ?p = "fold handle_drop (replaced_tail ?slot) (q_pool q)"
  let ?q = "q\<lparr>q_strategy := LowLatency2Q ?l, q_pool := ?p\<rparr>"
  have su: "su_present_id su = Some pid" and room: "room_for 1 l" using "3.prems"(1,4) by (simp_all add: room_for_def)
  have sn: "strategy_notify_submit (su_present_id su) (h\<lparr>was_submitted := True\<rparr>) (q_strategy q) = (LowLatency2Q ?l, replaced_tail ?slot)"
    using frame_added_one [OF "3.prems"(2) room] su "3.prems"(3) by simp
  have roomy: "room_for (length (given rest)) ?l" using "3.prems"(4) by (simp add: room_for_def frame_added_def)
  have "list_all (\<lambda>x. su_present_id (fst x) = Some pid) rest" "notify_submits rest ?q (n + 1) = (q', n')"
    using "3.prems"(1,5) sn by simp_all
  from "3.IH" [OF sn [symmetric], of ?l] this "3.prems"(2) roomy obtain p where
    p: "q' = ?q\<lparr>q_strategy := LowLatency2Q (frame_added pid (map snd (given rest)) ?l), q_pool := p\<rparr>"
      "pool_steps D (pool_at ?p (held @ slot_handles (submissions ?l pid) @ map snd (given rest)) r)
        (pool_at p (held @ slot_handles (submissions (frame_added pid (map snd (given rest)) ?l) pid)) r)"
    by auto
  have "slot_handles (submissions ?l pid) = slot_handles (extend_or_init (submitted h) ?slot)" by (simp add: frame_added_def)
  then have "pool_steps D (pool_at (q_pool q) (held @ slot_handles ?slot @ h # map snd (given rest)) r)
      (pool_at ?p (held @ slot_handles (submissions ?l pid) @ map snd (given rest)) r)"
    using extend_steps [of D "q_pool q" held ?slot h "map snd (given rest)" r] by simp
  then show ?case
    using p pool_steps_trans frame_added_append [of pid "map snd (given rest)" "[h]" l] by (intro exI [of _ p]) auto
qed

section \<open>A frame of calls\<close>

lemma wrap_nothing:
  "list_all (\<lambda>x. \<not> snd x) xs \<Longrightarrow> wrap_submits mk fns k xs p = Inr (Wrapped (map (\<lambda>x. (fst x, None)) xs), p)"
  by (induction xs) auto

lemma wrap_then_drop:
  assumes "wrap_submits mk fns 0 xs p = Inr (res, p')" and "range fns \<subseteq> D"
  shows "pool_steps D (pool_at p held r) (pool_at (fold handle_drop (handles_of res) p') held r)"
  using pool_steps_trans [OF drop_steps pool_steps_mono [OF wrap_steps [OF assms(1)] assms(2)]] .

text \<open>A call either leaves the strategy alone, or gives it the handles, in order.\<close>

lemma call_outcome [consumes 3, case_names nothing given]:
  fixes mk :: "nat \<Rightarrow> 'c"
  assumes call: "submit_body mk fns al driver sus q c = Inr (r, handed, q', c')" and hs: "call_handles mk fns al driver sus q = hs"
    and D: "range fns \<subseteq> D"
  obtains p where "hs = []" "q' = q\<lparr>q_pool := p\<rparr>" "\<And>held rp. pool_steps D (pool_at (q_pool q) held rp) (pool_at p held rp)"
  | ws :: "('c submit \<times> handle option) list" and p n where "length ws = length sus" "hs = map snd (given (zip sus (map snd ws)))"
      "notify_submits (zip sus (map snd ws)) (q\<lparr>q_pool := p\<rparr>) 0 = (q', n)"
      "\<And>held rp. pool_steps D (pool_at (q_pool q) held rp) (pool_at p (held @ hs) rp)"
  using call
proof (cases rule: submit_body_cases)
  case plain
  have "list_all (\<lambda>x. \<not> snd x) (zip sus (inject_mask q al sus))"
    using plain(5) by (auto simp: list_all_length)
  then have "hs = []"
    using hs wrap_nothing [of "zip sus (inject_mask q al sus)" mk fns 0 "q_pool q"] by (simp add: call_handles_def map_filter_def split: if_splits)
  then show ?thesis using that(1) [of "q_pool q"] plain(3) by (simp add: pool_steps.none)
next
  case (refused gs p)
  then have "hs = []" using hs by (simp add: call_handles_def)
  then show ?thesis
    using that(1) [of "fold handle_drop gs p"] wrap_then_drop [OF refused(1) D] refused(4) by (simp add: handles_of_def)
next
  case (failed ws p)
  then have "hs = []" using hs by (simp add: call_handles_def)
  then show ?thesis
    using that(1) [of "fold handle_drop (List.map_filter snd ws) p"] wrap_then_drop [OF failed(1) D] failed(5) by (simp add: handles_of_def)
next
  case (accepted ws p n)
  have len: "length ws = length sus" using wrapped_handed [OF accepted(1)] by simp
  have "hs = List.map_filter snd ws" using hs accepted(1-4) by (simp add: call_handles_def)
  then have given: "hs = map snd (given (zip sus (map snd ws)))" using given_handles [OF len] by simp
  have "pool_steps D (pool_at (q_pool q) held rp) (pool_at p (held @ hs) rp)" for held rp
    using pool_steps_mono [OF wrap_steps [OF accepted(1), of held rp] D] given given_handles [OF len] by (simp add: handles_of_def)
  then show ?thesis using that(2) [OF len given accepted(5)] by blast
qed

lemma call_frame:
  assumes call: "submit_body mk fns al driver sus q c = Inr (r, handed, q', c')" and hs: "call_handles mk fns al driver sus q = hs"
    and op: "op_of_frame D pid (FSubmit fns al driver sus)" and pid: "pid \<noteq> 0"
    and l: "q_strategy q = LowLatency2Q l" "room_for (length hs) l"
  shows "\<exists>p. q' = q\<lparr>q_strategy := LowLatency2Q (frame_added pid hs l), q_pool := p\<rparr>
    \<and> pool_steps D (pool_at (q_pool q) (held @ slot_handles (submissions l pid)) rp)
        (pool_at p (held @ slot_handles (submissions (frame_added pid hs l) pid)) rp)"
proof -
  have "range fns \<subseteq> D" using op by (simp add: op_of_frame_def)
  from call hs this show ?thesis
  proof (cases rule: call_outcome)
    case (nothing p)
    then show ?thesis using l(1) by (intro exI [of _ p]) simp
  next
    case (given ws p n)
    let ?xs = "zip sus (map snd ws)"
    have pids: "list_all (\<lambda>x. su_present_id (fst x) = Some pid) ?xs"
      using op by (auto simp: op_of_frame_def list_all_iff dest: set_zip_leftD)
    have "room_for (length (Submit.given ?xs)) l" using l(2) given(2) by simp
    from notify_frame [OF pids pid _ this given(3), of D held rp] l(1) given(2)
    obtain p' where "q' = q\<lparr>q_strategy := LowLatency2Q (frame_added pid hs l), q_pool := p'\<rparr>"
        "pool_steps D (pool_at p (held @ slot_handles (submissions l pid) @ hs) rp)
          (pool_at p' (held @ slot_handles (submissions (frame_added pid hs l) pid)) rp)" by auto
    then show ?thesis using pool_steps_trans given(4) [of "held @ slot_handles (submissions l pid)" rp] by fastforce
  qed
qed

definition frame_size :: "'c frame_op list \<Rightarrow> nat" where
  "frame_size ops = sum_list (map (\<lambda>op. case op of FSubmit _ _ _ sus \<Rightarrow> length sus | FReap \<Rightarrow> 0) ops)"

lemma length_handles: "length (List.map_filter f xs) \<le> length xs"
  by (induction xs) (auto simp: List.map_filter_simps split: option.split)

lemma call_handles_length: "length (call_handles mk fns al driver sus q) \<le> length sus"
proof (cases "wrap_submits mk fns 0 (zip sus (inject_mask q al sus)) (q_pool q)")
  case (Inr x)
  show ?thesis
  proof (cases "fst x")
    case (Wrapped ws)
    then have "wrap_submits mk fns 0 (zip sus (inject_mask q al sus)) (q_pool q) = Inr (Wrapped ws, snd x)" using Inr by (cases x) simp
    then have "length ws = length sus" using wrapped_handed by (metis length_mask)
    then show ?thesis using length_handles [of snd ws] Inr Wrapped by (cases x) (simp add: call_handles_def)
  qed (use Inr in \<open>cases x; simp add: call_handles_def\<close>)
qed (simp add: call_handles_def)

lemma reap_steps:
  assumes "pool_inv (pool_at p xs None)" and "expiring p = item # rest"
  obtains p' where "process_expiring item (p\<lparr>expiring := rest\<rparr>) = Inr p'" "pool_steps D (pool_at p xs None) (pool_at p' xs None)"
proof -
  let ?t = "pool_at (p\<lparr>expiring := rest\<rparr>) xs (Some item)"
  have pop: "pool_step D (pool_at p xs None) ?t"
    using pool_step.popped [of "pool_at p xs None" item rest D] assms(2) by (simp add: pool_at_def)
  have "pool_inv ?t" using pool_steps_keep [OF pool_steps_one [OF pop] assms(1)] by (simp add: keeps_ledger_def)
  then obtain p' where p': "process_expiring item (p\<lparr>expiring := rest\<rparr>) = Inr p'"
    using process_expiring_no_panic [of ?t item] by (cases "process_expiring item (p\<lparr>expiring := rest\<rparr>)") (auto simp: pool_at_def)
  then have "pool_step D ?t (pool_at p' xs None)"
    using pool_step.reaped [of ?t item p' D] by (simp add: pool_at_def)
  then show ?thesis using that p' pop pool_steps_trans pool_steps_one by blast
qed

lemma submit_frame_ok:
  assumes "list_all (op_of_frame D pid) ops" and "pid \<noteq> 0" and "q_strategy q = LowLatency2Q l" and "room_for (frame_size ops) l"
    and "pool_inv (pool_at (q_pool q) (held @ slot_handles (submissions l pid)) None)"
  shows "\<exists>hs p c'. submit_frame mk ops q c = Inr (hs, q\<lparr>q_strategy := LowLatency2Q (frame_added pid hs l), q_pool := p\<rparr>, c')
    \<and> length hs \<le> frame_size ops
    \<and> pool_steps D (pool_at (q_pool q) (held @ slot_handles (submissions l pid)) None)
        (pool_at p (held @ slot_handles (submissions (frame_added pid hs l) pid)) None)"
  using assms
proof (induction ops arbitrary: q l c)
  case Nil
  then show ?case by (intro exI [of _ "[]"] exI [of _ "q_pool q"] exI [of _ c]) (simp add: pool_steps.none)
next
  case (Cons op ops)
  have room: "room_for (frame_size ops) l" using Cons.prems(4) by (simp add: room_for_def frame_size_def)
  show ?case
  proof (cases op)
    case (FSubmit fns al driver sus)
    obtain r handed q1 c1 where call: "submit_body mk fns al driver sus q c = Inr (r, handed, q1, c1)"
      using submit_no_panic [OF Cons.prems(5), of mk fns al driver sus c] by (cases "submit_body mk fns al driver sus q c") (auto simp: prod_eq_iff)
    let ?hs = "call_handles mk fns al driver sus q" and ?l = "frame_added pid (call_handles mk fns al driver sus q) l"
    have n: "length ?hs \<le> length sus" by (rule call_handles_length)
    have size: "frame_size (op # ops) = length sus + frame_size ops" using FSubmit by (simp add: frame_size_def)
    have fits: "room_for (length ?hs) l" "room_for (frame_size ops) ?l"
      using Cons.prems(4) n size by (simp_all add: room_for_def frame_added_def)
    have o: "op_of_frame D pid (FSubmit fns al driver sus)" using Cons.prems(1) FSubmit by simp
    obtain p1 where p1: "q1 = q\<lparr>q_strategy := LowLatency2Q ?l, q_pool := p1\<rparr>"
        "pool_steps D (pool_at (q_pool q) (held @ slot_handles (submissions l pid)) None) (pool_at p1 (held @ slot_handles (submissions ?l pid)) None)"
      using call_frame [OF call refl o Cons.prems(2,3) fits(1), of held None] by blast
    have inv: "pool_inv (pool_at (q_pool q1) (held @ slot_handles (submissions ?l pid)) None)"
      using pool_steps_keep [OF p1(2) Cons.prems(5)] p1(1) by (simp add: keeps_ledger_def)
    obtain hs p c' where rest: "submit_frame mk ops q1 c1 = Inr (hs, q1\<lparr>q_strategy := LowLatency2Q (frame_added pid hs ?l), q_pool := p\<rparr>, c')"
        "length hs \<le> frame_size ops"
        "pool_steps D (pool_at p1 (held @ slot_handles (submissions ?l pid)) None) (pool_at p (held @ slot_handles (submissions (frame_added pid hs ?l) pid)) None)"
      using Cons.IH [OF _ Cons.prems(2) _ fits(2) inv, of c1] Cons.prems(1) p1(1) by auto
    then show ?thesis
      using FSubmit call p1 n size pool_steps_trans [OF rest(3) p1(2)]
      by (intro exI [of _ "?hs @ hs"] exI [of _ p] exI [of _ c']) (simp add: frame_added_append)
  next
    case FReap
    show ?thesis
    proof (cases "expiring (q_pool q)")
      case Nil
      then show ?thesis using Cons.IH [OF _ Cons.prems(2,3) room Cons.prems(5), of c] Cons.prems(1) FReap by (simp add: frame_size_def)
    next
      case (Cons item rest)
      let ?xs = "held @ slot_handles (submissions l pid)"
      obtain p1 where p1: "process_expiring item ((q_pool q)\<lparr>expiring := rest\<rparr>) = Inr p1"
          "pool_steps D (pool_at (q_pool q) ?xs None) (pool_at p1 ?xs None)"
        using reap_steps [OF Cons.prems(5) Cons] by blast
      then have "pool_inv (pool_at (q_pool (q\<lparr>q_pool := p1\<rparr>)) ?xs None)"
        using pool_steps_keep [OF p1(2) Cons.prems(5)] by (simp add: keeps_ledger_def)
      then show ?thesis
        using Cons.IH [of "q\<lparr>q_pool := p1\<rparr>" l c] Cons.prems(1-3) room Cons FReap p1 pool_steps_trans [OF _ p1(2)]
        by (fastforce simp: frame_size_def)
    qed
  qed
qed

section \<open>A present that finds one span\<close>

lemma no_present_work:
  "\<forall>q\<in>set qs. tracked_span pid q = None \<Longrightarrow>
     List.map_filter (\<lambda>(i, q). map_option (Pair i) (tracked_span pid q)) (numbered k qs) = []"
  by (induction qs arbitrary: k) (simp_all add: List.map_filter_simps)

lemma one_present_work:
  assumes "i < length qs" and "tracked_span pid (qs ! i) = Some s" and "\<forall>j<length qs. j \<noteq> i \<longrightarrow> tracked_span pid (qs ! j) = None"
  shows "List.map_filter (\<lambda>(i, q). map_option (Pair i) (tracked_span pid q)) (numbered k qs) = [(k + i, s)]"
  using assms
proof (induction qs arbitrary: i k)
  case (Cons q qs)
  show ?case
  proof (cases i)
    case 0
    have "\<forall>q\<in>set qs. tracked_span pid q = None"
      using Cons.prems(3) 0 by (fastforce simp: in_set_conv_nth)
    then show ?thesis using 0 Cons.prems(2) no_present_work by (simp add: List.map_filter_simps)
  next
    case (Suc i')
    have "tracked_span pid q = None" using Cons.prems(3) Suc by fastforce
    moreover have "\<forall>j<length qs. j \<noteq> i' \<longrightarrow> tracked_span pid (qs ! j) = None" using Cons.prems(3) Suc by fastforce
    ultimately show ?thesis using Cons.IH [of i' "Suc k"] Cons.prems(1,2) Suc by (simp add: List.map_filter_simps)
  qed
qed simp

section \<open>Present, sleep and round\<close>

lemma round_of_one_span:
  assumes inv: "history_inv (l2_markers (w_dev w))" and f: "frame_of (l2_markers (w_dev w)) pid = Some f"
    and clk: "\<forall>d n. \<exists>j\<ge>n. d \<le> clk j"
    and m: "l2_monitors (w_dev w) sw = Some m" "\<not> simulation_decoupled (mon_delay m)"
      "pending_signals m = [\<lparr>ps_signal = sg, ps_groups = [\<lparr>tg_present_id = pid, tg_spans = [x]\<rparr>]\<rparr>]"
    and x: "re_in_time env x" "re_times env x = Some (a, b)"
  shows "\<exists>w' m'. monitor_round clk env sw w = Some (Inr w') \<and> l2_monitors (w_dev w') sw = Some m' \<and> pending_signals m' = []
    \<and> pending_groups m' = pending_groups m \<and> w_sems w' = signal_semaphore sg (w_sems w) \<and> w_queues w' = drop_all [x] (w_queues w)
    \<and> frame_of (l2_markers (w_dev w')) pid = Some (f\<lparr>gpu_render_start_us := a div 1000, gpu_render_end_us := b div 1000\<rparr>)"
proof -
  obtain h where h: "record_widest pid a b (l2_markers (w_dev w)) = Inr h"
      "frame_of h pid = Some (f\<lparr>gpu_render_start_us := a div 1000, gpu_render_end_us := b div 1000\<rparr>)"
    using record_widest_ok [OF inv, of pid a b] f by (auto simp: op_effect_def)
  let ?d = "max (present_delay_ns m) (re_layer_delay env)"
  obtain r where r: "delay clk ?d (mon_delay m) (w_tick w) = Some r" using delay_total [OF clk] by blast
  obtain dc k where "r = Inr (dc, k)" using delay_coupled_ok [OF m(2) r] by auto
  then show ?thesis using m x h r by (simp add: monitor_round_def process_pending_def group_spans_def)
qed

lemma present_sleep_round:
  assumes inv: "history_inv (l2_markers (w_dev w))" and f: "frame_of (l2_markers (w_dev w)) pid = Some f"
    and clk: "\<forall>d n. \<exists>j\<ge>n. d \<le> clk j" and healthy: "healthy (w_sems w)"
    and m: "l2_monitors (w_dev w) sw = Some m" "\<not> simulation_decoupled (mon_delay m)" "requested m"
      "pending_signals m = []" "pending_groups m = []"
    and work: "present_work pid (w_queues w) = [x]"
    and x: "re_in_time env x" "re_times env x = Some (a, b)"
  shows "\<exists>w' m'. ll2_run clk [LPresent sw pid, LSleep sw sg, LRound env sw] w = Some (Inr w')
    \<and> l2_monitors (w_dev w') sw = Some m' \<and> pending_signals m' = [] \<and> pending_groups m' = []
    \<and> reached sg (w_sems w') \<and> w_queues w' = drop_all [x] (without_work pid (w_queues w))
    \<and> frame_of (l2_markers (w_dev w')) pid = Some (f\<lparr>gpu_render_start_us := a div 1000, gpu_render_end_us := b div 1000\<rparr>)"
proof -
  let ?g = "\<lparr>tg_present_id = pid, tg_spans = [x]\<rparr>"
  let ?m1 = "m\<lparr>pending_groups := [?g]\<rparr>"
  let ?w1 = "set_monitor sw (Some ?m1) (w\<lparr>w_queues := without_work pid (w_queues w)\<rparr>)"
  let ?m2 = "m\<lparr>pending_groups := [], pending_signals := [\<lparr>ps_signal = sg, ps_groups = [?g]\<rparr>]\<rparr>"
  let ?w2 = "set_monitor sw (Some ?m2) ?w1"
  have p: "ll2_op_step clk (LPresent sw pid) w = Some (Inr ?w1)"
    using m work by (simp add: ll2_op_step_def submit_swapchain_present_id_def take_work_spec Let_def attach_work_def)
  have s: "ll2_op_step clk (LSleep sw sg) ?w1 = Some (Inr ?w2)"
    using m by (simp add: ll2_op_step_def notify_latency_sleep_nv_def notify_semaphore_def Let_def)
  obtain w' m' where r: "monitor_round clk env sw ?w2 = Some (Inr w')" "l2_monitors (w_dev w') sw = Some m'" "pending_signals m' = []"
      "pending_groups m' = pending_groups ?m2" "w_sems w' = signal_semaphore sg (w_sems ?w2)" "w_queues w' = drop_all [x] (w_queues ?w2)"
      "frame_of (l2_markers (w_dev w')) pid = Some (f\<lparr>gpu_render_start_us := a div 1000, gpu_render_end_us := b div 1000\<rparr>)"
    using round_of_one_span [OF _ _ clk _ _ _ x, of ?w2 pid f sw ?m2 sg] inv f m by auto
  have "ll2_run clk [LPresent sw pid, LSleep sw sg, LRound env sw] w = Some (Inr w')"
    unfolding ll2_run.simps p s option.case sum.case using r(1) by (simp add: ll2_op_step_def)
  then show ?thesis using r signal_reaches healthy by (intro exI [of _ w'] exI [of _ m']) simp
qed

section \<open>What the worker reads\<close>

text \<open>
  The environment of a round, made of the pools and the clock: whether a span is complete by
  the deadline, as the bounded wait answers, and its times. A device without calibrated
  timestamps has no clock.
\<close>

definition read_env :: "pool_fns \<Rightarrow> device_clock option \<Rightarrow> (nat \<Rightarrow> u64) \<Rightarrow> u64 \<Rightarrow> u64 \<Rightarrow> queue_ctx list \<Rightarrow> round_env" where
  "read_env fns clock now deadline layer_delay qs =
     \<lparr>re_in_time = (\<lambda>(i, s).
        (case await_completed_until (\<lambda>_. has_completed (has_end fns (q_pool (qs ! i))) s) now deadline 0 of
           Some (r, _) \<Rightarrow> r | None \<Rightarrow> False)),
      re_times = (\<lambda>(i, s).
        (case clock of
           None \<Rightarrow> None
         | Some c \<Rightarrow> completion_times_ns (await_start_ns fns (q_pool (qs ! i)) (ticks_to_host_ns c))
                       (await_end_ns fns (q_pool (qs ! i)) (ticks_to_host_ns c)) s)),
      re_layer_delay = layer_delay\<rparr>"

text \<open>The GPU has written every query: the driver answers with the ticks, whether asked to wait or not.\<close>

definition gpu_wrote :: "(nat \<Rightarrow> nat \<Rightarrow> u64) \<Rightarrow> pool_fns \<Rightarrow> bool" where
  "gpu_wrote ticks fns \<longleftrightarrow> (\<forall>qp query block. get_query_pool_results fns qp query block = (SUCCESS, ticks qp query, 1))"

text \<open>The ticks at the beginning and at the end of the work a handle is around.\<close>

definition ticks_before :: "(nat \<Rightarrow> nat \<Rightarrow> u64) \<Rightarrow> pool_inner \<Rightarrow> handle \<Rightarrow> u64" where
  "ticks_before ticks p h = ticks (query_pool (chunks p ! chunk_idx h)) (query_index h)"

definition ticks_after :: "(nat \<Rightarrow> nat \<Rightarrow> u64) \<Rightarrow> pool_inner \<Rightarrow> handle \<Rightarrow> u64" where
  "ticks_after ticks p h = ticks (query_pool (chunks p ! chunk_idx h)) (query_index h + 1)"

lemma read_written:
  assumes "gpu_wrote ticks fns" and "chunk_idx (span_head s) < length (chunks (q_pool (qs ! i)))"
    and "chunk_idx (span_last s) < length (chunks (q_pool (qs ! i)))"
  shows "re_in_time (read_env fns (Some clock) now deadline d qs) (i, s)"
    and "re_times (read_env fns (Some clock) now deadline d qs) (i, s)
      = Some (ticks_to_host_ns clock (ticks_before ticks (q_pool (qs ! i)) (span_head s)),
              ticks_to_host_ns clock (ticks_after ticks (q_pool (qs ! i)) (span_last s)))"
  using assms
  by (simp_all add: read_env_def await_completed_until.simps has_completed_def has_end_def has_ticks_def query_pool_for_def
      gpu_wrote_def completion_times_ns_def await_start_ns_def await_end_ns_def await_ticks_def ticks_before_def ticks_after_def)

section \<open>From the submissions to the report\<close>

lemma drop_one_span:
  "i < length qs \<Longrightarrow> drop_all [(i, s)] qs = qs[i := (qs ! i)\<lparr>q_pool := fold handle_drop (span_handles s) (q_pool (qs ! i))\<rparr>]"
  by (simp add: drop_all_def drop_tagged_def drop_span_def)

lemma pools_without_work: "q_strategy q' = st \<Longrightarrow> map q_pool (without_work pid (qs[i := q'])) = (map q_pool qs)[i := q_pool q']"
  using take_one_spec by (simp add: without_work_def map_update o_def)

text \<open>The span of a frame with at least one handle, and the slots of its handles in the pool.\<close>

definition frame_span :: "handle list \<Rightarrow> handle submission_span" where
  "frame_span hs = \<lparr>span_head = submitted (hd hs), span_tail = (if tl hs = [] then None else Some (submitted (last hs)))\<rparr>"

lemma frame_span_slot:
  "hs \<noteq> [] \<Longrightarrow> submissions l pid = None \<Longrightarrow> submissions (frame_added pid hs l) pid = Some (frame_span hs)"
  using slot_of_frame [of "submitted (hd hs)" "map submitted (tl hs)"]
  by (cases hs) (simp_all add: frame_added_def frame_span_def last_map)

lemma frame_span_ends: "hs \<noteq> [] \<Longrightarrow> span_last (frame_span hs) = submitted (last hs) \<and> span_head (frame_span hs) = submitted (hd hs)"
  by (cases hs) (simp_all add: frame_span_def span_last_def)

lemma span_ends_held: "span_head s \<in> set (span_handles s)" "span_last s \<in> set (span_handles s)"
  by (simp_all add: span_handles_def span_last_def split: option.split)

lemma ticks_submitted [simp]: "ticks_before t p (submitted h) = ticks_before t p h" "ticks_after t p (submitted h) = ticks_after t p h"
  by (simp_all add: ticks_before_def ticks_after_def)

lemma frame_ends:
  assumes hs: "hs \<noteq> []" and q': "q' = q\<lparr>q_strategy := LowLatency2Q (frame_added pid hs l), q_pool := p\<rparr>"
    and queue: "i < length (w_queues w)" "w_queues w ! i = q" "\<not> is_out_of_band l" "submissions l pid = None"
    and others: "\<forall>j<length (w_queues w). j \<noteq> i \<longrightarrow> tracked_span pid (w_queues w ! j) = None"
    and inv: "pool_inv (pool_at p (held @ span_handles (frame_span hs)) None)"
    and frame: "history_inv (l2_markers (w_dev w))" "frame_of (l2_markers (w_dev w)) pid = Some f"
    and clk: "\<forall>d n. \<exists>j\<ge>n. d \<le> clk j" and healthy: "healthy (w_sems w)"
    and monitor: "l2_monitors (w_dev w) sw = Some m" "\<not> simulation_decoupled (mon_delay m)" "requested m"
      "pending_signals m = []" "pending_groups m = []"
    and gpu: "gpu_wrote ticks fns"
  shows "\<exists>w' m'. ll2_run clk [LPresent sw pid, LSleep sw sg, LRound (read_env fns (Some clock) now deadline d ((w_queues w)[i := q'])) sw]
        (w\<lparr>w_queues := (w_queues w)[i := q']\<rparr>) = Some (Inr w')
    \<and> reached sg (w_sems w')
    \<and> frame_of (l2_markers (w_dev w')) pid
        = Some (f\<lparr>gpu_render_start_us := ticks_to_host_ns clock (ticks_before ticks p (hd hs)) div 1000,
                  gpu_render_end_us := ticks_to_host_ns clock (ticks_after ticks p (last hs)) div 1000\<rparr>)
    \<and> l2_monitors (w_dev w') sw = Some m' \<and> pending_signals m' = [] \<and> pending_groups m' = []
    \<and> q_pool (w_queues w' ! i) = fold handle_drop (span_handles (frame_span hs)) p
    \<and> (\<forall>j<length (w_queues w). j \<noteq> i \<longrightarrow> q_pool (w_queues w' ! j) = q_pool (w_queues w ! j))"
proof -
  let ?qs = "(w_queues w)[i := q']" and ?s = "frame_span hs"
  let ?w = "w\<lparr>w_queues := ?qs\<rparr>" and ?env = "read_env fns (Some clock) now deadline d ((w_queues w)[i := q'])"
  have at_i: "?qs ! i = q'" using queue(1) by simp
  have "tracked_span pid (?qs ! i) = Some ?s"
    using at_i queue(3) frame_span_slot [OF hs queue(4)] by (simp add: q' tracked_span_def in_band_def span_at_def frame_added_def)
  then have work: "present_work pid (w_queues ?w) = [(i, ?s)]"
    using one_present_work [of i ?qs pid ?s 0] others queue(1) by (simp add: present_work_def)
  have "\<forall>h\<in>set (span_handles ?s). buffers_ok (chunks p) h" using inv by (simp add: pool_inv_def pool_at_def)
  then have idx: "chunk_idx (span_head ?s) < length (chunks (q_pool (?qs ! i)))" "chunk_idx (span_last ?s) < length (chunks (q_pool (?qs ! i)))"
    using span_ends_held [of ?s] at_i q' by (auto simp: buffers_ok_def)
  note x = read_written [OF gpu idx, of clock now deadline d]
  have frame': "history_inv (l2_markers (w_dev ?w))" "frame_of (l2_markers (w_dev ?w)) pid = Some f" using frame by simp_all
  have healthy': "healthy (w_sems ?w)" and monitor': "l2_monitors (w_dev ?w) sw = Some m" using healthy monitor by simp_all
  obtain w' m' where run: "ll2_run clk [LPresent sw pid, LSleep sw sg, LRound ?env sw] ?w = Some (Inr w')"
      "l2_monitors (w_dev w') sw = Some m'" "pending_signals m' = []" "pending_groups m' = []" "reached sg (w_sems w')"
      "w_queues w' = drop_all [(i, ?s)] (without_work pid ?qs)"
      "frame_of (l2_markers (w_dev w')) pid
        = Some (f\<lparr>gpu_render_start_us := ticks_to_host_ns clock (ticks_before ticks p (hd hs)) div 1000,
                  gpu_render_end_us := ticks_to_host_ns clock (ticks_after ticks p (last hs)) div 1000\<rparr>)"
    using present_sleep_round [OF frame' clk healthy' monitor' monitor(2-5) work x, of sg] at_i q' frame_span_ends [OF hs] by auto
  have len: "length (without_work pid ?qs) = length (w_queues w)" by (simp add: without_work_def)
  have pools: "q_pool (without_work pid ?qs ! j) = (if j = i then p else q_pool (w_queues w ! j))" if "j < length (w_queues w)" for j
    using arg_cong [OF pools_without_work [OF refl, of pid "w_queues w" i q'], of "\<lambda>xs. xs ! j"] that len q' by (simp add: nth_list_update)
  show ?thesis
    using run pools queue(1) len by (intro exI [of _ w'] exI [of _ m']) (simp add: drop_one_span)
qed


section \<open>A concrete frame\<close>

definition example_frame_world :: ll2_world where
  "example_frame_world = \<lparr>w_dev = \<lparr>l2_monitors = [5 \<mapsto> update_params True 0 (monitor_new False)],
       l2_markers = append_frame (frame_default 3) history_new\<rparr>,
     w_queues = [example_queue], w_sems = w_sems example_world, w_tick = 0\<rparr>"

definition example_clock :: device_clock where
  "example_clock = \<lparr>period_ns = 1, clock_anchor = \<lparr>host_ns = 5000000, device_ticks = 7000\<rparr>\<rparr>"

definition example_ops :: "nat frame_op list" where
  "example_ops = [FSubmit (\<lambda>_. good_fns) (\<lambda>_. None) (\<lambda>_. SUCCESS) [example_submit], FReap,
     FSubmit (\<lambda>_. good_fns) (\<lambda>_. None) (\<lambda>_. ERROR_UNKNOWN) [example_submit]]"

lemma example_time: "ticks_to_host_ns example_clock 7000 = 5000000"
proof -
  have d: "diff_ns example_clock 7000 = 0"
    using diff_ns_at_anchor [of example_clock] by (simp add: example_clock_def)
  have "uint (ticks_to_host_ns example_clock 7000) = uint (5000000 :: u64)"
    using ticks_to_host_value [of example_clock 7000] by (simp add: d) (simp add: example_clock_def)
  then show ?thesis by (simp only: word_uint_eq_iff)
qed

lemma accepted_call_handles:
  assumes "pool_inv (pool_at (q_pool q) held rp)" and "should_inject_for_submit q (al 0)"
  shows "call_handles mk (\<lambda>_. good_fns) al (\<lambda>_. SUCCESS) [su] q \<noteq> []"
proof -
  have m: "inject_mask q al [su] = [True]" using assms(2) by (simp add: inject_mask_def)
  obtain h p where "pool_acquire good_fns (q_pool q) = Inr (Some h, p)"
    using good_acquire [OF assms(1)] by (auto simp: pool_at_def)
  then show ?thesis by (simp add: call_handles_def m List.map_filter_simps)
qed


end
