(* ===== verification/AntiLagLife.thy ===== *)
theory AntiLagLife
  imports FrameLife
begin

text \<open>
  The life of a frame under the AMD anti-lag strategy, across the queues of a device: calls of
  \<open>vkQueueSubmit\<close> on any of them bracket submissions and grow the span of their queue
  (\<open>Submit\<close>, \<open>AntiLag\<close>), the reapers run in between (\<open>TimestampPool\<close>), and the update at the
  next input takes every span, waits for the GPU, paces the game (\<open>Delay\<close>) and lets the
  handles go to the pools they came from.
\<close>

section \<open>The submissions\<close>

text \<open>Submit calls and turns of the reapers, each on one queue of the device.\<close>

fun device_ops ::
  "(nat \<Rightarrow> 'c) \<Rightarrow> (nat \<times> 'c frame_op) list \<Rightarrow> queue_ctx list \<Rightarrow> counters
     \<Rightarrow> panic + (nat \<times> handle) list \<times> queue_ctx list \<times> counters" where
  "device_ops mk [] qs c = Inr ([], qs, c)"
| "device_ops mk ((i, op) # ops) qs c =
     (case submit_frame mk [op] (qs ! i) c of
        Inl e \<Rightarrow> Inl e
      | Inr (hs, q, c') \<Rightarrow>
          (case device_ops mk ops (qs[i := q]) c' of
             Inl e \<Rightarrow> Inl e
           | Inr (rest, qs', c'') \<Rightarrow> Inr (map (Pair i) hs @ rest, qs', c'')))"

definition on_queue :: "nat \<Rightarrow> (nat \<times> 'h) list \<Rightarrow> 'h list" where
  "on_queue i hs = map snd (filter (\<lambda>x. fst x = i) hs)"

text \<open>The span of a queue; only a queue with the anti-lag strategy has one.\<close>

definition al_slot :: "queue_ctx \<Rightarrow> handle submission_span option" where
  "al_slot q = (case q_strategy q of AntiLagQ slot \<Rightarrow> slot | LowLatency2Q _ \<Rightarrow> None)"

definition op_ok :: "pool_fns set \<Rightarrow> nat \<Rightarrow> nat \<times> 'c frame_op \<Rightarrow> bool" where
  "op_ok D n x \<longleftrightarrow> fst x < n \<and> (case snd x of FSubmit fns al driver sus \<Rightarrow> range fns \<subseteq> D | FReap \<Rightarrow> True)"

section \<open>The update of a device\<close>

text \<open>A span with the queue it belongs to, as the update collects them.\<close>

definition tag :: "nat \<Rightarrow> 'h submission_span \<Rightarrow> (nat \<times> 'h) submission_span" where
  "tag i s = \<lparr>span_head = (i, span_head s), span_tail = map_option (Pair i) (span_tail s)\<rparr>"

definition untag :: "(nat \<times> 'h) submission_span \<Rightarrow> 'h submission_span" where
  "untag s = \<lparr>span_head = snd (span_head s), span_tail = map_option snd (span_tail s)\<rparr>"

text \<open>
  A blocking read of the end of a handle: \<open>returns\<close> says whether the driver ever answers for a
  query, that is whether the GPU gets there.
\<close>

definition blocking_end :: "(nat \<Rightarrow> nat \<Rightarrow> bool) \<Rightarrow> pool_fns \<Rightarrow> device_clock \<Rightarrow> queue_ctx list \<Rightarrow> nat \<times> handle \<Rightarrow> u64 option option" where
  "blocking_end returns fns clock qs x =
     (case query_pool_for (q_pool (qs ! fst x)) (chunk_idx (snd x)) of
        None \<Rightarrow> Some None
      | Some qp \<Rightarrow>
          if returns qp (query_index (snd x) + 1)
          then Some (await_end_ns fns (q_pool (qs ! fst x)) (ticks_to_host_ns clock) (snd x)) else None)"

text \<open>The whole call: the strategy's update, then the collected spans go out of scope.\<close>

definition device_update ::
  "(nat \<Rightarrow> u64) \<Rightarrow> (nat \<Rightarrow> nat \<Rightarrow> bool) \<Rightarrow> pool_fns \<Rightarrow> device_clock option \<Rightarrow> u64 \<Rightarrow> anti_lag_data
     \<Rightarrow> anti_lag \<Rightarrow> queue_ctx list \<Rightarrow> nat \<Rightarrow> (panic + anti_lag \<times> queue_ctx list \<times> nat) option" where
  "device_update clk returns fns clock cap d s qs k =
     (case notify_update clk (clock \<noteq> None)
             (\<lambda>sp. case clock of None \<Rightarrow> True | Some c \<Rightarrow> await_completed (blocking_end returns fns c qs) sp \<noteq> None)
             cap d (s, map (\<lambda>i. map_option (tag i) (al_slot (qs ! i))) [0..<length qs], k) of
        None \<Rightarrow> None
      | Some (Inl e) \<Rightarrow> Some (Inl e)
      | Some (Inr (work, s', slots, k')) \<Rightarrow>
          Some (Inr (s',
            map (\<lambda>i. (qs ! i)\<lparr>q_strategy := AntiLagQ (map_option untag (slots ! i)),
                q_pool := fold handle_drop (on_queue i (concat (map span_handles work))) (q_pool (qs ! i))\<rparr>) [0..<length qs],
            k')))"

section \<open>One queue\<close>

definition span_added :: "handle list \<Rightarrow> handle submission_span option \<Rightarrow> handle submission_span option" where
  "span_added hs slot = fold extend_or_init (map submitted hs) slot"

lemma span_added_simps [simp]: "span_added [] slot = slot" "span_added (h # hs) slot = span_added hs (extend_or_init (submitted h) slot)"
  by (simp_all add: span_added_def)

lemma span_added_append: "span_added (hs @ hs') slot = span_added hs' (span_added hs slot)"
  by (simp add: span_added_def)

lemma notify_anti_lag:
  assumes "q_strategy q = AntiLagQ slot" and "notify_submits xs q n = (q', n')"
  shows "\<exists>p. q' = q\<lparr>q_strategy := AntiLagQ (span_added (map snd (given xs)) slot), q_pool := p\<rparr>
    \<and> pool_steps D (pool_at (q_pool q) (held @ slot_handles slot @ map snd (given xs)) r)
        (pool_at p (held @ slot_handles (span_added (map snd (given xs)) slot)) r)"
  using assms
proof (induction xs q n arbitrary: slot rule: notify_submits.induct)
  case (1 q n)
  then show ?case by (auto simp: pool_steps.none intro!: exI [of _ "q_pool q"])
next
  case (2 su rest q n)
  then show ?case by simp
next
  case (3 su h rest q n)
  let ?slot = "extend_or_init (submitted h) slot" and ?p = "fold handle_drop (replaced_tail slot) (q_pool q)"
  let ?q = "q\<lparr>q_strategy := AntiLagQ ?slot, q_pool := ?p\<rparr>"
  have sn: "strategy_notify_submit (su_present_id su) (h\<lparr>was_submitted := True\<rparr>) (q_strategy q) = (AntiLagQ ?slot, replaced_tail slot)"
    using "3.prems"(1) by (simp add: strategy_notify_submit_def al_notify_submit_def submitted_def)
  have "notify_submits rest ?q (n + 1) = (q', n')" using "3.prems"(2) sn by simp
  from "3.IH" [OF sn [symmetric] _ this] obtain p where
    p: "q' = ?q\<lparr>q_strategy := AntiLagQ (span_added (map snd (given rest)) ?slot), q_pool := p\<rparr>"
      "pool_steps D (pool_at ?p (held @ slot_handles ?slot @ map snd (given rest)) r)
        (pool_at p (held @ slot_handles (span_added (map snd (given rest)) ?slot)) r)" by auto
  show ?case
    using p pool_steps_trans [OF p(2) extend_steps [of D "q_pool q" held slot h "map snd (given rest)" r]]
    by (intro exI [of _ p]) simp
qed

lemma call_anti_lag:
  assumes call: "submit_body mk fns al driver sus q c = Inr (r, handed, q', c')" and hs: "call_handles mk fns al driver sus q = hs"
    and D: "range fns \<subseteq> D" and slot: "q_strategy q = AntiLagQ slot"
  shows "\<exists>p. q' = q\<lparr>q_strategy := AntiLagQ (span_added hs slot), q_pool := p\<rparr>
    \<and> pool_steps D (pool_at (q_pool q) (held @ slot_handles slot) rp) (pool_at p (held @ slot_handles (span_added hs slot)) rp)"
  using call hs D
proof (cases rule: call_outcome)
  case (nothing p)
  then show ?thesis using slot by (intro exI [of _ p]) simp
next
  case (given ws p n)
  from notify_anti_lag [OF _ given(3), of slot D held rp] slot given(2)
  obtain p' where "q' = q\<lparr>q_strategy := AntiLagQ (span_added hs slot), q_pool := p'\<rparr>"
      "pool_steps D (pool_at p (held @ slot_handles slot @ hs) rp) (pool_at p' (held @ slot_handles (span_added hs slot)) rp)" by auto
  then show ?thesis using pool_steps_trans given(4) [of "held @ slot_handles slot" rp] by fastforce
qed

lemma op_anti_lag:
  assumes op: "op_ok D n (i, op)" and slot: "q_strategy q = AntiLagQ slot"
    and inv: "pool_inv (pool_at (q_pool q) (held @ slot_handles slot) None)"
  shows "\<exists>hs p c'. submit_frame mk [op] q c = Inr (hs, q\<lparr>q_strategy := AntiLagQ (span_added hs slot), q_pool := p\<rparr>, c')
    \<and> pool_steps D (pool_at (q_pool q) (held @ slot_handles slot) None) (pool_at p (held @ slot_handles (span_added hs slot)) None)"
proof (cases op)
  case (FSubmit fns al driver sus)
  obtain r handed q1 c1 where call: "submit_body mk fns al driver sus q c = Inr (r, handed, q1, c1)"
    using submit_no_panic [OF inv, of mk fns al driver sus c] by (cases "submit_body mk fns al driver sus q c") (auto simp: prod_eq_iff)
  have "range fns \<subseteq> D" using op FSubmit by (simp add: op_ok_def)
  from call_anti_lag [OF call refl this slot, of held None] show ?thesis
    using FSubmit call by (intro exI [of _ "call_handles mk fns al driver sus q"]) auto
next
  case FReap
  show ?thesis
  proof (cases "expiring (q_pool q)")
    case Nil
    then show ?thesis using FReap slot
      by (intro exI [of _ "[]"] exI [of _ "q_pool q"] exI [of _ c]) (simp add: pool_steps.none)
  next
    case (Cons item rest)
    obtain p where "process_expiring item ((q_pool q)\<lparr>expiring := rest\<rparr>) = Inr p"
        "pool_steps D (pool_at (q_pool q) (held @ slot_handles slot) None) (pool_at p (held @ slot_handles slot) None)"
      using reap_steps [OF inv Cons] by blast
    then show ?thesis
      using Cons FReap slot by (intro exI [of _ "[]"] exI [of _ p] exI [of _ c]) simp
  qed
qed

section \<open>All queues\<close>

definition anti_lag_queues :: "queue_ctx list \<Rightarrow> bool" where
  "anti_lag_queues qs \<longleftrightarrow> (\<forall>q\<in>set qs. q_strategy q = AntiLagQ (al_slot q))"

text \<open>What each pool may have gone through, while \<open>held i\<close> are the other handles of queue \<open>i\<close>.\<close>

definition pools_reach :: "pool_fns set \<Rightarrow> (nat \<Rightarrow> handle list) \<Rightarrow> queue_ctx list \<Rightarrow> queue_ctx list \<Rightarrow> bool" where
  "pools_reach D held qs qs' \<longleftrightarrow> length qs' = length qs
     \<and> (\<forall>i<length qs. pool_steps D (pool_at (q_pool (qs ! i)) (held i @ slot_handles (al_slot (qs ! i))) None)
           (pool_at (q_pool (qs' ! i)) (held i @ slot_handles (al_slot (qs' ! i))) None))"

definition pools_ok :: "(nat \<Rightarrow> handle list) \<Rightarrow> queue_ctx list \<Rightarrow> bool" where
  "pools_ok held qs \<longleftrightarrow> (\<forall>i<length qs. pool_inv (pool_at (q_pool (qs ! i)) (held i @ slot_handles (al_slot (qs ! i))) None))"

lemma pools_reach_refl: "pools_reach D held qs qs"
  by (simp add: pools_reach_def pool_steps.none)

lemma pools_reach_trans: "pools_reach D held qs qs' \<Longrightarrow> pools_reach D held qs' qs'' \<Longrightarrow> pools_reach D held qs qs''"
  unfolding pools_reach_def using pool_steps_trans by fastforce

lemma pools_reach_ok: "pools_reach D held qs qs' \<Longrightarrow> pools_ok held qs \<Longrightarrow> pools_ok held qs'"
  using pool_steps_keep by (fastforce simp: pools_reach_def pools_ok_def keeps_ledger_def)

lemma on_queue_simps [simp]:
  "on_queue i [] = []" "on_queue i (x # xs) = (if fst x = i then snd x # on_queue i xs else on_queue i xs)"
  "on_queue i (xs @ ys) = on_queue i xs @ on_queue i ys"
  "on_queue i (map (Pair j) hs) = (if j = i then hs else [])"
  by (simp_all add: on_queue_def o_def)

lemma al_slot_update [simp]: "al_slot (q\<lparr>q_strategy := AntiLagQ slot, q_pool := p\<rparr>) = slot"
  by (simp add: al_slot_def)

lemma device_ops_ok:
  assumes "list_all (op_ok D (length qs)) ops" and "anti_lag_queues qs" and "pools_ok held qs"
  shows "\<exists>hs qs' c'. device_ops mk ops qs c = Inr (hs, qs', c') \<and> anti_lag_queues qs' \<and> pools_reach D held qs qs'
    \<and> (\<forall>i<length qs. al_slot (qs' ! i) = span_added (on_queue i hs) (al_slot (qs ! i)))"
  using assms
proof (induction ops arbitrary: qs c)
  case Nil
  then show ?case using pools_reach_refl by simp
next
  case (Cons x ops)
  obtain i op where x: "x = (i, op)" by (cases x)
  have i: "i < length qs" using Cons.prems(1) x by (simp add: op_ok_def)
  have slot: "q_strategy (qs ! i) = AntiLagQ (al_slot (qs ! i))" using Cons.prems(2) i by (simp add: anti_lag_queues_def)
  have "pool_inv (pool_at (q_pool (qs ! i)) (held i @ slot_handles (al_slot (qs ! i))) None)"
    using Cons.prems(3) i by (simp add: pools_ok_def)
  from op_anti_lag [OF _ slot this, of D "length qs" i op mk c] Cons.prems(1) x obtain hs p c1 where
    s: "submit_frame mk [op] (qs ! i) c = Inr (hs, (qs ! i)\<lparr>q_strategy := AntiLagQ (span_added hs (al_slot (qs ! i))), q_pool := p\<rparr>, c1)"
      "pool_steps D (pool_at (q_pool (qs ! i)) (held i @ slot_handles (al_slot (qs ! i))) None)
        (pool_at p (held i @ slot_handles (span_added hs (al_slot (qs ! i)))) None)" by auto
  let ?qs = "qs[i := (qs ! i)\<lparr>q_strategy := AntiLagQ (span_added hs (al_slot (qs ! i))), q_pool := p\<rparr>]"
  have reach: "pools_reach D held qs ?qs"
    using s(2) i by (auto simp: pools_reach_def nth_list_update pool_steps.none)
  have "\<forall>q\<in>set ?qs. q_strategy q = AntiLagQ (al_slot q)"
    using Cons.prems(2) set_update_subset_insert by (fastforce simp: anti_lag_queues_def)
  then have "anti_lag_queues ?qs" by (simp add: anti_lag_queues_def)
  from Cons.IH [OF _ this pools_reach_ok [OF reach Cons.prems(3)], of c1] Cons.prems(1) obtain rest qs' c' where
    r: "device_ops mk ops ?qs c1 = Inr (rest, qs', c')" "anti_lag_queues qs'" "pools_reach D held ?qs qs'"
      "\<forall>j<length ?qs. al_slot (qs' ! j) = span_added (on_queue j rest) (al_slot (?qs ! j))" by auto
  have "al_slot (qs' ! j) = span_added (on_queue j (map (Pair i) hs @ rest)) (al_slot (qs ! j))" if "j < length qs" for j
    using r(4) that i by (auto simp: span_added_append nth_list_update)
  then show ?case
    using s(1) r(1,2) pools_reach_trans [OF reach r(3)] x by (intro exI [of _ "map (Pair i) hs @ rest"]) simp
qed

section \<open>The update\<close>

lemma untag_tag [simp]: "untag (tag i s) = s"
  by (simp add: untag_def tag_def option.map_comp o_def option.map_ident)

lemma map_filter_Some: "List.map_filter id (map (\<lambda>i. map_option (f i) (g i)) is) = List.map_filter (\<lambda>i. map_option (f i) (g i)) is"
  by (induction "is") (auto simp: List.map_filter_simps split: option.split)

lemma span_handles_tag: "span_handles (tag i s) = map (Pair i) (span_handles s)"
  by (simp add: span_handles_def tag_def split: option.split)

lemma span_last_tag: "span_last (tag i s) = (i, span_last s)"
  by (simp add: span_last_def tag_def split: option.split)

text \<open>The handles the update collects from a queue are those of its span.\<close>

lemma on_queue_collected:
  "distinct is \<Longrightarrow> on_queue j (concat (map span_handles (List.map_filter (\<lambda>i. map_option (tag i) (g i)) is)))
     = (if j \<in> set is then slot_handles (g j) else [])"
  by (induction "is") (auto simp: List.map_filter_simps span_handles_tag slot_handles_def split: option.split)

lemma collected_wait:
  "list_all P (List.map_filter (\<lambda>i. map_option (tag i) (g i)) [0..<n]) \<longleftrightarrow> (\<forall>i<n. \<forall>sp. g i = Some sp \<longrightarrow> P (tag i sp))"
  by (force simp: list_all_iff map_filter_def)

text \<open>The end of a handle that a pool holds is read as soon as the GPU has written it, and not before.\<close>

lemma await_held:
  assumes "chunk_idx (span_last sp) < length (chunks (q_pool (qs ! i)))"
  shows "await_completed (blocking_end returns fns clock qs) (tag i sp) \<noteq> None
    \<longleftrightarrow> returns (query_pool (chunks (q_pool (qs ! i)) ! chunk_idx (span_last sp))) (query_index (span_last sp) + 1)"
  using assms by (simp add: await_completed_def span_last_tag blocking_end_def query_pool_for_def)

text \<open>The GPU never gets to the end of the last bracketed submission of some queue.\<close>

definition gpu_stuck :: "(nat \<Rightarrow> nat \<Rightarrow> bool) \<Rightarrow> queue_ctx list \<Rightarrow> bool" where
  "gpu_stuck returns qs \<longleftrightarrow>
     list_ex (\<lambda>q. case al_slot q of
         None \<Rightarrow> False
       | Some sp \<Rightarrow> \<not> returns (query_pool (chunks (q_pool q) ! chunk_idx (span_last sp))) (query_index (span_last sp) + 1)) qs"

lemma gpu_stuck_at:
  "gpu_stuck returns qs \<longleftrightarrow> (\<exists>i<length qs. \<exists>sp. al_slot (qs ! i) = Some sp
      \<and> \<not> returns (query_pool (chunks (q_pool (qs ! i)) ! chunk_idx (span_last sp))) (query_index (span_last sp) + 1))"
  by (fastforce simp: gpu_stuck_def list_ex_iff in_set_conv_nth split: option.splits)

lemma update_outcome:
  assumes hist: "history_inv (al_markers s)" and input: "takes_input d"
    and clk: "\<forall>d n. \<exists>j\<ge>n. d \<le> clk j" and coupled: "\<not> simulation_decoupled (al_delay (al_state s))"
    and queues: "anti_lag_queues qs" and pools: "pools_ok held qs"
  shows "gpu_stuck returns qs \<Longrightarrow> device_update clk returns fns (Some clock) cap d s qs k = None"
    and "\<not> gpu_stuck returns qs \<Longrightarrow> \<exists>s' qs' k'. device_update clk returns fns (Some clock) cap d s qs k = Some (Inr (s', qs', k'))
      \<and> (\<exists>k1. delay clk (max (compute_min_delay_ns (al_max_fps d)) cap) (al_delay (al_state s)) k1 = Some (Inr (al_delay (al_state s'), k')))
      \<and> anti_lag_queues qs' \<and> (\<forall>i<length qs. al_slot (qs' ! i) = None) \<and> pools_reach D held qs qs'"
proof -
  let ?m = "max (compute_min_delay_ns (al_max_fps d)) cap"
  let ?slots = "map (\<lambda>i. map_option (tag i) (al_slot (qs ! i))) [0..<length qs]"
  let ?work = "List.map_filter (\<lambda>i. map_option (tag i) (al_slot (qs ! i))) [0..<length qs]"
  let ?waits = "\<lambda>sp. await_completed (blocking_end returns fns clock qs) sp \<noteq> None"
  obtain s1 k1 where a: "anti_lag_stage clk cap d s k = Inr (Some ?m, s1, k1)" "al_delay (al_state s1) = al_delay (al_state s)"
    using anti_lag_stage_ok [OF hist, of clk cap d k] input by (auto simp: takes_input_def)
  obtain r where r: "delay clk ?m (al_delay (al_state s)) k1 = Some r" using delay_total [OF clk] by blast
  then obtain dc k2 where dc: "r = Inr (dc, k2)" using delay_coupled_ok [OF coupled r] by auto
  have held: "chunk_idx (span_last sp) < length (chunks (q_pool (qs ! i)))" if "i < length qs" "al_slot (qs ! i) = Some sp" for i sp
  proof -
    have "pool_inv (pool_at (q_pool (qs ! i)) (held i @ span_handles sp) None)"
      using pools that by (auto simp: pools_ok_def slot_handles_def)
    then show ?thesis using span_ends_held(2) [of sp] by (auto simp: pool_inv_def pool_at_def buffers_ok_def)
  qed
  have waits: "list_all ?waits ?work \<longleftrightarrow> \<not> gpu_stuck returns qs"
    using await_held [OF held, of _ _ returns fns clock] by (auto simp: collected_wait gpu_stuck_at)
  have stolen: "steal_spans ?slots = (?work, map (\<lambda>_. None) [0..<length qs])"
    by (simp add: steal_spans_all map_filter_Some o_def)
  have n: "notify_update clk True ?waits cap d (s, ?slots, k)
      = (if gpu_stuck returns qs then None else Some (Inr (?work, s1\<lparr>al_state := (al_state s1)\<lparr>al_delay := dc\<rparr>\<rparr>, map (\<lambda>_. None) [0..<length qs], k2)))"
    using a r dc waits by (simp add: notify_update_def stolen)
  show "device_update clk returns fns (Some clock) cap d s qs k = None" if "gpu_stuck returns qs"
    using n that by (simp add: device_update_def)
  let ?qs = "map (\<lambda>i. (qs ! i)\<lparr>q_strategy := AntiLagQ None, q_pool := fold handle_drop (slot_handles (al_slot (qs ! i))) (q_pool (qs ! i))\<rparr>) [0..<length qs]"
  have dropped: "on_queue i (concat (map span_handles ?work)) = slot_handles (al_slot (qs ! i))" if "i < length qs" for i
    using on_queue_collected [of "[0..<length qs]" i "\<lambda>i. al_slot (qs ! i)"] that by simp
  have reach: "pools_reach D held qs ?qs"
    using drop_steps by (simp add: pools_reach_def slot_handles_def [of None])
  have "device_update clk returns fns (Some clock) cap d s qs k = Some (Inr (s1\<lparr>al_state := (al_state s1)\<lparr>al_delay := dc\<rparr>\<rparr>, ?qs, k2))" if "\<not> gpu_stuck returns qs"
    using n that dropped by (simp add: device_update_def cong: map_cong)
  then show "\<exists>s' qs' k'. device_update clk returns fns (Some clock) cap d s qs k = Some (Inr (s', qs', k'))
      \<and> (\<exists>k1. delay clk ?m (al_delay (al_state s)) k1 = Some (Inr (al_delay (al_state s'), k')))
      \<and> anti_lag_queues qs' \<and> (\<forall>i<length qs. al_slot (qs' ! i) = None) \<and> pools_reach D held qs qs'" if "\<not> gpu_stuck returns qs"
    using that reach r dc
    by (intro exI [of _ "s1\<lparr>al_state := (al_state s1)\<lparr>al_delay := dc\<rparr>\<rparr>"] exI [of _ ?qs] exI [of _ k2]) (auto simp: anti_lag_queues_def)
qed


definition example_anti_lag :: anti_lag where
  "example_anti_lag = (anti_lag_new False)\<lparr>al_state :=
     anti_lag_state.frame_index_update (\<lambda>_. Some 1) ((al_state (anti_lag_new False))\<lparr>al_enabled := True\<rparr>)\<rparr>"

definition example_al_queue :: queue_ctx where
  "example_al_queue = example_queue\<lparr>q_expose_reflex := False, q_strategy := AntiLagQ None\<rparr>"

definition example_input :: anti_lag_data where
  "example_input = \<lparr>al_mode = 1, al_max_fps = 60, al_presentation = Some \<lparr>pi_stage = ANTI_LAG_STAGE_INPUT, pi_frame_index = 2\<rparr>\<rparr>"


end
