(* ===== verification/Present.thy ===== *)
theory Present
  imports LatencyDevice PresentWait Contexts
begin

text \<open>
  The entry points of a device in use: \<open>vkQueuePresentKHR\<close> (\<open>src/entrypoints/queue.rs\<close>), the
  swapchain entry points (\<open>src/entrypoints/swapchain.rs\<close>) and those of the two latency
  extensions (\<open>src/entrypoints/latency.rs\<close>), with \<open>forward_present\<close> of
  \<open>src/strategy/low_latency2/mod.rs\<close>. The driver's answers and the clock readings are
  parameters; a handle the registry does not know is \<open>None\<close>.
\<close>

section \<open>State of a device in use\<close>

datatype strategy_state = NoStrategy | AntiLagS anti_lag | LowLatency2S ll2_device

text \<open>The display worker of the device with what is queued for it; a device has at most one.\<close>

datatype display_state = NoDisplay | KhrWait "present_pending list" | GoogleWait google_inner

record device_state =
  ds_ctx :: device_ctx
  ds_config :: layer_config
  ds_decoupled :: bool
  ds_strategy :: strategy_state
  ds_display :: display_state
  ds_queues :: "queue_ctx list"
  ds_sems :: semaphores
  ds_tick :: nat
  ds_telemetry :: telemetry

definition ll2_view :: "ll2_device \<Rightarrow> device_state \<Rightarrow> ll2_world" where
  "ll2_view d s = \<lparr>w_dev = d, w_queues = ds_queues s, w_sems = ds_sems s, w_tick = ds_tick s\<rparr>"

definition ll2_put :: "ll2_world \<Rightarrow> device_state \<Rightarrow> device_state" where
  "ll2_put w s = s\<lparr>ds_strategy := LowLatency2S (w_dev w), ds_queues := w_queues w, ds_sems := w_sems w, ds_tick := w_tick w\<rparr>"

definition with_ll2 :: "(ll2_world \<Rightarrow> ll2_world) \<Rightarrow> device_state \<Rightarrow> device_state" where
  "with_ll2 f s = (case ds_strategy s of LowLatency2S d \<Rightarrow> ll2_put (f (ll2_view d s)) s | _ \<Rightarrow> s)"

section \<open>Presenting\<close>

text \<open>
  \<open>VkPresentInfoKHR\<close>: its swapchains, and the ids of a \<open>VkPresentIdKHR\<close> in its chain, as many
  as that structure counts; \<open>None\<close> is no such structure or a null pointer to the ids.
\<close>

record present_info =
  pr_swapchains :: "nat list"
  pr_ids :: "u64 list option"

definition first_present_id :: "present_info \<Rightarrow> u64" where
  "first_present_id info = (case pr_ids info of None \<Rightarrow> 0 | Some [] \<Rightarrow> 0 | Some (x # xs) \<Rightarrow> x)"

text \<open>The id of the i-th swapchain; \<open>None\<close> is the panic of an index out of range.\<close>

definition pid_at :: "u64 list option \<Rightarrow> nat \<Rightarrow> u64 option" where
  "pid_at ids i = (case ids of None \<Rightarrow> Some 0 | Some s \<Rightarrow> if i < length s then Some (s ! i) else None)"

fun forward_from :: "u64 list option \<Rightarrow> nat \<Rightarrow> nat list \<Rightarrow> ll2_world \<Rightarrow> panic + ll2_world" where
  "forward_from ids i [] w = Inr w"
| "forward_from ids i (sw # sws) w =
     (case pid_at ids i of
        None \<Rightarrow> Inl Panic
      | Some pid \<Rightarrow> forward_from ids (Suc i) sws (submit_swapchain_present_id sw pid w))"

definition forward_present :: "present_info \<Rightarrow> device_state \<Rightarrow> panic + device_state" where
  "forward_present info s =
     (case ds_strategy s of
        LowLatency2S d \<Rightarrow>
          (case forward_from (pr_ids info) 0 (pr_swapchains info) (ll2_view d s) of
             Inl e \<Rightarrow> Inl e
           | Inr w \<Rightarrow> Inr (ll2_put w s))
      | _ \<Rightarrow> Inr s)"

definition display_enqueue :: "nat \<Rightarrow> u64 \<Rightarrow> display_state \<Rightarrow> display_state" where
  "display_enqueue sw pid d =
     (case d of
        NoDisplay \<Rightarrow> NoDisplay
      | KhrWait q \<Rightarrow> KhrWait (present_wait_enqueue sw pid q)
      | GoogleWait g \<Rightarrow> GoogleWait (google_enqueue sw pid g))"

fun enqueue_from :: "u64 list option \<Rightarrow> nat \<Rightarrow> nat list \<Rightarrow> display_state \<Rightarrow> panic + display_state" where
  "enqueue_from ids i [] d = Inr d"
| "enqueue_from ids i (sw # sws) d =
     (case pid_at ids i of
        None \<Rightarrow> Inl Panic
      | Some pid \<Rightarrow> enqueue_from ids (Suc i) sws (if pid = 0 then d else display_enqueue sw pid d))"

definition enqueue_presents :: "present_info \<Rightarrow> display_state \<Rightarrow> panic + display_state" where
  "enqueue_presents info d =
     (if d = NoDisplay then Inr d else enqueue_from (pr_ids info) 0 (pr_swapchains info) d)"

text \<open>The record sent to the telemetry socket.\<close>

definition present_record :: "u64 \<Rightarrow> u64 \<Rightarrow> present_info option \<Rightarrow> device_state \<Rightarrow> frame_record" where
  "present_record key now info s =
     \<lparr>frame_record.host_ns = now, frame_record.frame_index = counters.frames (counters (ds_telemetry s)), queue_id = key,
       fr_present_id = (case info of None \<Rightarrow> 0 | Some i \<Rightarrow> first_present_id i),
       latency_us = (case ds_strategy s of LowLatency2S d \<Rightarrow> latest_latency_us (l2_markers d) | _ \<Rightarrow> 0)\<rparr>"

definition count_present :: "u64 \<Rightarrow> u64 \<Rightarrow> present_info option \<Rightarrow> device_state \<Rightarrow> device_state" where
  "count_present key now info s =
     (let s1 = s\<lparr>ds_telemetry := (ds_telemetry s)\<lparr>counters := inc_present (counters (ds_telemetry s))\<rparr>\<rparr> in
      if socket_enabled (ds_telemetry s1)
      then s1\<lparr>ds_telemetry := push_record (present_record key now info s1) (ds_telemetry s1)\<rparr>
      else s1)"

text \<open>
  \<open>r\<close> is the driver's answer to the present, \<open>refresh\<close> its answer to the refresh-cycle query,
  if it is made. The queue's own \<open>notify_present\<close> does nothing in both strategies.
\<close>

definition queue_present_khr ::
  "vk_result \<Rightarrow> u64 \<Rightarrow> u64 \<Rightarrow> vk_result \<times> u64 \<Rightarrow> present_info option \<Rightarrow> device_state option \<Rightarrow> panic + vk_result \<times> device_state option" where
  "queue_present_khr r key now refresh info qctx =
     (case qctx of
        None \<Rightarrow> Inr (ERROR_INITIALIZATION_FAILED, None)
      | Some s \<Rightarrow>
          if dt_queue_present_khr (d_fns (ds_ctx s)) = None then Inr (ERROR_INITIALIZATION_FAILED, Some s)
          else
            (let s1 = count_present key now info s in
             case info of
               None \<Rightarrow> Inr (r, Some s1)
             | Some i \<Rightarrow>
                 (case forward_present i s1 of
                    Inl e \<Rightarrow> Inl e
                  | Inr s2 \<Rightarrow>
                      (let s3 = (if pr_swapchains i \<noteq> [] then s2\<lparr>ds_ctx := ensure_vrr_target (ds_config s2) refresh (ds_ctx s2)\<rparr> else s2)
                       in case enqueue_presents i (ds_display s3) of
                            Inl e \<Rightarrow> Inl e
                          | Inr d \<Rightarrow> Inr (r, Some (s3\<lparr>ds_display := d\<rparr>))))))"

section \<open>Swapchains\<close>

definition PRESENT_MODE_FIFO_LATEST_READY :: int where "PRESENT_MODE_FIFO_LATEST_READY = 1000361000"

text \<open>Whether creating a swapchain with the mode gives the warning.\<close>

definition warn_if_fifo_latest_ready :: "int \<Rightarrow> layer_config \<Rightarrow> bool" where
  "warn_if_fifo_latest_ready present_mode cfg =
     (if present_mode \<noteq> PRESENT_MODE_FIFO_LATEST_READY then False
      else if fps_cap cfg = 0 \<and> \<not> vrr_enabled cfg then False
      else True)"

text \<open>
  \<open>info\<close> is \<open>None\<close> for a null create info, otherwise the flag of a
  \<open>VkSwapchainLatencyCreateInfoNV\<close> in its chain, if any; \<open>r\<close> and \<open>sw\<close> are the driver's answer.
\<close>

definition create_swapchain_khr ::
  "vk_result \<Rightarrow> nat \<Rightarrow> bool option option \<Rightarrow> device_state option \<Rightarrow> vk_result \<times> device_state option" where
  "create_swapchain_khr r sw info dev =
     (case dev of
        None \<Rightarrow> (ERROR_INITIALIZATION_FAILED, None)
      | Some s \<Rightarrow>
          if dt_create_swapchain_khr (d_fns (ds_ctx s)) = None then (ERROR_INITIALIZATION_FAILED, Some s)
          else if r \<noteq> SUCCESS then (r, Some s)
          else
            (case info of
               None \<Rightarrow> (r, Some s)
             | Some slci \<Rightarrow> (r, Some (with_ll2 (ll2_notify_create_swapchain (ds_decoupled s) slci sw) s))))"

text \<open>The flag says whether the driver's \<open>vkDestroySwapchainKHR\<close> is called.\<close>

definition destroy_swapchain_khr :: "nat \<Rightarrow> device_state option \<Rightarrow> bool \<times> device_state option" where
  "destroy_swapchain_khr sw dev =
     (case dev of
        None \<Rightarrow> (False, None)
      | Some s \<Rightarrow>
          (let s1 = with_ll2 (ll2_notify_destroy_swapchain sw) s;
               s2 = s1\<lparr>ds_display := (case ds_display s1 of GoogleWait g \<Rightarrow> GoogleWait (forget_swapchain sw g) | d \<Rightarrow> d)\<rparr>
           in (dt_destroy_swapchain_khr (d_fns (ds_ctx s2)) \<noteq> None, Some s2)))"

text \<open>Both acquire entry points; \<open>entry\<close> reads the one that is called from the table.\<close>

definition count_acquire :: "device_state \<Rightarrow> device_state" where
  "count_acquire s = s\<lparr>ds_telemetry := (ds_telemetry s)\<lparr>counters :=
     (counters (ds_telemetry s))\<lparr>acquires := acquires (counters (ds_telemetry s)) + 1\<rparr>\<rparr>\<rparr>"

definition acquire_image :: "(device_table \<Rightarrow> nat option) \<Rightarrow> vk_result \<Rightarrow> device_state option \<Rightarrow> vk_result \<times> device_state option" where
  "acquire_image entry r dev =
     (case dev of
        None \<Rightarrow> (ERROR_INITIALIZATION_FAILED, None)
      | Some s \<Rightarrow>
          if entry (d_fns (ds_ctx s)) = None then (ERROR_INITIALIZATION_FAILED, Some s)
          else (r, Some (count_acquire s)))"

definition acquire_next_image_khr :: "vk_result \<Rightarrow> device_state option \<Rightarrow> vk_result \<times> device_state option" where
  "acquire_next_image_khr = acquire_image dt_acquire_next_image_khr"

definition acquire_next_image2_khr :: "vk_result \<Rightarrow> device_state option \<Rightarrow> vk_result \<times> device_state option" where
  "acquire_next_image2_khr = acquire_image dt_acquire_next_image2_khr"

section \<open>The latency extensions\<close>

definition latency_sleep_nv :: "nat \<Rightarrow> semaphore_signal option \<Rightarrow> device_state option \<Rightarrow> vk_result \<times> device_state option" where
  "latency_sleep_nv sw info dev =
     (case dev of
        None \<Rightarrow> (SUCCESS, None)
      | Some s \<Rightarrow>
          (SUCCESS, Some (case info of None \<Rightarrow> s | Some signal \<Rightarrow> with_ll2 (notify_latency_sleep_nv sw signal) s)))"

definition set_latency_sleep_mode_nv :: "nat \<Rightarrow> (bool \<times> u32) option \<Rightarrow> device_state option \<Rightarrow> vk_result \<times> device_state option" where
  "set_latency_sleep_mode_nv sw info dev =
     (case dev of
        None \<Rightarrow> (SUCCESS, None)
      | Some s \<Rightarrow> (SUCCESS, Some (with_ll2 (notify_latency_sleep_mode sw info) s)))"

definition set_latency_marker_nv :: "u64 \<Rightarrow> (u64 \<times> latency_marker) option \<Rightarrow> device_state option \<Rightarrow> panic + device_state option" where
  "set_latency_marker_nv now info dev =
     (case dev of
        None \<Rightarrow> Inr None
      | Some s \<Rightarrow>
          (case info of
             None \<Rightarrow> Inr (Some s)
           | Some (pid, marker) \<Rightarrow>
               (case ds_strategy s of
                  LowLatency2S d \<Rightarrow>
                    (case record_marker now pid marker (l2_markers d) of
                       Inl e \<Rightarrow> Inl e
                     | Inr h \<Rightarrow> Inr (Some (s\<lparr>ds_strategy := LowLatency2S (d\<lparr>l2_markers := h\<rparr>)\<rparr>)))
                | _ \<Rightarrow> Inr (Some s))))"

definition get_latency_timings_nv :: "timing_info option \<Rightarrow> device_state option \<Rightarrow> timing_info option" where
  "get_latency_timings_nv timings dev =
     (case timings of
        None \<Rightarrow> None
      | Some t \<Rightarrow>
          (case dev of
             None \<Rightarrow> Some (t\<lparr>timing_count := 0\<rparr>)
           | Some s \<Rightarrow>
               (case ds_strategy s of
                  LowLatency2S d \<Rightarrow> Some (fill t (l2_markers d))
                | _ \<Rightarrow> Some (t\<lparr>timing_count := 0\<rparr>))))"

definition queue_notify_out_of_band_nv :: "queue_ctx option \<Rightarrow> queue_ctx option" where
  "queue_notify_out_of_band_nv qctx =
     (case qctx of
        None \<Rightarrow> None
      | Some q \<Rightarrow>
          (case q_strategy q of
             LowLatency2Q l \<Rightarrow> Some (q\<lparr>q_strategy := LowLatency2Q (mark_out_of_band l)\<rparr>)
           | AntiLagQ slot \<Rightarrow> Some q))"

text \<open>
  \<open>vkAntiLagUpdateAMD\<close>: the spans of the anti-lag queues go to the update; those it takes are
  dropped when it is done. \<open>clk\<close>, \<open>has_clock\<close> and \<open>wait_ends\<close> are as in \<open>notify_update\<close>.
\<close>

fun anti_lag_slots :: "queue_ctx list \<Rightarrow> handle anti_lag_queue list" where
  "anti_lag_slots [] = []"
| "anti_lag_slots (q # qs) =
     (case q_strategy q of AntiLagQ slot \<Rightarrow> slot # anti_lag_slots qs | LowLatency2Q l \<Rightarrow> anti_lag_slots qs)"

definition put_slot :: "handle anti_lag_queue \<Rightarrow> handle anti_lag_queue \<Rightarrow> queue_ctx \<Rightarrow> queue_ctx" where
  "put_slot old new q =
     (case (old, new) of
        (Some sp, None) \<Rightarrow> drop_span sp (q\<lparr>q_strategy := AntiLagQ None\<rparr>)
      | _ \<Rightarrow> q\<lparr>q_strategy := AntiLagQ new\<rparr>)"

fun put_slots :: "handle anti_lag_queue list \<Rightarrow> queue_ctx list \<Rightarrow> queue_ctx list" where
  "put_slots [] qs = qs"
| "put_slots (x # xs) [] = []"
| "put_slots (x # xs) (q # qs) =
     (case q_strategy q of
        AntiLagQ slot \<Rightarrow> put_slot slot x q # put_slots xs qs
      | LowLatency2Q l \<Rightarrow> q # put_slots (x # xs) qs)"

definition anti_lag_update_amd ::
  "(nat \<Rightarrow> u64) \<Rightarrow> (handle submission_span \<Rightarrow> bool) \<Rightarrow> anti_lag_data option \<Rightarrow> device_state option \<Rightarrow> (panic + device_state option) option" where
  "anti_lag_update_amd clk wait_ends data dev =
     (case dev of
        None \<Rightarrow> Some (Inr None)
      | Some s \<Rightarrow>
          (case data of
             None \<Rightarrow> Some (Inr (Some s))
           | Some d \<Rightarrow>
               (case ds_strategy s of
                  AntiLagS al \<Rightarrow>
                    (case notify_update clk (d_clock (ds_ctx s) \<noteq> None) wait_ends (effective_min_delay_ns (ds_config s) (ds_ctx s)) d
                            (al, anti_lag_slots (ds_queues s), ds_tick s) of
                       None \<Rightarrow> None
                     | Some (Inl e) \<Rightarrow> Some (Inl e)
                     | Some (Inr (work, al', slots, k)) \<Rightarrow>
                         Some (Inr (Some (s\<lparr>ds_strategy := AntiLagS al', ds_queues := put_slots slots (ds_queues s), ds_tick := k\<rparr>))))
                | _ \<Rightarrow> Some (Inr (Some s)))))"

section \<open>Presenting, as a whole\<close>

text \<open>There is an id for each swapchain of the present.\<close>

definition ids_cover :: "present_info \<Rightarrow> bool" where
  "ids_cover i = (case pr_ids i of None \<Rightarrow> True | Some s \<Rightarrow> length (pr_swapchains i) \<le> length s)"

definition id_of :: "u64 list option \<Rightarrow> nat \<Rightarrow> u64" where
  "id_of ids k = (case ids of None \<Rightarrow> 0 | Some s \<Rightarrow> s ! k)"

definition present_pairs :: "present_info \<Rightarrow> (nat \<times> u64) list" where
  "present_pairs i = zip (pr_swapchains i) (map (id_of (pr_ids i)) [0..<length (pr_swapchains i)])"

definition covers_from :: "u64 list option \<Rightarrow> nat \<Rightarrow> nat list \<Rightarrow> bool" where
  "covers_from ids i sws \<longleftrightarrow> sws = [] \<or> (case ids of None \<Rightarrow> True | Some s \<Rightarrow> i + length sws \<le> length s)"

definition pairs_from :: "u64 list option \<Rightarrow> nat \<Rightarrow> nat list \<Rightarrow> (nat \<times> u64) list" where
  "pairs_from ids i sws = zip sws (map (id_of ids) [i..<i + length sws])"

lemma pairs_from_Cons: "pairs_from ids i (sw # sws) = (sw, id_of ids i) # pairs_from ids (Suc i) sws"
  by (simp add: pairs_from_def upt_conv_Cons del: upt_Suc)

lemma covers_from_Cons: "covers_from ids i (sw # sws) \<longleftrightarrow> pid_at ids i = Some (id_of ids i) \<and> covers_from ids (Suc i) sws"
  by (cases sws) (auto simp: covers_from_def pid_at_def id_of_def split: option.split)

lemma pid_at_cases: "pid_at ids i = None \<or> pid_at ids i = Some (id_of ids i)"
  by (auto simp: pid_at_def id_of_def split: option.split)

lemma forward_from_eq:
  "forward_from ids i sws w =
     (if covers_from ids i sws then Inr (fold (\<lambda>(sw, pid). submit_swapchain_present_id sw pid) (pairs_from ids i sws) w) else Inl Panic)"
proof (induction sws arbitrary: i w)
  case (Cons sw sws)
  then show ?case
    using pid_at_cases [of ids i] by (auto simp: covers_from_Cons pairs_from_Cons)
qed (simp add: covers_from_def pairs_from_def)

lemma enqueue_from_eq:
  "enqueue_from ids i sws d =
     (if covers_from ids i sws then Inr (fold (\<lambda>(sw, pid) d. if pid = 0 then d else display_enqueue sw pid d) (pairs_from ids i sws) d)
      else Inl Panic)"
proof (induction sws arbitrary: i d)
  case (Cons sw sws)
  then show ?case
    using pid_at_cases [of ids i] by (auto simp: covers_from_Cons pairs_from_Cons)
qed (simp add: covers_from_def pairs_from_def)

lemma covers_from_0: "covers_from (pr_ids i) 0 (pr_swapchains i) = ids_cover i"
  by (auto simp: covers_from_def ids_cover_def split: option.split)

lemma pairs_from_0: "pairs_from (pr_ids i) 0 (pr_swapchains i) = present_pairs i"
  by (simp add: pairs_from_def present_pairs_def)

definition enqueue_pairs :: "(nat \<times> u64) list \<Rightarrow> display_state \<Rightarrow> display_state" where
  "enqueue_pairs = fold (\<lambda>(sw, pid) d. if pid = 0 then d else display_enqueue sw pid d)"

definition submit_pairs :: "(nat \<times> u64) list \<Rightarrow> ll2_world \<Rightarrow> ll2_world" where
  "submit_pairs = fold (\<lambda>(sw, pid). submit_swapchain_present_id sw pid)"

lemma forward_present_eq:
  "forward_present i s =
     (if ids_cover i \<or> (\<forall>d. ds_strategy s \<noteq> LowLatency2S d) then Inr (with_ll2 (submit_pairs (present_pairs i)) s) else Inl Panic)"
  by (simp add: forward_present_def forward_from_eq covers_from_0 pairs_from_0 with_ll2_def submit_pairs_def split: strategy_state.split)

lemma enqueue_pairs_NoDisplay [simp]: "enqueue_pairs ps NoDisplay = NoDisplay"
  by (induction ps) (auto simp: enqueue_pairs_def display_enqueue_def)

lemma enqueue_presents_eq:
  "enqueue_presents i d = (if ids_cover i \<or> d = NoDisplay then Inr (enqueue_pairs (present_pairs i) d) else Inl Panic)"
  by (cases "d = NoDisplay") (simp_all add: enqueue_presents_def enqueue_from_eq covers_from_0 pairs_from_0 enqueue_pairs_def [symmetric])

lemma ll2_put_fields [simp]:
  "ds_ctx (ll2_put w s) = ds_ctx s" "ds_config (ll2_put w s) = ds_config s" "ds_display (ll2_put w s) = ds_display s"
  "ds_telemetry (ll2_put w s) = ds_telemetry s" "ds_decoupled (ll2_put w s) = ds_decoupled s"
  by (simp_all add: ll2_put_def)

lemma with_ll2_fields [simp]:
  "ds_ctx (with_ll2 f s) = ds_ctx s" "ds_config (with_ll2 f s) = ds_config s" "ds_display (with_ll2 f s) = ds_display s"
  "ds_telemetry (with_ll2 f s) = ds_telemetry s"
  by (simp_all add: with_ll2_def split: strategy_state.split)

lemma count_present_fields [simp]:
  "ds_ctx (count_present k n i s) = ds_ctx s" "ds_display (count_present k n i s) = ds_display s"
  "ds_strategy (count_present k n i s) = ds_strategy s" "ds_config (count_present k n i s) = ds_config s"
  "ds_queues (count_present k n i s) = ds_queues s" "ds_sems (count_present k n i s) = ds_sems s"
  "counters (ds_telemetry (count_present k n i s)) = inc_present (counters (ds_telemetry s))"
  by (simp_all add: count_present_def Let_def push_record_def split: option.split)

text \<open>The state after a present that returns.\<close>

definition after_present :: "u64 \<Rightarrow> u64 \<Rightarrow> vk_result \<times> u64 \<Rightarrow> present_info \<Rightarrow> device_state \<Rightarrow> device_state" where
  "after_present key now refresh i s =
     (with_ll2 (submit_pairs (present_pairs i)) (count_present key now (Some i) s))
       \<lparr>ds_ctx := (if pr_swapchains i = [] then ds_ctx s else ensure_vrr_target (ds_config s) refresh (ds_ctx s)),
        ds_display := enqueue_pairs (present_pairs i) (ds_display s)\<rparr>"

text \<open>The layer has work that reads the present ids.\<close>

definition reads_ids :: "device_state \<Rightarrow> bool" where
  "reads_ids s \<longleftrightarrow> (\<exists>d. ds_strategy s = LowLatency2S d) \<or> ds_display s \<noteq> NoDisplay"

lemma present_eq:
  assumes "dt_queue_present_khr (d_fns (ds_ctx s)) \<noteq> None"
  shows "queue_present_khr r key now refresh (Some i) (Some s) =
    (if ids_cover i \<or> \<not> reads_ids s then Inr (r, Some (after_present key now refresh i s)) else Inl Panic)"
proof -
  obtain f where "dt_queue_present_khr (d_fns (ds_ctx s)) = Some f" using assms by auto
  then show ?thesis
    by (cases "ids_cover i"; cases "pr_swapchains i = []")
      (auto simp: queue_present_khr_def forward_present_eq enqueue_presents_eq reads_ids_def after_present_def Let_def)
qed


definition example_state :: "device_table \<Rightarrow> device_state" where
  "example_state t = \<lparr>ds_ctx = plain_device t, ds_config = example_config, ds_decoupled = False,
     ds_strategy = LowLatency2S ll2_device_new, ds_display = GoogleWait google_new, ds_queues = [],
     ds_sems = \<lparr>entrypoints_loaded = True, read_result = (\<lambda>_. SUCCESS), counter_value = (\<lambda>_. 0), signal_calls = []\<rparr>, ds_tick = 0,
     ds_telemetry = telemetry_new None\<rparr>"

lemma example_table: "\<exists>t. device_table_load (\<lambda>n. Some (length n)) = Inr t \<and> dt_queue_present_khr t \<noteq> None"
  by (simp add: device_table_load_def require_def)

lemma example_state_loaded: "dt_queue_present_khr t \<noteq> None \<Longrightarrow> dt_queue_present_khr (d_fns (ds_ctx (example_state t))) \<noteq> None"
  by (simp add: example_state_def plain_device_def)


text \<open>
  A failed present takes a place in the display timing queue: when the driver refuses the
  first present to a swapchain and accepts the second, and then reports the one timing there
  is, that timing is recorded on the id of the refused present.
\<close>

theorem failed_present_shifts_timings:
  assumes "dt_queue_present_khr (d_fns (ds_ctx s)) \<noteq> None" and "ds_display s = GoogleWait g" and "g_pending g sw = None"
    and "pid1 \<noteq> 0" and "pid2 \<noteq> 0" and "google_samples p = Some [t]" and "history_inv h"
  shows "\<exists>s1 s2 g2 st. queue_present_khr (VK_OTHER e) key n1 rf (Some \<lparr>pr_swapchains = [sw], pr_ids = Some [pid1]\<rparr>) (Some s) = Inr (VK_OTHER e, Some s1)
    \<and> queue_present_khr SUCCESS key n2 rf (Some \<lparr>pr_swapchains = [sw], pr_ids = Some [pid2]\<rparr>) (Some s1) = Inr (SUCCESS, Some s2)
    \<and> ds_display s2 = GoogleWait g2
    \<and> google_poll_swapchain sw p (g2, h) = Inr (st, [(pid1, google_host_ns (validate_domain (poll_now p) [t] (g_domain g)) (poll_now p) t)])"
proof -
  let ?i1 = "\<lparr>pr_swapchains = [sw], pr_ids = Some [pid1]\<rparr>" and ?i2 = "\<lparr>pr_swapchains = [sw], pr_ids = Some [pid2]\<rparr>"
  let ?s1 = "after_present key n1 rf ?i1 s"
  let ?s2 = "after_present key n2 rf ?i2 ?s1"
  let ?g2 = "google_enqueue sw pid2 (google_enqueue sw pid1 g)"
  have c: "ids_cover ?i1" "ids_cover ?i2" by (simp_all add: ids_cover_def)
  have d1: "ds_display ?s1 = GoogleWait (google_enqueue sw pid1 g)" and d2: "ds_display ?s2 = GoogleWait ?g2"
    using assms by (simp_all add: after_present_def enqueue_pairs_def present_pairs_def id_of_def display_enqueue_def)
  have "d_fns (ds_ctx ?s1) = d_fns (ds_ctx s)"
    by (simp add: after_present_def ensure_vrr_target_def Let_def split: option.split prod.split)
  then have l: "dt_queue_present_khr (d_fns (ds_ctx ?s1)) \<noteq> None" using assms(1) by simp
  have g2: "g_pending ?g2 sw = Some [pid1, pid2]" "g_domain ?g2 = g_domain g"
    using assms(3-5) by (simp_all add: google_enqueue_def google_push_def GOOGLE_PENDING_CAP_def)
  obtain h' where "pair_timings (validate_domain (poll_now p) [t] (g_domain g)) (poll_now p) [t] [pid1, pid2] h =
      Inr ([pid2], [(pid1, google_host_ns (validate_domain (poll_now p) [t] (g_domain g)) (poll_now p) t)], h')"
    using pair_timings_spec [OF assms(7), of "validate_domain (poll_now p) [t] (g_domain g)" "poll_now p" "[t]" "[pid1, pid2]"] by auto
  then have "\<exists>st. google_poll_swapchain sw p (?g2, h) =
      Inr (st, [(pid1, google_host_ns (validate_domain (poll_now p) [t] (g_domain g)) (poll_now p) t)])"
    using assms(6) g2 by (simp add: google_poll_swapchain_def Let_def)
  then show ?thesis
    using present_eq [OF assms(1), of "VK_OTHER e" key n1 rf ?i1] present_eq [OF l, of SUCCESS key n2 rf ?i2] c d2 by auto
qed

definition example_poll :: google_poll where
  "example_poll = \<lparr>poll_count = (SUCCESS, 1), poll_fetch = (\<lambda>n. (SUCCESS, 1, [7000])), poll_now = 9000\<rparr>"

theorem failed_present_shifts_timings_witness:
  "\<exists>t s1 s2 g2 st x. queue_present_khr (VK_OTHER (- 4)) 80 5 (TIMEOUT, 0) (Some \<lparr>pr_swapchains = [6], pr_ids = Some [11]\<rparr>) (Some (example_state t))
         = Inr (VK_OTHER (- 4), Some s1)
     \<and> queue_present_khr SUCCESS 80 6 (TIMEOUT, 0) (Some \<lparr>pr_swapchains = [6], pr_ids = Some [12]\<rparr>) (Some s1) = Inr (SUCCESS, Some s2)
     \<and> ds_display s2 = GoogleWait g2 \<and> google_poll_swapchain 6 example_poll (g2, history_new) = Inr (st, [(11, x)])"
proof -
  obtain t :: device_table where t: "dt_queue_present_khr t \<noteq> None" using example_table by blast
  have g: "ds_display (example_state t) = GoogleWait google_new" "g_pending google_new 6 = None"
    by (simp_all add: example_state_def google_new_def)
  have p: "(11 :: u64) \<noteq> 0" "(12 :: u64) \<noteq> 0" "google_samples example_poll = Some [7000]"
    by (simp_all add: google_samples_def example_poll_def)
  show ?thesis
    using failed_present_shifts_timings [OF example_state_loaded [OF t] g p history_new_inv, of "- 4" 80 5 "(TIMEOUT, 0)" 6] by blast
qed

section \<open>Destroying a swapchain\<close>



section \<open>A device without the layer\<close>


definition plain_state :: "device_table \<Rightarrow> device_state" where
  "plain_state t = (example_state t)\<lparr>ds_strategy := NoStrategy, ds_display := NoDisplay\<rparr>"


end
