(* ===== verification/Guard.thy ===== *)
theory Guard
  imports Present Lifecycle
begin

text \<open>
  The guard every entry point runs under (\<open>src/catch.rs\<close>) and the entry points that can trip
  it. A host that builds the layer with unwinding gets an error code for a panic; the release
  profile of \<open>Cargo.toml\<close> aborts the process instead, and then the guard does nothing.
\<close>

section \<open>The guard\<close>

datatype panic_strategy = Unwind | Abort

text \<open>How a call ends for the application: with an answer, or with the end of the process.\<close>

datatype 'r ended = Answered 'r | ProcessAborted

definition catch_unwind :: "panic_strategy \<Rightarrow> panic + 'r \<Rightarrow> (panic + 'r) ended" where
  "catch_unwind profile f =
     (case f of
        Inr r \<Rightarrow> Answered (Inr r)
      | Inl e \<Rightarrow> (case profile of Unwind \<Rightarrow> Answered (Inl e) | Abort \<Rightarrow> ProcessAborted))"

definition guarded :: "'r \<Rightarrow> panic_strategy \<Rightarrow> panic + 'r \<Rightarrow> 'r ended" where
  "guarded on_panic profile f =
     (case catch_unwind profile f of
        ProcessAborted \<Rightarrow> ProcessAborted
      | Answered (Inr r) \<Rightarrow> Answered r
      | Answered (Inl _) \<Rightarrow> Answered on_panic)"

definition vk_result_guard :: "panic_strategy \<Rightarrow> panic + vk_result \<Rightarrow> vk_result ended" where
  "vk_result_guard = guarded ERROR_UNKNOWN"

definition vk_void_guard :: "panic_strategy \<Rightarrow> panic + unit \<Rightarrow> unit ended" where
  "vk_void_guard = guarded ()"

definition vk_pfn_guard :: "panic_strategy \<Rightarrow> panic + pfn option \<Rightarrow> pfn option ended" where
  "vk_pfn_guard = guarded None"

lemma guarded_simps [simp]:
  "guarded d p (Inr r) = Answered r"
  "guarded d Unwind (Inl e) = Answered d"
  "guarded d Abort (Inl e) = ProcessAborted"
  by (simp_all add: guarded_def catch_unwind_def)

section \<open>Entry points under the guard\<close>

text \<open>What the application sees of a call: the result, without the state it leaves.\<close>

definition queue_submit_entry where
  "queue_submit_entry profile fns al driver sus qctx c =
     vk_result_guard profile (map_sum id fst (queue_submit fns al driver sus qctx c))"

definition queue_submit2 where
  "queue_submit2 profile fns al table sus qctx c =
     vk_result_guard profile (map_sum id fst (queue_submit2_dispatch fns al table Core sus qctx c))"

definition queue_submit2_khr where
  "queue_submit2_khr profile fns al table sus qctx c =
     vk_result_guard profile (map_sum id fst (queue_submit2_dispatch fns al table Khr sus qctx c))"

definition queue_present_entry where
  "queue_present_entry profile r key now refresh info qctx =
     vk_result_guard profile (map_sum id fst (queue_present_khr r key now refresh info qctx))"

definition set_latency_marker_entry where
  "set_latency_marker_entry profile now info dev =
     vk_void_guard profile (map_sum id (\<lambda>_. ()) (set_latency_marker_nv now info dev))"

text \<open>Creation reads memory the application passed, so a call may have no value at all.\<close>

definition create_instance_entry where
  "create_instance_entry profile env base exe links drv info h st =
     map_option (vk_result_guard profile \<circ> map_sum id fst) (create_instance env base exe links drv info h st)"

definition create_device_entry where
  "create_device_entry profile links drv box pd info h st =
     map_option (vk_result_guard profile \<circ> map_sum id fst) (create_device links drv box pd info h st)"

section \<open>When it trips\<close>

text \<open>The profile does not matter: the body returns, and so does the call.\<close>

definition never_trips :: "(panic_strategy \<Rightarrow> 'r ended) \<Rightarrow> bool" where
  "never_trips call \<longleftrightarrow> (\<exists>r. call Unwind = Answered r \<and> call Abort = Answered r)"

lemma never_trips_guarded: "(\<And>e. f \<noteq> Inl e) \<Longrightarrow> never_trips (\<lambda>p. guarded d p (map_sum id g f))"
  by (cases f) (auto simp: never_trips_def)

definition sound_queue :: "queue_ctx option \<Rightarrow> bool" where
  "sound_queue qctx \<longleftrightarrow> (\<forall>q. qctx = Some q \<longrightarrow> (\<exists>hs r. pool_inv (pool_at (q_pool q) hs r)))"

lemma submit_entry_no_panic: "sound_queue qctx \<Longrightarrow> queue_submit fns al driver sus qctx c \<noteq> Inl e"
  using submit_no_panic by (fastforce simp: sound_queue_def queue_submit_def split: option.splits sum.splits)

lemma submit2_entry_no_panic: "sound_queue qctx \<Longrightarrow> queue_submit2_dispatch fns al table v sus qctx c \<noteq> Inl e"
  using submit_no_panic by (fastforce simp: sound_queue_def queue_submit2_dispatch_def split: option.splits sum.splits)

definition sound_history :: "device_state option \<Rightarrow> bool" where
  "sound_history dev \<longleftrightarrow> (\<forall>s d. dev = Some s \<longrightarrow> ds_strategy s = LowLatency2S d \<longrightarrow> history_inv (l2_markers d))"

lemma marker_entry_no_panic:
  assumes "sound_history dev"
  shows "set_latency_marker_nv now info dev \<noteq> Inl e"
proof -
  have "record_marker now pid m h \<noteq> Inl e" if "history_inv h" for pid m h
    using record_marker_effect [OF that, of now pid m] by auto
  then show ?thesis
    using assms by (auto simp: sound_history_def set_latency_marker_nv_def split: option.splits strategy_state.splits sum.splits)
qed

lemma create_device_panics:
  assumes "create_device links drv box pd info h st = Some (Inl e)"
  shows "\<not> list_all (\<lambda>n. next_device_functions drv n \<noteq> None) REQUIRED_DEVICE_FUNCTIONS"
proof -
  have "device_table_load (next_device_functions drv) = Inl e"
    using assms by (auto simp: create_device_def fails_def Let_def split: option.splits prod.splits sum.splits if_splits)
  then have "\<nexists>t. device_table_load (next_device_functions drv) = Inr t" by simp
  then show ?thesis unfolding device_table_total .
qed

section \<open>Properties\<close>



end
