(* ===== verification/Startup.thy ===== *)
theory Startup
  imports Config PromFile TelemetryThread TimedWorker HudStream
begin

text \<open>
  What the two programs read when they start: the telemetry settings of the layer
  (\<open>TELEMETRY\<close> of \<open>src/lib.rs\<close>), the name of the executable (\<open>read_exe_basename\<close> of
  \<open>src/instance.rs\<close>) and the socket path of the HUD (\<open>main\<close> of \<open>tools/vkpace-hud\<close>).
\<close>

section \<open>Settings\<close>

text \<open>
  The telemetry, whether the socket thread runs, and the interval and report path of the
  statistics thread, if it runs.
\<close>

record telemetry_setup =
  te_telemetry :: telemetry
  te_socket_worker :: bool
  te_stats :: "(u64 \<times> ustr option) option"

definition telemetry_from_env :: "environ \<Rightarrow> telemetry_setup" where
  "telemetry_from_env env =
     (let path = env_var env ''VKPACE_TELEMETRY_SOCKET'';
          stats_interval = (case Option.bind (env_var env ''VKPACE_STATS_INTERVAL'') parse_u64_str of Some n \<Rightarrow> n | None \<Rightarrow> 0);
          prom_path = env_var env ''VKPACE_PROM_PATH''
      in \<lparr>te_telemetry = telemetry_new path, te_socket_worker = (path \<noteq> None),
          te_stats = (if 0 < stats_interval then Some (stats_interval, prom_path) else None)\<rparr>)"

text \<open>\<open>link\<close> is the target of \<open>/proc/self/exe\<close>, if it can be read.\<close>

definition read_exe_basename :: "ustr option \<Rightarrow> ustr option" where
  "read_exe_basename link = Option.bind link file_name"

definition DEFAULT_SOCKET :: ustr where "DEFAULT_SOCKET = lit ''/tmp/vkpace.sock''"

definition hud_socket_path :: "ustr list \<Rightarrow> ustr" where
  "hud_socket_path args = (case args of _ # path # _ \<Rightarrow> path | _ \<Rightarrow> DEFAULT_SOCKET)"

section \<open>What the settings give\<close>

lemma parse_u64_str_show: "parse_u64_str (show_dec (unat (n :: u64))) = Some n"
  using parse_uint_show [of 10 "unat n" 64] unat_u64_less [of n] by (simp add: show_dec_def parse_u64_str_def)

text \<open>
  Without a socket path a pushed record leaves no trace, whatever else is set; a written
  interval is the one the statistics thread runs with; and a report path alone starts
  nothing.
\<close>

lemma telemetry_follows_environment:
  "env_var env ''VKPACE_TELEMETRY_SOCKET'' = None \<Longrightarrow>
     fold push_record recs (te_telemetry (telemetry_from_env env)) = te_telemetry (telemetry_from_env env)
     \<and> \<not> te_socket_worker (telemetry_from_env env)"
  "env_var env ''VKPACE_STATS_INTERVAL'' = Some (show_dec (unat n)) \<Longrightarrow> 0 < n \<Longrightarrow>
     te_stats (telemetry_from_env env) = Some (n, env_var env ''VKPACE_PROM_PATH'')"
  "env_var env ''VKPACE_STATS_INTERVAL'' = None \<Longrightarrow> te_stats (telemetry_from_env env) = None"
  by (simp_all add: telemetry_from_env_def Let_def telemetry_new_def fold_push_record_off parse_u64_str_show)

end
