(* ===== verification/HudReader.thy ===== *)
theory HudReader
  imports HudStream
begin

text \<open>
  The whole reader thread of the HUD (\<open>run\<close> of \<open>tools/vkpace-hud/src/reader.rs\<close>): it connects,
  waits longer after each refusal, serves a connection until it ends, and asks the window to
  repaint, but not for every record. \<open>HudParse\<close> has the loop over one connection without the
  repaints, \<open>HudStream\<close> the bytes below it.
\<close>

section \<open>The thread\<close>

definition REPAINT_INTERVAL :: nat where "REPAINT_INTERVAL = 100"

text \<open>
  Times are milliseconds. \<open>rt_naps\<close> lists how long the thread slept after each refused
  connection, the last one first; \<open>rt_repaints\<close> counts the requests.
\<close>

record reader_thread =
  rt_state :: shared_state
  rt_backoff :: nat
  rt_last_repaint :: nat
  rt_repaints :: nat
  rt_naps :: "nat list"

definition reader_start :: "nat \<Rightarrow> shared_state \<Rightarrow> reader_thread" where
  "reader_start now s = \<lparr>rt_state = s, rt_backoff = BACKOFF_MIN, rt_last_repaint = now - REPAINT_INTERVAL,
     rt_repaints = 0, rt_naps = []\<rparr>"

definition request_repaint :: "reader_thread \<Rightarrow> reader_thread" where
  "request_repaint t = t\<lparr>rt_repaints := rt_repaints t + 1\<rparr>"

definition set_connected :: "bool \<Rightarrow> reader_thread \<Rightarrow> reader_thread" where
  "set_connected b t = t\<lparr>rt_state := (rt_state t)\<lparr>connected := b\<rparr>\<rparr>"

text \<open>
  One turn of the inner loop: what the check of the stop flag reads, what \<open>read_line\<close>
  returns, and the two clock readings after a record.
\<close>

record read_turn =
  tn_stop :: bool
  tn_read :: read_event
  tn_elapsed_at :: nat
  tn_now :: nat

datatype loop_end = Returned | Broke | Waiting

fun serve_connection :: "read_turn list \<Rightarrow> reader_thread \<Rightarrow> reader_thread \<times> loop_end" where
  "serve_connection [] t = (t, Waiting)"
| "serve_connection (n # ns) t =
     (if tn_stop n then (t, Returned)
      else
        (case tn_read n of
           ReadEof \<Rightarrow> (t, Broke)
         | ReadLine line \<Rightarrow>
             (case parse_line line of
                None \<Rightarrow> serve_connection ns t
              | Some rec \<Rightarrow>
                  (let t' = t\<lparr>rt_state := hud_push rec (rt_state t)\<rparr> in
                   if REPAINT_INTERVAL \<le> tn_elapsed_at n - rt_last_repaint t'
                   then serve_connection ns ((request_repaint t')\<lparr>rt_last_repaint := tn_now n\<rparr>)
                   else serve_connection ns t'))
         | ReadTimeout \<Rightarrow> serve_connection ns t
         | ReadError \<Rightarrow> (t, Broke)))"

text \<open>
  One turn of the outer loop: what the check of the stop flag reads, whether \<open>connect\<close> and
  \<open>set_read_timeout\<close> succeed, the stop flag during a nap, and the turns of the inner loop.
\<close>

record attempt =
  at_stop :: bool
  at_connects :: bool
  at_timeout_set :: bool
  at_nap_stops :: "nat \<Rightarrow> bool"
  at_turns :: "read_turn list"

text \<open>The end is \<open>Returned\<close> when the thread has returned, \<open>Waiting\<close> when it waits for what comes next.\<close>

fun reader_run :: "attempt list \<Rightarrow> reader_thread \<Rightarrow> reader_thread \<times> loop_end" where
  "reader_run [] t = (t, Waiting)"
| "reader_run (a # as) t =
     (if at_stop a then (t, Returned)
      else if \<not> at_connects a then
        (let t1 = request_repaint (set_connected False t) in
         reader_run as (t1\<lparr>rt_naps := sleep_interruptible (at_nap_stops a) 0 (rt_backoff t1) # rt_naps t1,
           rt_backoff := next_backoff (rt_backoff t1)\<rparr>))
      else if \<not> at_timeout_set a then reader_run as t
      else
        (case serve_connection (at_turns a) ((request_repaint (set_connected True t))\<lparr>rt_backoff := BACKOFF_MIN\<rparr>) of
           (t1, Broke) \<Rightarrow> reader_run as (request_repaint (set_connected False t1))
         | r \<Rightarrow> r))"

section \<open>One connection\<close>

text \<open>The records of a connection and its end, whatever else the thread does.\<close>

fun turn_records :: "read_turn list \<Rightarrow> hud_record list" where
  "turn_records [] = []"
| "turn_records (n # ns) =
     (if tn_stop n then []
      else (case tn_read n of
        ReadEof \<Rightarrow> []
      | ReadError \<Rightarrow> []
      | ReadTimeout \<Rightarrow> turn_records ns
      | ReadLine line \<Rightarrow> (case parse_line line of None \<Rightarrow> turn_records ns | Some rec \<Rightarrow> rec # turn_records ns)))"

fun turns_end :: "read_turn list \<Rightarrow> loop_end" where
  "turns_end [] = Waiting"
| "turns_end (n # ns) =
     (if tn_stop n then Returned
      else if tn_read n = ReadEof \<or> tn_read n = ReadError then Broke else turns_end ns)"

lemma request_repaint_fields [simp]:
  "rt_state (request_repaint t) = rt_state t" "rt_backoff (request_repaint t) = rt_backoff t"
  "rt_last_repaint (request_repaint t) = rt_last_repaint t" "rt_repaints (request_repaint t) = rt_repaints t + 1"
  "rt_naps (request_repaint t) = rt_naps t"
  by (simp_all add: request_repaint_def)

lemma set_connected_fields [simp]:
  "rt_state (set_connected b t) = (rt_state t)\<lparr>connected := b\<rparr>" "rt_backoff (set_connected b t) = rt_backoff t"
  "rt_last_repaint (set_connected b t) = rt_last_repaint t" "rt_repaints (set_connected b t) = rt_repaints t"
  "rt_naps (set_connected b t) = rt_naps t"
  by (simp_all add: set_connected_def)

lemma hud_push_fields [simp]: "connected (hud_push r s) = connected s" "hud_stop (hud_push r s) = hud_stop s"
  by (simp_all add: hud_push_def Let_def)

lemma fold_push_fields [simp]: "connected (fold hud_push rs s) = connected s" "hud_stop (fold hud_push rs s) = hud_stop s"
  by (induction rs arbitrary: s) simp_all

lemma hud_push_connected: "hud_push r (s\<lparr>connected := b\<rparr>) = (hud_push r s)\<lparr>connected := b\<rparr>"
  by (simp add: hud_push_def Let_def)

lemma fold_push_connected: "fold hud_push rs (s\<lparr>connected := b\<rparr>) = (fold hud_push rs s)\<lparr>connected := b\<rparr>"
  by (induction rs arbitrary: s) (simp_all add: hud_push_connected)

text \<open>What a connection does to the shared state, and when it ends.\<close>

lemma serve_connection_state:
  "serve_connection ns t = (t', e) \<Longrightarrow>
     rt_state t' = fold hud_push (turn_records ns) (rt_state t) \<and> rt_backoff t' = rt_backoff t \<and> rt_naps t' = rt_naps t
     \<and> e = turns_end ns"
proof (induction ns arbitrary: t)
  case (Cons n ns)
  then show ?case
    by (cases "tn_read n") (auto simp: Let_def split: option.splits if_splits)
qed simp

text \<open>Without the repaints it is the loop of \<open>HudParse\<close>.\<close>

lemma reader_loop_turns:
  "list_all (\<lambda>n. \<not> tn_stop n) ns \<Longrightarrow> \<not> hud_stop s \<Longrightarrow>
     reader_loop (map tn_read ns) s = (fold hud_push (turn_records ns) s)\<lparr>connected := connected s \<and> turns_end ns \<noteq> Broke\<rparr>"
proof (induction ns arbitrary: s)
  case (Cons n ns)
  then show ?case
    by (cases "tn_read n") (auto simp: hud_push_connected fold_push_connected split: option.splits)
qed simp

text \<open>
  Repaints for records are an interval apart: with a clock that does not run backwards they
  are no more than fit into the time that has passed.
\<close>

definition clock_readings :: "read_turn list \<Rightarrow> nat list" where
  "clock_readings ns = concat (map (\<lambda>n. [tn_elapsed_at n, tn_now n]) ns)"

lemma clock_readings_simps [simp]:
  "clock_readings [] = []" "clock_readings (n # ns) = tn_elapsed_at n # tn_now n # clock_readings ns"
  "clock_readings (ms @ ns) = clock_readings ms @ clock_readings ns"
  by (simp_all add: clock_readings_def)

lemma serve_connection_repaints:
  "serve_connection ns t = (t', e) \<Longrightarrow> sorted (rt_last_repaint t # clock_readings ns) \<Longrightarrow>
     rt_repaints t' * REPAINT_INTERVAL + rt_last_repaint t \<le> rt_repaints t * REPAINT_INTERVAL + rt_last_repaint t'
     \<and> rt_last_repaint t' \<in> set (rt_last_repaint t # clock_readings ns)"
proof (induction ns arbitrary: t)
  case (Cons n ns)
  have skip: ?case if "serve_connection ns t1 = (t', e)" "rt_last_repaint t1 = rt_last_repaint t" "rt_repaints t1 = rt_repaints t"
    for t1
    using Cons.IH [OF that(1)] Cons.prems(2) that(2,3) by auto
  show ?case
  proof (cases "\<exists>line rec. \<not> tn_stop n \<and> tn_read n = ReadLine line \<and> parse_line line = Some rec
        \<and> REPAINT_INTERVAL \<le> tn_elapsed_at n - rt_last_repaint t")
    case True
    then obtain line rec where r: "\<not> tn_stop n" "tn_read n = ReadLine line" "parse_line line = Some rec"
        "REPAINT_INTERVAL \<le> tn_elapsed_at n - rt_last_repaint t" by blast
    let ?t1 = "(request_repaint (t\<lparr>rt_state := hud_push rec (rt_state t)\<rparr>))\<lparr>rt_last_repaint := tn_now n\<rparr>"
    have s: "serve_connection ns ?t1 = (t', e)" using Cons.prems(1) r by (simp add: Let_def)
    have "rt_repaints t' * REPAINT_INTERVAL + tn_now n \<le> (rt_repaints t + 1) * REPAINT_INTERVAL + rt_last_repaint t'"
      "rt_last_repaint t' \<in> set (tn_now n # clock_readings ns)"
      using Cons.IH [OF s] Cons.prems(2) by auto
    moreover have "tn_elapsed_at n \<le> tn_now n" "rt_last_repaint t \<le> tn_elapsed_at n" using Cons.prems(2) by auto
    ultimately show ?thesis using r(4) by auto
  next
    case False
    show ?thesis
    proof (cases "serve_connection (n # ns) t = serve_connection [] t \<or> fst (serve_connection (n # ns) t) = t")
      case True
      then show ?thesis using Cons.prems(1) by auto
    next
      case stays: False
      then have "serve_connection ns t = (t', e) \<or> (\<exists>s. serve_connection ns (t\<lparr>rt_state := s\<rparr>) = (t', e))"
        using False Cons.prems(1)
        by (cases "tn_read n") (auto simp: Let_def split: option.splits if_splits)
      then show ?thesis using skip [of t] skip [of "rt_state_update (\<lambda>_. _) t"] by auto
    qed
  qed
qed auto

section \<open>The whole thread\<close>

text \<open>All records of a run, whether it ends with an open connection, and how often a connection ended.\<close>

fun run_records :: "attempt list \<Rightarrow> hud_record list" where
  "run_records [] = []"
| "run_records (a # as) =
     (if at_stop a then []
      else if \<not> at_connects a \<or> \<not> at_timeout_set a then run_records as
      else turn_records (at_turns a) @ (if turns_end (at_turns a) = Broke then run_records as else []))"

definition run_turns :: "attempt list \<Rightarrow> read_turn list" where
  "run_turns as = concat (map at_turns as)"

definition nap_after_refusal :: "attempt \<Rightarrow> reader_thread \<Rightarrow> reader_thread" where
  "nap_after_refusal a t =
     (let t1 = request_repaint (set_connected False t) in
      t1\<lparr>rt_naps := sleep_interruptible (at_nap_stops a) 0 (rt_backoff t1) # rt_naps t1, rt_backoff := next_backoff (rt_backoff t1)\<rparr>)"

definition opened :: "reader_thread \<Rightarrow> reader_thread" where
  "opened t = (request_repaint (set_connected True t))\<lparr>rt_backoff := BACKOFF_MIN\<rparr>"

text \<open>The four ways through one turn of the outer loop.\<close>

lemma reader_run_cases [consumes 1, case_names stop refused skipped closed stays]:
  assumes "reader_run (a # as) t = (t', e)"
  obtains "at_stop a" "t' = t"
  | "\<not> at_stop a" "\<not> at_connects a" "reader_run as (nap_after_refusal a t) = (t', e)"
  | "\<not> at_stop a" "at_connects a" "\<not> at_timeout_set a" "reader_run as t = (t', e)"
  | t1 where "\<not> at_stop a" "at_connects a" "at_timeout_set a" "serve_connection (at_turns a) (opened t) = (t1, Broke)"
      "reader_run as (request_repaint (set_connected False t1)) = (t', e)"
  | "\<not> at_stop a" "at_connects a" "at_timeout_set a" "e \<noteq> Broke" "serve_connection (at_turns a) (opened t) = (t', e)"
  using assms
  by (cases "serve_connection (at_turns a) (opened t)"; cases "snd (serve_connection (at_turns a) (opened t))")
    (auto simp: nap_after_refusal_def opened_def Let_def split: if_splits)

lemma sleep_interruptible_le: "sleep_interruptible stops k r \<le> r"
proof (induction stops k r rule: sleep_interruptible.induct)
  case (1 stops k r)
  show ?case
    by (cases "r = 0 \<or> stops k", simp add: sleep_interruptible.simps [of stops k r])
      (use "1.IH" in \<open>simp add: sleep_interruptible.simps [of stops k r]\<close>)
qed

lemma reader_run_ring:
  "reader_run as t = (t', e) \<Longrightarrow> \<exists>c. rt_state t' = (fold hud_push (run_records as) (rt_state t))\<lparr>connected := c\<rparr>"
proof (induction as arbitrary: t)
  case Nil
  then show ?case by (auto intro: exI [of _ "connected (rt_state t)"])
next
  case (Cons a as)
  from Cons.prems show ?case
  proof (cases rule: reader_run_cases)
    case stop
    then show ?thesis by (auto intro: exI [of _ "connected (rt_state t)"])
  next
    case refused
    then show ?thesis using Cons.IH [OF refused(3)] by (auto simp: nap_after_refusal_def Let_def fold_push_connected)
  next
    case skipped
    then show ?thesis using Cons.IH by simp
  next
    case (closed t1)
    then show ?thesis
      using Cons.IH [OF closed(5)] serve_connection_state [OF closed(4)] by (auto simp: opened_def fold_push_connected)
  next
    case stays
    then show ?thesis
      using serve_connection_state [OF stays(5)] by (auto simp: opened_def fold_push_connected)
  qed
qed

text \<open>The pause grows from \<open>BACKOFF_MIN\<close> to \<open>BACKOFF_MAX\<close>, and no nap is longer than it.\<close>

definition pause_ok :: "reader_thread \<Rightarrow> bool" where
  "pause_ok t \<longleftrightarrow> BACKOFF_MIN \<le> rt_backoff t \<and> rt_backoff t \<le> BACKOFF_MAX \<and> list_all (\<lambda>n. n \<le> BACKOFF_MAX) (rt_naps t)"

lemma pause_ok_steps:
  "pause_ok t \<Longrightarrow> pause_ok (nap_after_refusal a t)"
  "pause_ok t \<Longrightarrow> pause_ok (opened t)"
  "pause_ok (request_repaint (set_connected b t)) = pause_ok t"
  using sleep_interruptible_le [of "at_nap_stops a" 0 "rt_backoff t"]
  by (auto simp: pause_ok_def nap_after_refusal_def opened_def next_backoff_def BACKOFF_MIN_def BACKOFF_MAX_def)

lemma reader_run_pause: "reader_run as t = (t', e) \<Longrightarrow> pause_ok t \<Longrightarrow> pause_ok t'"
proof (induction as arbitrary: t)
  case (Cons a as)
  have served: "serve_connection (at_turns a) (opened t) = (t1, e1) \<Longrightarrow> pause_ok t1" for t1 e1
    using serve_connection_state pause_ok_steps(2) [OF Cons.prems(2)] by (fastforce simp: pause_ok_def)
  from Cons.prems(1) show ?case
    by (cases rule: reader_run_cases) (use Cons served pause_ok_steps in blast)+
qed simp

lemma sorted_later: "sorted (x # ms @ ns) \<Longrightarrow> y \<in> set (x # ms) \<Longrightarrow> sorted (y # ns)"
  by (auto simp: sorted_append)

lemma reader_run_repaints:
  "reader_run as t = (t', e) \<Longrightarrow> sorted (rt_last_repaint t # clock_readings (run_turns as)) \<Longrightarrow>
     rt_repaints t' * REPAINT_INTERVAL + rt_last_repaint t \<le> (rt_repaints t + 2 * length as) * REPAINT_INTERVAL + rt_last_repaint t'
     \<and> rt_last_repaint t' \<in> set (rt_last_repaint t # clock_readings (run_turns as))"
proof (induction as arbitrary: t)
  case (Cons a as)
  have turns: "clock_readings (run_turns (a # as)) = clock_readings (at_turns a) @ clock_readings (run_turns as)"
    by (simp add: run_turns_def)
  have tl: "sorted (rt_last_repaint t # clock_readings (run_turns as))" and hd: "sorted (rt_last_repaint t # clock_readings (at_turns a))"
    using Cons.prems(2) by (auto simp: turns sorted_append)
  have served: "rt_repaints t1 * REPAINT_INTERVAL + rt_last_repaint t \<le> (rt_repaints t + 1) * REPAINT_INTERVAL + rt_last_repaint t1
      \<and> rt_last_repaint t1 \<in> set (rt_last_repaint t # clock_readings (at_turns a))"
    if "serve_connection (at_turns a) (opened t) = (t1, e1)" for t1 e1
    using serve_connection_repaints [OF that] hd by (simp add: opened_def)
  from Cons.prems(1) show ?case
  proof (cases rule: reader_run_cases)
    case stop
    then show ?thesis by (simp add: algebra_simps)
  next
    case refused
    then show ?thesis using Cons.IH [OF refused(3)] tl by (auto simp: nap_after_refusal_def turns algebra_simps)
  next
    case skipped
    then show ?thesis using Cons.IH [OF skipped(4)] tl by (auto simp: turns algebra_simps)
  next
    case (closed t1)
    have "sorted (rt_last_repaint t1 # clock_readings (run_turns as))"
      using sorted_later Cons.prems(2) served [OF closed(4)] unfolding turns by blast
    then show ?thesis using Cons.IH [OF closed(5)] served [OF closed(4)] by (auto simp: turns algebra_simps)
  next
    case stays
    then show ?thesis using served [OF stays(5)] by (auto simp: turns algebra_simps)
  qed
qed simp

text \<open>
  C15. The reader thread over any run, with any number of refused, accepted and broken connections and
  with the stop flag set at any point: the ring of the window is the newest
  \<open>HUD_RING_CAPACITY\<close> of the old records and those that arrived and parsed, in order; no nap
  between two attempts is longer than \<open>BACKOFF_MAX\<close>; and the window is asked to repaint at most
  twice for each attempt, and besides at most once every \<open>REPAINT_INTERVAL\<close> milliseconds however many records
  arrive.
\<close>

theorem reader_thread_keeps_the_window_current:
  assumes "reader_run as (reader_start now s) = (t, e)" and "length (hud_ring s) \<le> HUD_RING_CAPACITY"
    and "REPAINT_INTERVAL \<le> now" and "sorted (now # clock_readings (run_turns as) @ [now'])"
  shows "hud_ring (rt_state t) = drop (length (hud_ring s) + length (run_records as) - HUD_RING_CAPACITY) (hud_ring s @ run_records as)
    \<and> list_all (\<lambda>n. n \<le> BACKOFF_MAX) (rt_naps t)
    \<and> rt_repaints t \<le> 2 * length as + 1 + (now' - now) div REPAINT_INTERVAL"
proof (intro conjI)
  obtain c where "rt_state t = (fold hud_push (run_records as) s)\<lparr>connected := c\<rparr>"
    using reader_run_ring [OF assms(1)] by (auto simp: reader_start_def)
  then show "hud_ring (rt_state t) = drop (length (hud_ring s) + length (run_records as) - HUD_RING_CAPACITY) (hud_ring s @ run_records as)"
    using hring.items_pushes [OF assms(2), of "run_records as"] by simp
  have "pause_ok (reader_start now s)"
    by (simp add: pause_ok_def reader_start_def BACKOFF_MIN_def BACKOFF_MAX_def)
  then show "list_all (\<lambda>n. n \<le> BACKOFF_MAX) (rt_naps t)"
    using reader_run_pause [OF assms(1)] by (simp add: pause_ok_def)
  have "sorted (rt_last_repaint (reader_start now s) # clock_readings (run_turns as))"
    using assms(4) by (auto simp: reader_start_def sorted_append)
  note r = reader_run_repaints [OF assms(1) this]
  have "rt_last_repaint t \<le> now'"
    using assms(4) conjunct2 [OF r] by (auto simp: reader_start_def sorted_append)
  then have "rt_repaints t * REPAINT_INTERVAL + (now - REPAINT_INTERVAL) \<le> 2 * length as * REPAINT_INTERVAL + now'"
    using conjunct1 [OF r] by (simp add: reader_start_def)
  then have "rt_repaints t * REPAINT_INTERVAL \<le> (2 * length as + 1) * REPAINT_INTERVAL + (now' - now)"
    using assms(3,4) by (simp add: algebra_simps)
  then have "rt_repaints t \<le> ((2 * length as + 1) * REPAINT_INTERVAL + (now' - now)) div REPAINT_INTERVAL"
    by (simp add: REPAINT_INTERVAL_def less_eq_div_iff_mult_less_eq)
  then show "rt_repaints t \<le> 2 * length as + 1 + (now' - now) div REPAINT_INTERVAL"
    by (simp add: REPAINT_INTERVAL_def)
qed

theorem reader_thread_keeps_the_window_current_witness:
  "\<exists>t e. reader_run
        [\<lparr>at_stop = False, at_connects = False, at_timeout_set = True, at_nap_stops = (\<lambda>_. False), at_turns = []\<rparr>,
         \<lparr>at_stop = False, at_connects = True, at_timeout_set = True, at_nap_stops = (\<lambda>_. False),
           at_turns = [\<lparr>tn_stop = False, tn_read = ReadLine (format_record example_record), tn_elapsed_at = 300, tn_now = 300\<rparr>,
             \<lparr>tn_stop = False, tn_read = ReadLine (format_record example_record), tn_elapsed_at = 310, tn_now = 310\<rparr>,
             \<lparr>tn_stop = False, tn_read = ReadEof, tn_elapsed_at = 320, tn_now = 320\<rparr>]\<rparr>]
        (reader_start 150 shared_state_new) = (t, e)
     \<and> hud_ring (rt_state t) = [as_hud example_record, as_hud example_record] \<and> rt_repaints t \<le> 7"
proof -
  let ?as = "[\<lparr>at_stop = False, at_connects = False, at_timeout_set = True, at_nap_stops = (\<lambda>_. False), at_turns = []\<rparr>,
         \<lparr>at_stop = False, at_connects = True, at_timeout_set = True, at_nap_stops = (\<lambda>_. False),
           at_turns = [\<lparr>tn_stop = False, tn_read = ReadLine (format_record example_record), tn_elapsed_at = 300, tn_now = 300\<rparr>,
             \<lparr>tn_stop = False, tn_read = ReadLine (format_record example_record), tn_elapsed_at = 310, tn_now = 310\<rparr>,
             \<lparr>tn_stop = False, tn_read = ReadEof, tn_elapsed_at = 320, tn_now = 320\<rparr>]\<rparr>] :: attempt list"
  obtain t e where r: "reader_run ?as (reader_start 150 shared_state_new) = (t, e)" by fastforce
  have "length (hud_ring shared_state_new) \<le> HUD_RING_CAPACITY" "REPAINT_INTERVAL \<le> 150"
    "sorted (150 # clock_readings (run_turns ?as) @ [350])"
    "run_records ?as = [as_hud example_record, as_hud example_record]"
    by (simp_all add: shared_state_new_def REPAINT_INTERVAL_def run_turns_def parse_format_record)
  then show ?thesis
    using reader_thread_keeps_the_window_current [OF r, of 350] r
    by (auto simp: shared_state_new_def HUD_RING_CAPACITY_def REPAINT_INTERVAL_def)
qed

section \<open>The pause between attempts\<close>

text \<open>While every attempt is refused, the pause doubles from 100 ms until it is five seconds.\<close>

lemma refused_attempts_back_off:
  assumes "list_all (\<lambda>a. \<not> at_stop a \<and> \<not> at_connects a) as"
  shows "rt_backoff (fst (reader_run as (reader_start now s))) = min (100 * 2 ^ length as) 5000"
proof -
  have "rt_backoff (fst (reader_run as t)) = min (100 * 2 ^ (k + length as)) 5000"
    if "rt_backoff t = min (100 * 2 ^ k) 5000" for k t
    using assms that
  proof (induction as arbitrary: k t)
    case (Cons a as)
    have "rt_backoff (nap_after_refusal a t) = min (100 * 2 ^ Suc k) 5000"
      using Cons.prems(2) by (auto simp: nap_after_refusal_def next_backoff_def BACKOFF_MAX_def)
    then show ?case
      using Cons.IH [of "nap_after_refusal a t" "Suc k"] Cons.prems(1) by (simp add: nap_after_refusal_def Let_def)
  qed simp
  from this [of "reader_start now s" 0] show ?thesis by (simp add: reader_start_def BACKOFF_MIN_def)
qed

text \<open>
  The comment on the two constants says that a successful read resets the pause; it is the
  successful connect. A server that accepts and closes at once is tried again and again
  without any pause.
\<close>

lemma accepted_and_closed_never_naps:
  assumes "list_all (\<lambda>a. \<not> at_stop a \<and> at_connects a \<and> at_timeout_set a
      \<and> map (\<lambda>n. (tn_stop n, tn_read n)) (at_turns a) = [(False, ReadEof)]) as"
  shows "rt_naps (fst (reader_run as t)) = rt_naps t \<and> rt_repaints (fst (reader_run as t)) = rt_repaints t + 2 * length as"
  using assms
proof (induction as arbitrary: t)
  case (Cons a as)
  then obtain n where "at_turns a = [n]" "\<not> tn_stop n" "tn_read n = ReadEof" by auto
  then show ?case using Cons by simp
qed simp

end
