(* ===== verification/HudTheme.thy ===== *)
theory HudTheme
  imports HudView HudReader Startup
begin

text \<open>
  The start of the HUD: the colours, fonts and spacing it installs (\<open>theme.rs\<close>) and \<open>main\<close>
  (\<open>main.rs\<close>) of \<open>tools/vkpace-hud\<close>. The values the window library starts with (its dark
  visuals, its style, its font table) are arguments; the records have the fields the code
  sets.
\<close>

section \<open>Palette\<close>

definition BG_WINDOW :: color32 where "BG_WINDOW = Rgb 18 20 26"
definition BG_PANEL :: color32 where "BG_PANEL = Rgb 24 27 35"
definition BG_CARD :: color32 where "BG_CARD = Rgb 31 35 45"
definition BG_CARD_HOVER :: color32 where "BG_CARD_HOVER = Rgb 38 43 55"
definition SEPARATOR :: color32 where "SEPARATOR = Rgb 46 51 64"

section \<open>Visuals, style and fonts\<close>

record stroke =
  sk_width :: rat
  sk_color :: color32

definition stroke_new :: "rat \<Rightarrow> color32 \<Rightarrow> stroke" where
  "stroke_new w c = \<lparr>sk_width = w, sk_color = c\<rparr>"

record widget_visuals =
  bg_fill :: color32
  weak_bg_fill :: color32
  bg_stroke :: stroke
  fg_stroke :: stroke

record visuals =
  window_fill :: color32
  panel_fill :: color32
  extreme_bg_color :: color32
  faint_bg_color :: color32
  code_bg_color :: color32
  override_text_color :: "color32 option"
  hyperlink_color :: color32
  selection_bg_fill :: color32
  selection_stroke :: stroke
  noninteractive :: widget_visuals
  inactive :: widget_visuals
  hovered :: widget_visuals
  active :: widget_visuals
  window_rounding :: rat
  menu_rounding :: rat

definition install_visuals :: "visuals \<Rightarrow> visuals" where
  "install_visuals dark =
     dark\<lparr>window_fill := BG_WINDOW, panel_fill := BG_PANEL, extreme_bg_color := BG_WINDOW, faint_bg_color := BG_CARD,
       code_bg_color := BG_CARD, override_text_color := Some FG_NORMAL, hyperlink_color := LINE_FRAMETIME,
       selection_bg_fill := BG_CARD_HOVER, selection_stroke := stroke_new 1 LINE_FRAMETIME,
       noninteractive := (noninteractive dark)\<lparr>bg_fill := BG_PANEL, weak_bg_fill := BG_PANEL,
         bg_stroke := stroke_new 1 SEPARATOR, fg_stroke := stroke_new 1 FG_NORMAL\<rparr>,
       inactive := (inactive dark)\<lparr>bg_fill := BG_CARD, weak_bg_fill := BG_CARD\<rparr>,
       hovered := (hovered dark)\<lparr>bg_fill := BG_CARD_HOVER, weak_bg_fill := BG_CARD_HOVER\<rparr>,
       active := (active dark)\<lparr>bg_fill := BG_CARD_HOVER, weak_bg_fill := BG_CARD_HOVER\<rparr>,
       window_rounding := 8, menu_rounding := 6\<rparr>"

text \<open>\<open>text_styles\<close> is what maps the styles of a text, the strong one among them, to a font family.\<close>

datatype font_family = Proportional | Monospace | Named string

record egui_style =
  item_spacing :: "rat \<times> rat"
  window_margin :: rat
  selectable_labels :: bool
  style_visuals :: visuals
  text_styles :: "string \<Rightarrow> font_family option"

datatype font_bytes = FONT_REGULAR | FONT_MEDIUM | Builtin string

record font_definitions =
  font_data :: "string \<Rightarrow> font_bytes option"
  families :: "font_family \<Rightarrow> string list option"

text \<open>\<open>families.entry(f).or_default().insert(0, name)\<close>.\<close>

definition insert_first :: "font_family \<Rightarrow> string \<Rightarrow> font_definitions \<Rightarrow> font_definitions" where
  "insert_first f name fonts =
     fonts\<lparr>families := (families fonts)(f \<mapsto> name # (case families fonts f of Some l \<Rightarrow> l | None \<Rightarrow> []))\<rparr>"

definition install_fonts :: "font_definitions \<Rightarrow> font_definitions" where
  "install_fonts default_fonts =
     insert_first (Named ''jbmono-medium'') ''jbmono-medium''
      (insert_first Monospace ''jbmono''
       (insert_first Proportional ''jbmono''
        (default_fonts\<lparr>font_data := (font_data default_fonts)(''jbmono'' \<mapsto> FONT_REGULAR, ''jbmono-medium'' \<mapsto> FONT_MEDIUM)\<rparr>)))"

record egui_context =
  ctx_style :: egui_style
  ctx_fonts :: font_definitions

definition set_visuals :: "visuals \<Rightarrow> egui_context \<Rightarrow> egui_context" where
  "set_visuals v ctx = ctx\<lparr>ctx_style := (ctx_style ctx)\<lparr>style_visuals := v\<rparr>\<rparr>"

definition install :: "visuals \<Rightarrow> font_definitions \<Rightarrow> egui_context \<Rightarrow> egui_context" where
  "install dark default_fonts ctx =
     (let ctx = ctx\<lparr>ctx_fonts := install_fonts default_fonts\<rparr>;
          ctx = set_visuals (install_visuals dark) ctx;
          style = (ctx_style ctx)\<lparr>item_spacing := (10, 8), window_margin := 0, selectable_labels := False\<rparr>
      in ctx\<lparr>ctx_style := style\<rparr>)"

section \<open>The program\<close>

text \<open>
  What \<open>main\<close> hands to the window library, and what the closure it passes does with the
  context of the new window: the theme, the reader thread on the path and the shared state,
  and the application over the same state.
\<close>

record native_options =
  inner_size :: "nat \<times> nat"
  window_title :: string

record hud_program =
  hp_options :: native_options
  hp_reader_path :: ustr
  hp_reader :: reader_thread
  hp_context :: egui_context
  hp_app :: hud_app

definition hud_main :: "ustr list \<Rightarrow> visuals \<Rightarrow> font_definitions \<Rightarrow> nat \<Rightarrow> egui_context \<Rightarrow> hud_program" where
  "hud_main args dark default_fonts now cc =
     \<lparr>hp_options = \<lparr>inner_size = (900, 540), window_title = ''vkpace HUD''\<rparr>,
      hp_reader_path = hud_socket_path args,
      hp_reader = reader_start now shared_state_new,
      hp_context = install dark default_fonts cc,
      hp_app = hud_app_new\<rparr>"

section \<open>What is installed\<close>

lemma install_fonts_families:
  "families (install_fonts d) Proportional = Some (''jbmono'' # (case families d Proportional of Some l \<Rightarrow> l | None \<Rightarrow> []))"
  "families (install_fonts d) Monospace = Some (''jbmono'' # (case families d Monospace of Some l \<Rightarrow> l | None \<Rightarrow> []))"
  "n \<noteq> ''jbmono-medium'' \<Longrightarrow> families (install_fonts d) (Named n) = families d (Named n)"
  by (simp_all add: install_fonts_def insert_first_def)

text \<open>Every font a family names is in the font table, when that was so before.\<close>

definition fonts_ok :: "font_definitions \<Rightarrow> bool" where
  "fonts_ok d \<longleftrightarrow> (\<forall>f l n. families d f = Some l \<longrightarrow> n \<in> set l \<longrightarrow> font_data d n \<noteq> None)"

lemma insert_first_ok: "fonts_ok d \<Longrightarrow> font_data d n \<noteq> None \<Longrightarrow> fonts_ok (insert_first f n d)"
  by (fastforce simp: fonts_ok_def insert_first_def dest: sym split: option.splits if_splits)

lemma install_fonts_ok: "fonts_ok d \<Longrightarrow> fonts_ok (install_fonts d)"
  unfolding install_fonts_def by (intro insert_first_ok) (auto simp: insert_first_def fonts_ok_def)

text \<open>
  The comment above the medium font says that \<open>RichText::strong\<close> picks it up through
  \<open>style.text_styles\<close>; the table is left as it was, so no text style uses the medium font
  unless one did before.
\<close>

lemma medium_font_is_never_selected:
  "text_styles (ctx_style (install dark d ctx)) = text_styles (ctx_style ctx)"
  by (simp add: install_def set_visuals_def Let_def)

text \<open>The theme's colours are those of the style the window is drawn with, and the start of the program.\<close>

lemma theme_is_installed:
  "style_visuals (ctx_style (install dark d ctx)) = install_visuals dark"
  "override_text_color (style_visuals (ctx_style (install dark d ctx))) = Some FG_NORMAL"
  "\<not> selectable_labels (ctx_style (install dark d ctx))"
  by (simp_all add: install_def set_visuals_def install_visuals_def Let_def)

lemma hud_starts_disconnected:
  "\<not> connected (rt_state (hp_reader (hud_main args dark d now cc)))"
  "pause_ok (hp_reader (hud_main args dark d now cc))"
  by (simp_all add: hud_main_def reader_start_def shared_state_new_def pause_ok_def BACKOFF_MIN_def BACKOFF_MAX_def)

end
