(* ===== verification/NoThread.thy ===== *)
theory NoThread
  imports TimestampPool PresentWait
begin

text \<open>
  What happens when a thread cannot be created. The reaper of the timestamp pool, the
  calibration and both present-wait workers are started with \<open>spawn(..).ok()\<close>: on a failure the
  owner is built all the same and keeps taking work that nobody does.
\<close>

section \<open>A pool without its reaper\<close>

text \<open>Steps in which nothing is reaped, with the number of successful acquires among them.\<close>

inductive unreaped :: "pool_fns set \<Rightarrow> nat \<Rightarrow> pool_state \<Rightarrow> pool_state \<Rightarrow> bool" for D where
  start: "unreaped D 0 s s"
| acquires: "unreaped D n s t \<Longrightarrow> fns \<in> D \<Longrightarrow> pool_acquire fns (inner t) = Inr (Some h, i') \<Longrightarrow>
     unreaped D (Suc n) s (t\<lparr>inner := i', live := live t @ [h]\<rparr>)"
| refuses: "unreaped D n s t \<Longrightarrow> fns \<in> D \<Longrightarrow> pool_acquire fns (inner t) = Inr (None, i') \<Longrightarrow> unreaped D n s (t\<lparr>inner := i'\<rparr>)"
| submits: "unreaped D n s t \<Longrightarrow> k < length (live t) \<Longrightarrow>
     unreaped D n s (t\<lparr>live := (live t)[k := (live t ! k)\<lparr>was_submitted := True\<rparr>]\<rparr>)"
| drops: "unreaped D n s t \<Longrightarrow> live t = xs @ h # ys \<Longrightarrow> unreaped D n s (t\<lparr>inner := handle_drop h (inner t), live := xs @ ys\<rparr>)"

lemma unreaped_steps: "unreaped D n s t \<Longrightarrow> pool_steps D s t"
proof (induction rule: unreaped.induct)
  case (acquires n s t fns h i')
  then show ?case using pool_steps.more pool_step.acquired by blast
next
  case (refuses n s t fns i')
  then show ?case using pool_steps.more pool_step.refused by blast
next
  case (submits n s t k)
  then show ?case using pool_steps.more pool_step.submitted by blast
next
  case (drops n s t xs h ys)
  then show ?case using pool_steps.more pool_step.dropped by blast
qed (rule pool_steps.none)

lemma acquire_keeps_expiring:
  assumes "\<forall>c\<in>set (chunks p). chunk_ok c" and "pool_acquire fns p = Inr (x, p')"
  shows "expiring p' = expiring p"
  using assms(1) by (rule pool_acquire_cases [of p fns]) (use assms(2) in auto)

lemma unreaped_counts:
  "unreaped D n s t \<Longrightarrow> pool_inv s \<Longrightarrow> reaping s = None \<Longrightarrow>
     reaping t = None \<and> length (held_slots t) = n + length (held_slots s)"
proof (induction rule: unreaped.induct)
  case (acquires n s t fns h i')
  have "pool_inv t" using pool_steps_keep [OF unreaped_steps [OF acquires(1)]] acquires.prems by (simp add: keeps_ledger_def)
  then have "expiring i' = expiring (inner t)" using acquire_keeps_expiring acquires(3) by (simp add: pool_inv_def)
  then show ?case using acquires by (auto simp: held_slots_def live_slots_def)
next
  case (refuses n s t fns i')
  have "pool_inv t" using pool_steps_keep [OF unreaped_steps [OF refuses(1)]] refuses.prems by (simp add: keeps_ledger_def)
  then have "expiring i' = expiring (inner t)" using acquire_keeps_expiring refuses(3) by (simp add: pool_inv_def)
  then show ?case using refuses by (auto simp: held_slots_def live_slots_def)
qed (auto simp: held_slots_def live_slots_def handle_drop_def)

lemma all_slots_finite: "finite (all_slots cs)" and all_slots_card: "card (all_slots cs) \<le> CHUNK_SIZE div 2 * length cs"
proof -
  have e: "pair_indices = (\<lambda>p. 2 * p) ` {..<CHUNK_SIZE div 2}"
    by (auto simp: pair_indices_def CHUNK_SIZE_def elim!: evenE)
  have s: "all_slots cs = {..<length cs} \<times> pair_indices" by (auto simp: all_slots_def)
  show "finite (all_slots cs)" unfolding s e by simp
  have "card pair_indices \<le> CHUNK_SIZE div 2" unfolding e using card_image_le [of "{..<CHUNK_SIZE div 2}" "\<lambda>p. 2 * p"] by simp
  then show "card (all_slots cs) \<le> CHUNK_SIZE div 2 * length cs" unfolding s by (simp add: card_cartesian_product)
qed

text \<open>
  Every bracketed submission then keeps its pair for ever: the pool has a chunk, with its query
  pool and 512 command buffers, for each 256 handles it has ever given out.
\<close>

theorem pool_without_reaper_grows:
  assumes "unreaped D n pool_start t"
  shows "n \<le> CHUNK_SIZE div 2 * length (chunks (inner t))"
proof -
  have r: "reaping pool_start = None" by (simp add: pool_start_def)
  have "pool_inv t" using pool_steps_keep [OF unreaped_steps [OF assms] pool_start_inv] by (simp add: keeps_ledger_def)
  then have "distinct (held_slots t)" "set (held_slots t) \<subseteq> all_slots (chunks (inner t))" by (auto simp: pool_inv_def)
  then have "length (held_slots t) \<le> card (all_slots (chunks (inner t)))"
    using distinct_card [of "held_slots t"] card_mono [OF all_slots_finite] by metis
  then show ?thesis
    using unreaped_counts [OF assms pool_start_inv r] all_slots_card [of "chunks (inner t)"] by linarith
qed

section \<open>Queues without their workers\<close>

text \<open>
  The queue of the present-wait worker then grows with every present that has an id, while
  that of the display-timing worker is capped for each swapchain.
\<close>

lemma present_queue_without_worker:
  "length (fold (\<lambda>(sw, pid). present_wait_enqueue sw pid) ps q) = length q + length (filter (\<lambda>(sw, pid). pid \<noteq> 0) ps)"
  by (induction ps arbitrary: q) (auto simp: present_wait_enqueue_def)

lemma google_queue_without_worker:
  "\<forall>fifo. g_pending g sw = Some fifo \<longrightarrow> length fifo \<le> GOOGLE_PENDING_CAP \<Longrightarrow>
     g_pending (fold (\<lambda>(s, pid). google_enqueue s pid) ps g) sw = Some fifo \<Longrightarrow> length fifo \<le> GOOGLE_PENDING_CAP"
proof (induction ps arbitrary: g)
  case (Cons p ps)
  have "\<forall>f. g_pending (google_enqueue (fst p) (snd p) g) sw = Some f \<longrightarrow> length f \<le> GOOGLE_PENDING_CAP"
    using Cons.prems(1)
    by (auto simp: google_enqueue_def google_push_def GOOGLE_PENDING_CAP_def split: option.splits)
  then show ?case using Cons.IH Cons.prems(2) by (simp add: case_prod_beta)
qed simp

end
