(* ===== verification/BuildScript.thy ===== *)
theory BuildScript
  imports Config PromFile
begin

text \<open>
  The build script (\<open>build.rs\<close>), which writes the manifest the loader finds the layer by, and the fuzz
  target of the configuration reader (\<open>fuzz/fuzz_targets/config_toml.rs\<close> with
  \<open>config_toml_load\<close> of \<open>src/lib.rs\<close>).
\<close>

section \<open>Standard library\<close>

text \<open>\<open>Path::parent\<close>, and the path after three of them (\<open>ancestors().nth(3)\<close>).\<close>

definition parent :: "ustr \<Rightarrow> ustr option" where
  "parent p =
     (let r = trim_rev (rev p); up = dropWhile (\<lambda>c. c \<noteq> SLASH) r in
      if r = [] then None
      else if up = [] then Some []
      else if trim_rev up = [] then Some [SLASH]
      else Some (rev (trim_rev up)))"

fun ancestor :: "nat \<Rightarrow> ustr \<Rightarrow> ustr option" where
  "ancestor 0 p = Some p"
| "ancestor (Suc n) p = Option.bind (parent p) (ancestor n)"

text \<open>\<open>str::replace\<close> with a pattern that is not empty: from the left, without overlaps.\<close>

function replace_all :: "ustr \<Rightarrow> ustr \<Rightarrow> ustr \<Rightarrow> ustr" where
  "replace_all pat to s =
     (if pat = [] \<or> s = [] then s
      else (case strip_prefix pat s of
              Some rest \<Rightarrow> to @ replace_all pat to rest
            | None \<Rightarrow> hd s # replace_all pat to (tl s)))"
  by pat_completeness auto

termination
  by (relation "measure (\<lambda>(pat, to, s). length s)") (auto simp: strip_prefix_def split: if_splits)

declare replace_all.simps [simp del]

section \<open>The build script\<close>

definition LIB_FILE :: ustr where "LIB_FILE = lit ''libVkLayer_VKPACE_reduce_latency.so''"
definition MANIFEST_FILE :: ustr where "MANIFEST_FILE = lit ''VkLayer_VKPACE_reduce_latency.json''"
definition LIB_PATH :: ustr where "LIB_PATH = lit ''@LIB_PATH@''"

datatype build_failure = NoManifestDir | NoOutDir | OutDirTooShort | TemplateMissing | WriteFailed

text \<open>The right value is the file that is written, with its contents.\<close>

definition build_main :: "environ \<Rightarrow> (ustr \<Rightarrow> bool) \<Rightarrow> build_failure + ustr \<times> ustr" where
  "build_main env write_ok =
     (case env_os env ''CARGO_MANIFEST_DIR'' of
        None \<Rightarrow> Inl NoManifestDir
      | Some manifest_dir \<Rightarrow>
     (case env_os env ''OUT_DIR'' of
        None \<Rightarrow> Inl NoOutDir
      | Some out_dir \<Rightarrow>
     (case ancestor 3 out_dir of
        None \<Rightarrow> Inl OutDirTooShort
      | Some target_dir \<Rightarrow>
          (let manifest_in = path_join manifest_dir (lit ''VkLayer_VKPACE_reduce_latency.json.in'');
               lib_path = path_join target_dir LIB_FILE;
               manifest_out = path_join target_dir MANIFEST_FILE
           in (case read_file env manifest_in of
                 Contents template \<Rightarrow>
                   (let rendered = replace_all LIB_PATH lib_path template in
                    if write_ok manifest_out then Inr (manifest_out, rendered) else Inl WriteFailed)
               | _ \<Rightarrow> Inl TemplateMissing)))))"

section \<open>What the build script writes\<close>

lemma replace_all_none:
  "(\<And>a b. s \<noteq> a @ pat @ b) \<Longrightarrow> replace_all pat to s = s"
proof (induction pat to s rule: replace_all.induct)
  case (1 pat to s)
  show ?case
  proof (cases "pat = [] \<or> s = []")
    case False
    have none: "strip_prefix pat s = None"
      using "1.prems" [of "[]" "drop (length pat) s"] append_take_drop_id [of "length pat" s]
      by (metis append_Nil option.discI strip_prefix_def)
    have "tl s \<noteq> a @ pat @ b" for a b
      using "1.prems" [of "hd s # a" b] False by (cases s) auto
    then have "replace_all pat to (tl s) = tl s" using "1.IH"(1) [OF False none] by blast
    then show ?thesis using False none by (simp add: replace_all.simps [of pat to s])
  qed (simp add: replace_all.simps [of pat to s])
qed

text \<open>A mark that begins with a character that occurs nowhere before it.\<close>

lemma replace_all_first:
  "pat \<noteq> [] \<Longrightarrow> hd pat \<notin> set pre \<Longrightarrow> replace_all pat to (pre @ pat @ post) = pre @ to @ replace_all pat to post"
proof (induction pre)
  case Nil
  then show ?case
    using replace_all.simps [of pat to "pat @ post"] by (simp add: strip_prefix_def)
next
  case (Cons c pre)
  have "strip_prefix pat (c # pre @ pat @ post) = None"
    using Cons.prems by (cases pat) (auto simp: strip_prefix_def)
  then show ?case
    using Cons replace_all.simps [of pat to "c # pre @ pat @ post"] by simp
qed

definition plain_component :: "ustr \<Rightarrow> bool" where
  "plain_component c \<longleftrightarrow> c \<noteq> [] \<and> SLASH \<notin> set c \<and> c \<noteq> [DOT]"

definition plain_path :: "ustr \<Rightarrow> bool" where
  "plain_path p \<longleftrightarrow> p \<noteq> [] \<and> trim_rev (rev p) = rev p"

lemma trim_rev_length: "length (trim_rev r) \<le> length r"
  by (induction r rule: trim_rev.induct) (auto simp: SLASH_def DOT_def)

lemma trim_rev_component:
  assumes "plain_component c"
  shows "trim_rev (rev c @ SLASH # r) = rev c @ SLASH # r"
proof (cases "rev c")
  case (Cons a l)
  then have "c = rev l @ [a]" by (metis rev_rev_ident rev.simps(2))
  then have "a \<noteq> SLASH" "l = [] \<Longrightarrow> a \<noteq> DOT" "l \<noteq> [] \<Longrightarrow> hd l \<noteq> SLASH"
    using assms by (auto simp: plain_component_def neq_Nil_conv)
  then show ?thesis unfolding Cons by (cases l) auto
qed (use assms in \<open>simp add: plain_component_def\<close>)

lemma plain_path_join:
  assumes "plain_path p" and "plain_component c"
  shows "path_join p c = p @ SLASH # c" and "plain_path (path_join p c)" and "parent (path_join p c) = Some p"
proof -
  have l: "last p \<noteq> SLASH"
    using assms(1) trim_rev_length [of "rev (butlast p)"]
    by (cases p rule: rev_cases) (auto simp: plain_path_def dest!: arg_cong [of _ _ length])
  show j: "path_join p c = p @ SLASH # c"
    using assms l by (cases c) (auto simp: path_join_def plain_component_def plain_path_def SLASH_def)
  show "plain_path (path_join p c)"
    using trim_rev_component [OF assms(2), of "rev p"] by (simp add: plain_path_def j)
  have "SLASH \<notin> set xs \<Longrightarrow> dropWhile (\<lambda>x. x \<noteq> SLASH) (xs @ SLASH # r) = SLASH # r" for xs r
    by (induction xs) auto
  from this [of "rev c" "rev p"] have "dropWhile (\<lambda>x. x \<noteq> SLASH) (rev c @ SLASH # rev p) = SLASH # rev p"
    using assms(2) by (simp add: plain_component_def)
  then show "parent (path_join p c) = Some p"
    using assms trim_rev_component [OF assms(2), of "rev p"]
    by (simp add: parent_def j plain_path_def plain_component_def Let_def)
qed

text \<open>
  Cargo's output directory of a build script is \<open>target/<profile>/build/<package>/out\<close>. The
  script then writes the manifest beside the library, with the path of the library in place of
  the mark.
\<close>

lemma build_script_writes_manifest:
  assumes "env_os env ''CARGO_MANIFEST_DIR'' = Some manifest_dir"
    and "env_os env ''OUT_DIR'' = Some (path_join (path_join (path_join target (lit ''build'')) package) (lit ''out''))"
    and "plain_path target" and "plain_component package"
    and "read_file env (path_join manifest_dir (lit ''VkLayer_VKPACE_reduce_latency.json.in'')) = Contents (pre @ LIB_PATH @ post)"
    and "64 \<notin> set pre" and "64 \<notin> set post" and "write_ok (path_join target MANIFEST_FILE)"
  shows "build_main env write_ok = Inr (path_join target MANIFEST_FILE, pre @ path_join target LIB_FILE @ post)"
proof -
  have c: "plain_component (lit ''build'')" "plain_component (lit ''out'')"
    by (simp_all add: plain_component_def lit_def SLASH_def DOT_def)
  have b: "plain_path (path_join target (lit ''build''))" "plain_path (path_join (path_join target (lit ''build'')) package)"
    using plain_path_join(2) assms(3,4) c by blast+
  have "ancestor 3 (path_join (path_join (path_join target (lit ''build'')) package) (lit ''out'')) = Some target"
    using plain_path_join(3) [OF assms(3) c(1)] plain_path_join(3) [OF b(1) assms(4)] plain_path_join(3) [OF b(2) c(2)]
    by (simp add: numeral_3_eq_3)
  moreover have "hd LIB_PATH = 64" "LIB_PATH \<noteq> []" by (simp_all add: LIB_PATH_def lit_def)
  moreover have "post \<noteq> a @ LIB_PATH @ b" for a b using assms(7) by (auto simp: LIB_PATH_def lit_def)
  then have "replace_all LIB_PATH x post = post" for x by (rule replace_all_none)
  ultimately show ?thesis
    using assms by (simp add: build_main_def Let_def replace_all_first)
qed

section \<open>The fuzz target of the configuration reader\<close>

text \<open>
  \<open>data\<close> is the input as text, if it is UTF-8; \<open>dir\<close> is the directory for temporary files. The
  environment and the file are set for the call, and the result is what the reader
  returns.
\<close>

definition config_toml_load :: "environ \<Rightarrow> ustr \<Rightarrow> nat \<Rightarrow> (ustr \<Rightarrow> bool) \<Rightarrow> ustr \<Rightarrow> app_override list option" where
  "config_toml_load env dir pid write_ok input =
     (let path = path_join dir (lit ''vkpace-fuzz-'' @ show_dec pid @ lit ''.toml'') in
      if \<not> write_ok path then None
      else load_toml (env\<lparr>env_var := (env_var env)(''VKPACE_CONFIG'' := Some path),
        read_file := (read_file env)(path := Contents input)\<rparr>))"

definition fuzz_config_toml :: "environ \<Rightarrow> ustr \<Rightarrow> nat \<Rightarrow> (ustr \<Rightarrow> bool) \<Rightarrow> ustr option \<Rightarrow> app_override list option" where
  "fuzz_config_toml env dir pid write_ok data =
     (case data of
        None \<Rightarrow> None
      | Some s \<Rightarrow> if 64 * 1024 < byte_len s then None else config_toml_load env dir pid write_ok s)"

text \<open>The reader makes at most one override of a line, so its memory is bounded by the input.\<close>

lemma toml_line_sections: "length (finish_section (toml_line l st)) \<le> Suc (length (finish_section st))"
  by (auto simp: toml_line_def finish_section_def Let_def split: option.splits prod.splits)

lemma toml_lines_sections: "length (finish_section (fold toml_line ls st)) \<le> length ls + length (finish_section st)"
proof (induction ls arbitrary: st)
  case (Cons l ls)
  then show ?case using le_trans [OF Cons.IH [of "toml_line l st"]] toml_line_sections [of l st] by simp
qed simp

lemma split_on_length: "length (split_on c s) \<le> Suc (length s)"
  by (induction s) (auto split: list.splits)

lemma parse_toml_bound: "length (parse_toml s) \<le> Suc (length s)"
proof -
  have "length (lines_of s) \<le> length (split_on 10 s)"
    using split_on_nonempty [of 10 s] by (auto simp: lines_of_def Let_def Suc_le_eq)
  then show ?thesis
    using toml_lines_sections [of "lines_of s" "([], None)"] split_on_length [of 10 s]
    by (simp add: parse_toml_def finish_section_def)
qed

lemma fuzz_config_toml_passes:
  assumes "\<forall>path. write_ok path" and "byte_len s \<le> 64 * 1024"
  shows "fuzz_config_toml env dir pid write_ok (Some s) = Some (parse_toml s)" and "length (parse_toml s) \<le> Suc (length s)"
  using assms parse_toml_bound by (simp_all add: fuzz_config_toml_def config_toml_load_def load_toml_def locate_toml_def Let_def)

end
