(* ===== verification/LayerTests.thy ===== *)
theory LayerTests
  imports "HOL-Library.List_Lexorder" Telemetry Bitset Delay PNextIter Config AntiLag Markers
begin

text \<open>
  The unit tests of the layer (\<open>mod tests\<close> of its files) and its fuzz target of the chain
  walker (\<open>fuzz/fuzz_targets/pnext_find.rs\<close>), as functions on the model: a test is the
  conjunction of its assertions, in their order, and a lemma of the same name with the suffix
  \<open>_passes\<close> proves it. A test that reads the clock takes it as an argument and passes for
  every clock; where it needs time to go on, the lemma says so.
\<close>

section \<open>Delay controller\<close>

text \<open>
  The harness and \<open>n\<close> steps of it. It installs a previous frame without jitter each time. A
  failed or endless call is a failed test.
\<close>

definition step_with_frametime ::
  "(nat \<Rightarrow> u64) \<Rightarrow> i64 \<Rightarrow> delay_controller \<times> nat \<Rightarrow> (panic + delay_controller \<times> nat) option" where
  "step_with_frametime clk frametime x =
     (case x of (ctl, k) \<Rightarrow>
        let now = clk k;
            prev = \<lparr>frametime_ns = frametime, jitter_ns = 0, release_ns = saturating_sub now (i64_as_u64 frametime)\<rparr>
        in delay clk 0 (ctl\<lparr>previous_frame := Some prev\<rparr>) (Suc k))"

fun steps_with_frametime ::
  "(nat \<Rightarrow> u64) \<Rightarrow> i64 \<Rightarrow> nat \<Rightarrow> delay_controller \<times> nat \<Rightarrow> (panic + delay_controller \<times> nat) option" where
  "steps_with_frametime clk frametime 0 x = Some (Inr x)"
| "steps_with_frametime clk frametime (Suc n) x =
     (case step_with_frametime clk frametime x of
        Some (Inr y) \<Rightarrow> steps_with_frametime clk frametime n y
      | r \<Rightarrow> r)"

definition test_drain_stays_zero_when_coupled :: "(nat \<Rightarrow> u64) \<Rightarrow> bool" where
  "test_drain_stays_zero_when_coupled clk \<longleftrightarrow>
     (case steps_with_frametime clk 8000000 50 (delay_controller_new False, 0) of
        Some (Inr (ctl, _)) \<Rightarrow> drain_ns ctl = 0
      | _ \<Rightarrow> False)"

definition test_previous_frame_initialized_on_first_call :: "(nat \<Rightarrow> u64) \<Rightarrow> bool" where
  "test_previous_frame_initialized_on_first_call clk \<longleftrightarrow>
     previous_frame (delay_controller_new True) = None
     \<and> (case delay clk 0 (delay_controller_new True) 0 of
          Some (Inr (ctl, _)) \<Rightarrow> previous_frame ctl \<noteq> None
        | _ \<Rightarrow> False)"

definition test_min_delay_zero_is_noop :: "(nat \<Rightarrow> u64) \<Rightarrow> bool" where
  "test_min_delay_zero_is_noop clk \<longleftrightarrow>
     (case delay clk 0 (delay_controller_new False) 0 of
        Some (Inr (ctl, k)) \<Rightarrow>
          (let before = clk k in
           case delay clk 0 ctl (Suc k) of
             Some (Inr (_, k')) \<Rightarrow> (let after = clk k' in after - before < 5000000)
           | _ \<Rightarrow> False)
      | _ \<Rightarrow> False)"

definition test_drain_bounds_under_stable_frametime :: "(nat \<Rightarrow> u64) \<Rightarrow> bool" where
  "test_drain_bounds_under_stable_frametime clk \<longleftrightarrow>
     (let target = 16000000 in
      case steps_with_frametime clk target 400 (delay_controller_new True, 0) of
        Some (Inr (ctl, _)) \<Rightarrow> drain_ns ctl \<ge> 0 \<and> drain_ns ctl \<le> target \<and> - 1 \<le> gradient_ewma ctl \<and> gradient_ewma ctl \<le> 1
      | _ \<Rightarrow> False)"

definition test_drain_stays_zero_when_coupled_long_run :: "(nat \<Rightarrow> u64) \<Rightarrow> bool" where
  "test_drain_stays_zero_when_coupled_long_run clk \<longleftrightarrow>
     (case steps_with_frametime clk 8000000 1000 (delay_controller_new False, 0) of
        Some (Inr (ctl, _)) \<Rightarrow> drain_ns ctl = 0
      | _ \<Rightarrow> False)"

text \<open>
  A step of the harness leaves the drain and the gradient alone, in both modes: the frame it
  installs has no jitter, so the call takes the half of the cycle that updates neither.
\<close>

lemma harness_step:
  assumes "\<not> simulation_decoupled c \<or> (\<forall>d n. \<exists>j\<ge>n. d \<le> clk j)"
  shows "\<exists>c' k'. step_with_frametime clk ft (c, k) = Some (Inr (c', k'))
    \<and> drain_ns c' = drain_ns c \<and> gradient_ewma c' = gradient_ewma c \<and> simulation_decoupled c' = simulation_decoupled c"
proof (cases "simulation_decoupled c")
  case False
  then show ?thesis by (simp add: step_with_frametime_def Let_def delay_def set_previous_def)
next
  case True
  have "spin_until clk d n \<noteq> None" for d n
    using assms True spin_until_iff [of clk d n] by (meson linorder_not_less)
  then have "\<exists>n'. spin_until clk d n = Some n'" for d n by blast
  then obtain k2 where "spin_until clk (clk (Suc (Suc k)) + i64_as_u64 (max (wrap_i64 (next_jitter
      (u64_as_i64 (saturating_sub (clk (Suc k)) (saturating_sub (clk k) (i64_as_u64 ft))))
      \<lparr>frametime_ns = ft, jitter_ns = 0, release_ns = saturating_sub (clk k) (i64_as_u64 ft)\<rparr> + drain_ns c)) 0)) (Suc (Suc (Suc k))) = Some k2"
    by blast
  then show ?thesis using True by (simp add: step_with_frametime_def Let_def delay_def set_previous_def)
qed

lemma harness_steps:
  assumes "\<not> simulation_decoupled c \<or> (\<forall>d n. \<exists>j\<ge>n. d \<le> clk j)"
  shows "\<exists>c' k'. steps_with_frametime clk ft n (c, k) = Some (Inr (c', k'))
    \<and> drain_ns c' = drain_ns c \<and> gradient_ewma c' = gradient_ewma c"
  using assms
proof (induction n arbitrary: c k)
  case (Suc n)
  obtain c1 k1 where c1: "step_with_frametime clk ft (c, k) = Some (Inr (c1, k1))"
      "drain_ns c1 = drain_ns c" "gradient_ewma c1 = gradient_ewma c" "simulation_decoupled c1 = simulation_decoupled c"
    using harness_step [OF Suc.prems] by blast
  then have "\<not> simulation_decoupled c1 \<or> (\<forall>d n. \<exists>j\<ge>n. d \<le> clk j)" using Suc.prems by simp
  from Suc.IH [OF this, of k1] c1 show ?case by simp
qed simp

lemma new_controller_fields [simp]:
  "simulation_decoupled (delay_controller_new d) = d" "drain_ns (delay_controller_new d) = 0"
  "gradient_ewma (delay_controller_new d) = 0" "previous_frame (delay_controller_new d) = None"
  by (simp_all add: delay_controller_new_def)

lemma test_drain_stays_zero_when_coupled_passes: "test_drain_stays_zero_when_coupled clk"
  using harness_steps [of "delay_controller_new False" clk 8000000 50 0] by (auto simp: test_drain_stays_zero_when_coupled_def)

lemma test_previous_frame_initialized_on_first_call_passes: "test_previous_frame_initialized_on_first_call clk"
  by (simp add: test_previous_frame_initialized_on_first_call_def delay_def set_previous_def)

text \<open>The second call reads the clock twice and waits for nothing; five milliseconds are enough for the five readings.\<close>

lemma test_min_delay_zero_is_noop_passes: "clk 4 - clk 1 < 5000000 \<Longrightarrow> test_min_delay_zero_is_noop clk"
  by (simp add: test_min_delay_zero_is_noop_def delay_def set_previous_def Let_def eval_nat_numeral)

lemma test_drain_bounds_under_stable_frametime_passes:
  "\<forall>d n. \<exists>j\<ge>n. d \<le> clk j \<Longrightarrow> test_drain_bounds_under_stable_frametime clk"
  using harness_steps [of "delay_controller_new True" clk 16000000 400 0] by (auto simp: test_drain_bounds_under_stable_frametime_def)

lemma test_drain_stays_zero_when_coupled_long_run_passes: "test_drain_stays_zero_when_coupled_long_run clk"
  using harness_steps [of "delay_controller_new False" clk 8000000 1000 0] by (auto simp: test_drain_stays_zero_when_coupled_long_run_def)

text \<open>
  What the test of the bounds tests: after any number of steps the drain and the gradient of a
  decoupled controller are still those of a new one, so the bounds hold without the code that
  is meant to keep them.
\<close>

lemma stable_frametime_harness_never_drains:
  assumes "\<forall>d n. \<exists>j\<ge>n. d \<le> clk j"
  shows "\<exists>c k. steps_with_frametime clk ft n (delay_controller_new True, 0) = Some (Inr (c, k)) \<and> drain_ns c = 0 \<and> gradient_ewma c = 0"
  using harness_steps [of "delay_controller_new True" clk ft n 0] assms by simp

section \<open>Chain walker\<close>

text \<open>The structure types of the tests, and a structure of the tests: a header with a payload.\<close>

definition APPLICATION_INFO :: stype where "APPLICATION_INFO = OTHER_STYPE 0"
definition INSTANCE_CREATE_INFO :: stype where "INSTANCE_CREATE_INFO = OTHER_STYPE 1"
definition DEVICE_CREATE_INFO :: stype where "DEVICE_CREATE_INFO = OTHER_STYPE 3"

definition header :: "stype \<Rightarrow> nat \<Rightarrow> pnode" where
  "header t p = \<lparr>s_type = t, p_next = p, flags = (\<lambda>_. False), layer_function = 0, p_layer_info = 0\<rparr>"

definition test_finds_typed_link :: bool where
  "test_finds_typed_link \<longleftrightarrow>
     (let links = [(100, header INSTANCE_CREATE_INFO 200, 7 :: u32), (200, header APPLICATION_INFO 0, 42)];
          h = map_of (map (\<lambda>(a, n, _). (a, n)) links);
          payload = map_of (map (\<lambda>(a, _, v). (a, v)) links)
      in case find_typed h 100 APPLICATION_INFO of
           Some (Some p) \<Rightarrow> payload p = Some 42
         | _ \<Rightarrow> False)"

definition test_returns_none_when_missing :: bool where
  "test_returns_none_when_missing \<longleftrightarrow>
     (let h = [100 \<mapsto> header INSTANCE_CREATE_INFO 0] in find_typed h 100 APPLICATION_INFO = Some None)"

definition test_null_head_is_safe :: bool where
  "test_null_head_is_safe \<longleftrightarrow>
     (let iter = pnext_iter_new 0 in map_option fst (pnext_iter_next Map.empty iter) = Some None)"

definition test_iterates_full_chain :: bool where
  "test_iterates_full_chain \<longleftrightarrow>
     (let h = [100 \<mapsto> header INSTANCE_CREATE_INFO 200, 200 \<mapsto> header APPLICATION_INFO 300, 300 \<mapsto> header DEVICE_CREATE_INFO 0]
      in map_option (map fst) (iter_all h (pnext_iter_new 100)) = Some [INSTANCE_CREATE_INFO, APPLICATION_INFO, DEVICE_CREATE_INFO])"

lemma header_fields [simp]: "s_type (header t p) = t" "p_next (header t p) = p"
  by (simp_all add: header_def)

lemma test_finds_typed_link_passes: test_finds_typed_link
proof -
  have "find_typed [100 \<mapsto> header INSTANCE_CREATE_INFO 200, 200 \<mapsto> header APPLICATION_INFO 0] 100 APPLICATION_INFO = Some (Some 200)"
    by (subst find_typed_unfold, simp, subst find_typed_unfold) (simp add: INSTANCE_CREATE_INFO_def APPLICATION_INFO_def)
  then show ?thesis by (simp add: test_finds_typed_link_def fun_upd_twist)
qed

lemma test_returns_none_when_missing_passes: test_returns_none_when_missing
proof -
  have "find_typed [100 \<mapsto> header INSTANCE_CREATE_INFO 0] 100 APPLICATION_INFO = Some None"
    by (subst find_typed_unfold, simp, subst find_typed_unfold) (simp add: INSTANCE_CREATE_INFO_def APPLICATION_INFO_def)
  then show ?thesis by (simp add: test_returns_none_when_missing_def)
qed

lemma test_null_head_is_safe_passes: test_null_head_is_safe
  by (simp add: test_null_head_is_safe_def pnext_iter_next_def pnext_iter_new_def)

lemma test_iterates_full_chain_passes: test_iterates_full_chain
proof -
  let ?h = "[100 \<mapsto> header INSTANCE_CREATE_INFO 200, 200 \<mapsto> header APPLICATION_INFO 300, 300 \<mapsto> header DEVICE_CREATE_INFO 0]"
  have "chain ?h 100 [100, 200, 300]" by simp
  from iter_all_chain [OF this] show ?thesis by (simp add: test_iterates_full_chain_def pnext_iter_new_def)
qed

section \<open>Fuzzing the chain walker\<close>

text \<open>
  The target cuts the input into headers of \<open>HEADER_SIZE\<close> bytes, takes the type of each from
  its first four bytes, and links them in order, the last one to null. The headers lie one
  after the other from \<open>base\<close> on, and nothing else can be read. The walk has no value if it
  reads anywhere else or never ends. \<open>raw_stype\<close> says which raw value is which type.
\<close>

definition HEADER_SIZE :: nat where "HEADER_SIZE = 16"

definition pnext_find_any :: "store \<Rightarrow> nat \<Rightarrow> bool option" where
  "pnext_find_any h head = map_option (\<lambda>_. True) (iter_all h (pnext_iter_new head))"

definition i32_from_ne_bytes :: "nat list \<Rightarrow> int" where
  "i32_from_ne_bytes bs = sint (of_nat (foldr (\<lambda>b acc. b + 256 * acc) bs 0) :: 32 word)"

definition fuzz_header :: "(int \<Rightarrow> stype) \<Rightarrow> nat \<Rightarrow> nat \<Rightarrow> nat list \<Rightarrow> nat \<Rightarrow> pnode" where
  "fuzz_header raw_stype base n bytes i =
     header (raw_stype (i32_from_ne_bytes (take 4 (drop (i * HEADER_SIZE) bytes))))
       (if i < n - 1 then base + (i + 1) * HEADER_SIZE else 0)"

definition fuzz_store :: "(int \<Rightarrow> stype) \<Rightarrow> nat \<Rightarrow> nat list \<Rightarrow> store" where
  "fuzz_store raw_stype base bytes =
     (let n = length bytes div HEADER_SIZE in
      map_of (map (\<lambda>i. (base + i * HEADER_SIZE, fuzz_header raw_stype base n bytes i)) [0..<n]))"

definition fuzz_pnext_find :: "(int \<Rightarrow> stype) \<Rightarrow> nat \<Rightarrow> nat list \<Rightarrow> bool option" where
  "fuzz_pnext_find raw_stype base bytes =
     (if length bytes < HEADER_SIZE then Some True
      else pnext_find_any (fuzz_store raw_stype base bytes) base)"

lemma fuzz_store_at:
  assumes "i < length bytes div HEADER_SIZE"
  shows "fuzz_store raw base bytes (base + i * HEADER_SIZE) = Some (fuzz_header raw base (length bytes div HEADER_SIZE) bytes i)"
proof -
  have "inj_on (\<lambda>i. base + i * HEADER_SIZE) A" for A by (rule inj_onI) (simp add: HEADER_SIZE_def)
  then show ?thesis
    using assms by (auto simp: fuzz_store_def Let_def map_of_eq_Some_iff distinct_map o_def intro!: rev_image_eqI [of i])
qed

lemma fuzz_chain:
  assumes "base > 0" and n: "n = length bytes div HEADER_SIZE" and "k \<le> n" and "0 < k"
  shows "chain (fuzz_store raw base bytes) (base + (n - k) * HEADER_SIZE) (map (\<lambda>i. base + i * HEADER_SIZE) [n - k..<n])"
  using assms(3,4)
proof (induction k)
  case (Suc k)
  let ?i = "n - Suc k"
  have i: "?i < n" using Suc.prems by simp
  have upt: "[?i..<n] = ?i # [Suc ?i..<n]" using upt_conv_Cons [OF i] .
  have here: "fuzz_store raw base bytes (base + ?i * HEADER_SIZE) = Some (fuzz_header raw base n bytes ?i)"
    using fuzz_store_at [of ?i bytes raw base] i n by simp
  show ?case
  proof (cases "k = 0")
    case True
    then show ?thesis using here upt assms(1) Suc.prems by (simp add: fuzz_header_def)
  next
    case False
    then have s: "Suc ?i = n - k" "?i < n - 1" using Suc.prems by simp_all
    have "chain (fuzz_store raw base bytes) (base + (n - k) * HEADER_SIZE) (map (\<lambda>i. base + i * HEADER_SIZE) [n - k..<n])"
      using Suc.IH Suc.prems False by simp
    then show ?thesis using here upt s assms(1) by (simp add: fuzz_header_def del: mult_Suc)
  qed
qed simp

text \<open>What the fuzzer looks for on one input after the other holds on all: the walk ends and stays inside the headers.\<close>

lemma fuzz_pnext_find_passes:
  assumes "base > 0"
  shows "fuzz_pnext_find raw_stype base bytes = Some True"
proof (cases "length bytes < HEADER_SIZE")
  case False
  let ?n = "length bytes div HEADER_SIZE"
  have "0 < ?n" using False by (simp add: HEADER_SIZE_def div_greater_zero_iff)
  from fuzz_chain [OF assms refl order_refl this, of raw_stype]
  have "chain (fuzz_store raw_stype base bytes) base (map (\<lambda>i. base + i * HEADER_SIZE) [0..<?n])" by simp
  from iter_all_chain [OF this] show ?thesis using False by (simp add: fuzz_pnext_find_def pnext_find_any_def pnext_iter_new_def)
qed (simp add: fuzz_pnext_find_def)

section \<open>Marker history\<close>

text \<open>\<open>clk i\<close> is the clock as the \<open>i\<close>-th call reads it. A panic is a failed test.\<close>

definition after_ops :: "history_op list \<Rightarrow> history \<Rightarrow> (history \<Rightarrow> bool) \<Rightarrow> bool" where
  "after_ops ops h assertion \<longleftrightarrow> (case run_history ops h of Inl _ \<Rightarrow> False | Inr h' \<Rightarrow> assertion h')"

definition input_samples :: "(nat \<Rightarrow> u64) \<Rightarrow> u64 list \<Rightarrow> history_op list" where
  "input_samples clk pids = map (\<lambda>i. MarkerOp (clk i) (pids ! i) INPUT_SAMPLE) [0..<length pids]"

definition set_first :: "(frame_markers \<Rightarrow> frame_markers) \<Rightarrow> history \<Rightarrow> history" where
  "set_first g h = h\<lparr>frames := (frames h)[0 := g (frames h ! 0)]\<rparr>"

definition test_record_dedupes_by_present_id :: "(nat \<Rightarrow> u64) \<Rightarrow> bool" where
  "test_record_dedupes_by_present_id clk \<longleftrightarrow>
     after_ops [MarkerOp (clk 0) 42 INPUT_SAMPLE, MarkerOp (clk 1) 42 SIMULATION_START, MarkerOp (clk 2) 42 PRESENT_END] history_new
       (\<lambda>h. length (frames h) = 1 \<and> fm_present_id (frames h ! 0) = 42)"

definition test_fill_two_call_protocol_returns_count_with_null_buffer :: "(nat \<Rightarrow> u64) \<Rightarrow> bool" where
  "test_fill_two_call_protocol_returns_count_with_null_buffer clk \<longleftrightarrow>
     after_ops (input_samples clk [1, 2, 3, 4, 5]) history_new
       (\<lambda>h. timing_count (fill \<lparr>timing_count = 0, p_timings = None\<rparr> h) = 5)"

definition test_fill_writes_up_to_requested_count_in_reverse_order :: "(nat \<Rightarrow> u64) \<Rightarrow> bool" where
  "test_fill_writes_up_to_requested_count_in_reverse_order clk \<longleftrightarrow>
     after_ops (input_samples clk [1, 2, 3, 4, 5]) history_new
       (\<lambda>h. let info = fill \<lparr>timing_count = 3, p_timings = Some (replicate 3 (frame_default 0))\<rparr> h in
          timing_count info = 3 \<and>
          (case p_timings info of
             Some buf \<Rightarrow> fm_present_id (buf ! 0) = 5 \<and> fm_present_id (buf ! 1) = 4 \<and> fm_present_id (buf ! 2) = 3
           | None \<Rightarrow> False))"

definition test_history_cap_evicts_oldest :: "(nat \<Rightarrow> u64) \<Rightarrow> bool" where
  "test_history_cap_evicts_oldest clk \<longleftrightarrow>
     after_ops (input_samples clk (map of_nat [0..<HISTORY_CAP + 32])) history_new
       (\<lambda>h. length (frames h) = HISTORY_CAP
          \<and> fm_present_id (hd (frames h)) = 32 \<and> fm_present_id (last (frames h)) = of_nat (HISTORY_CAP + 31)
          \<and> card (dom (by_present_id h)) = HISTORY_CAP)"

definition test_latency_source_skips_frames_missing_endpoints :: "(nat \<Rightarrow> u64) \<Rightarrow> bool" where
  "test_latency_source_skips_frames_missing_endpoints clk \<longleftrightarrow>
     after_ops [MarkerOp (clk 0) 1 INPUT_SAMPLE] history_new
       (\<lambda>h. after_ops [MarkerOp (clk 1) 2 INPUT_SAMPLE]
          (set_first (\<lambda>f. f\<lparr>input_sample_us := 100, present_end_us := 500\<rparr>) h)
          (\<lambda>h. latencies_us h [] = [400]))"

definition test_record_present_actual_does_not_clobber_app_present_end :: "(nat \<Rightarrow> u64) \<Rightarrow> bool" where
  "test_record_present_actual_does_not_clobber_app_present_end clk \<longleftrightarrow>
     after_ops [MarkerOp (clk 0) 7 INPUT_SAMPLE] history_new
       (\<lambda>h. after_ops [PresentActualOp 7 1500000]
          (set_first (\<lambda>f. f\<lparr>input_sample_us := 100, present_end_us := 800\<rparr>) h)
          (\<lambda>h. present_end_us (frames h ! 0) = 800 \<and> display_actual_us (frames h ! 0) = 1500))"

definition test_latency_source_prefers_display_actual_over_app_present_end :: "(nat \<Rightarrow> u64) \<Rightarrow> bool" where
  "test_latency_source_prefers_display_actual_over_app_present_end clk \<longleftrightarrow>
     after_ops [MarkerOp (clk 0) 9 INPUT_SAMPLE] history_new
       (\<lambda>h. latencies_us
          (set_first (\<lambda>f. f\<lparr>input_sample_us := 100, present_end_us := 200, display_actual_us := 1000\<rparr>) h) [] = [900])"

lemmas run_markers = after_ops_def run_history_op_def record_marker_def record_present_actual_def append_frame_def
  evict_oldest_def history_new_def update_slot_def stamp_def frame_default_def HISTORY_CAP_def set_first_def
  input_samples_def latencies_us_def frame_latency_def fill_def frame_report_def Let_def

lemma test_record_dedupes_by_present_id_passes: "test_record_dedupes_by_present_id clk"
  by (simp add: test_record_dedupes_by_present_id_def run_markers)

lemma test_latency_source_skips_frames_missing_endpoints_passes: "test_latency_source_skips_frames_missing_endpoints clk"
  by (simp add: test_latency_source_skips_frames_missing_endpoints_def run_markers)

lemma test_record_present_actual_does_not_clobber_app_present_end_passes:
  "test_record_present_actual_does_not_clobber_app_present_end clk"
  by (simp add: test_record_present_actual_does_not_clobber_app_present_end_def run_markers)

lemma test_latency_source_prefers_display_actual_over_app_present_end_passes:
  "test_latency_source_prefers_display_actual_over_app_present_end clk"
  by (simp add: test_latency_source_prefers_display_actual_over_app_present_end_def run_markers)

text \<open>Recording pairwise different ids keeps the newest \<open>HISTORY_CAP\<close> of them, in order.\<close>

lemma samples_kept:
  assumes "distinct pids"
  shows "\<exists>h. run_history (input_samples clk pids) history_new = Inr h \<and> history_inv h
    \<and> map fm_present_id (frames h) = drop (length pids - HISTORY_CAP) pids"
  using assms
proof (induction pids rule: rev_induct)
  case Nil
  then show ?case by (simp add: input_samples_def history_new_inv) (simp add: history_new_def)
next
  case (snoc pid pids)
  obtain h where h: "run_history (input_samples clk pids) history_new = Inr h" "history_inv h"
      "map fm_present_id (frames h) = drop (length pids - HISTORY_CAP) pids"
    using snoc by auto
  have split: "input_samples clk (pids @ [pid]) = input_samples clk pids @ [MarkerOp (clk (length pids)) pid INPUT_SAMPLE]"
    by (simp add: input_samples_def nth_append)
  have run: "run_history (ops @ [op]) g = (case run_history ops g of Inl e \<Rightarrow> Inl e | Inr g' \<Rightarrow> run_history_op op g')" for ops op g
    by (induction ops arbitrary: g) (auto split: sum.splits)
  have ids: "fm_present_id ` set (frames h) = set (drop (length pids - HISTORY_CAP) pids)"
    using arg_cong [OF h(3), of set] by simp
  have "pid \<notin> set pids" using snoc.prems by simp
  then have "pid \<notin> fm_present_id ` set (frames h)" using ids set_drop_subset by fastforce
  then have new: "by_present_id h pid = None" using h(2) by (auto simp: history_inv_def)
  let ?h = "append_frame (stamp INPUT_SAMPLE (clk (length pids) div 1000) (frame_default pid)) (evict_oldest h)"
  have r: "run_history (input_samples clk (pids @ [pid])) history_new = Inr ?h" "history_inv ?h"
    using record_marker_new(1,2) [OF h(2) new] h(1) split run by (simp_all add: run_history_op_def)
  have len: "length (frames h) = min (length pids) HISTORY_CAP" using arg_cong [OF h(3), of length] by simp
  have "map fm_present_id (frames ?h) = map fm_present_id (if length (frames h) = HISTORY_CAP then tl (frames h) else frames h) @ [pid]"
    by (simp add: append_frame_def evict_oldest_inv(3) [OF h(2)])
  also have "\<dots> = drop (length (pids @ [pid]) - HISTORY_CAP) (pids @ [pid])"
  proof (cases "HISTORY_CAP \<le> length pids")
    case True
    then have "length (pids @ [pid]) - HISTORY_CAP = Suc (length pids - HISTORY_CAP)" by simp
    then show ?thesis using h(3) len True by (simp add: map_tl drop_Suc tl_drop HISTORY_CAP_def)
  qed (use h(3) len in simp)
  finally show ?case using r by blast
qed

lemma test_fill_two_call_protocol_returns_count_with_null_buffer_passes:
  "test_fill_two_call_protocol_returns_count_with_null_buffer clk"
proof -
  obtain h where h: "run_history (input_samples clk [1, 2, 3, 4, 5]) history_new = Inr h" "map fm_present_id (frames h) = [1, 2, 3, 4, 5]"
    using samples_kept [of "[1, 2, 3, 4, 5]" clk] by (auto simp: HISTORY_CAP_def)
  have "length (frames h) = 5" using arg_cong [OF h(2), of length] by simp
  then show ?thesis using h(1)
    by (simp add: test_fill_two_call_protocol_returns_count_with_null_buffer_def after_ops_def fill_def)
qed

lemma test_fill_writes_up_to_requested_count_in_reverse_order_passes:
  "test_fill_writes_up_to_requested_count_in_reverse_order clk"
proof -
  obtain h where h: "run_history (input_samples clk [1, 2, 3, 4, 5]) history_new = Inr h" "map fm_present_id (frames h) = [1, 2, 3, 4, 5]"
    using samples_kept [of "[1, 2, 3, 4, 5]" clk] by (auto simp: HISTORY_CAP_def)
  then obtain a b c d e where f: "frames h = [a, b, c, d, e]" by (auto simp: map_eq_Cons_conv)
  then show ?thesis using h
    by (simp add: test_fill_writes_up_to_requested_count_in_reverse_order_def after_ops_def fill_def frame_report_def Let_def)
qed

lemma test_history_cap_evicts_oldest_passes: "test_history_cap_evicts_oldest clk"
proof -
  let ?pids = "map of_nat [0..<HISTORY_CAP + 32] :: u64 list"
  have "i = j" if "i < 160" "j < 160" "(of_nat i :: u64) = of_nat j" for i j
    using arg_cong [OF that(3), of unat] that(1,2) by (simp add: unat_of_nat)
  then have "distinct ?pids" by (auto simp: distinct_map inj_on_def HISTORY_CAP_def)
  from samples_kept [OF this, of clk] obtain h where h: "run_history (input_samples clk ?pids) history_new = Inr h" "history_inv h"
      "map fm_present_id (frames h) = drop 32 ?pids" by (auto simp: HISTORY_CAP_def)
  have len: "length (frames h) = HISTORY_CAP" using arg_cong [OF h(3), of length] by simp
  have ne: "frames h \<noteq> []" using len by (auto simp: HISTORY_CAP_def)
  have ends: "drop 32 ?pids = map of_nat [32..<HISTORY_CAP + 32]" by (simp add: drop_map)
  have "fm_present_id (hd (frames h)) = 32"
    using arg_cong [OF h(3), of hd] ne unfolding ends by (simp add: hd_map HISTORY_CAP_def)
  moreover have "fm_present_id (last (frames h)) = of_nat (HISTORY_CAP + 31)"
    using arg_cong [OF h(3), of last] ne unfolding ends by (simp add: last_map HISTORY_CAP_def)
  moreover have "card (dom (by_present_id h)) = HISTORY_CAP"
    using h(2) len distinct_card [of "map fm_present_id (frames h)"] by (simp add: history_inv_def)
  ultimately show ?thesis using h(1) len by (simp add: test_history_cap_evicts_oldest_def after_ops_def del: map_map)
qed

section \<open>Configuration\<close>

definition find_preset :: "ustr \<Rightarrow> spoof_profile option" where
  "find_preset key = map_option snd (find (\<lambda>x. fst x = key) NVIDIA_PRESETS)"

definition contains_str :: "ustr \<Rightarrow> ustr \<Rightarrow> bool" where
  "contains_str s t \<longleftrightarrow> list_ex (\<lambda>i. take (length t) (drop i s) = t) [0..<Suc (length s)]"

definition starts_with :: "ustr \<Rightarrow> ustr \<Rightarrow> bool" where
  "starts_with s t \<longleftrightarrow> strip_prefix t s \<noteq> None"

definition test_config :: "bool \<Rightarrow> app_override list \<Rightarrow> layer_config" where
  "test_config decoupled overrides = \<lparr>expose_reflex = False, spoof_nvidia = False, force_decoupled = decoupled,
     spoof_profile = \<lparr>device_id = 0, device_name = []\<rparr>, fps_cap = 0, vrr_enabled = False,
     vrr_offset_hz = DEFAULT_VRR_OFFSET_HZ, per_app = overrides\<rparr>"

definition test_default_preset_resolves_to_5090 :: bool where
  "test_default_preset_resolves_to_5090 \<longleftrightarrow>
     (case find_preset DEFAULT_PRESET of
        Some p \<Rightarrow> device_id p = 0x2B85 \<and> contains_str (device_name p) (lit ''5090'')
      | None \<Rightarrow> False)"

definition test_presets_cover_all_four_generations :: bool where
  "test_presets_cover_all_four_generations \<longleftrightarrow>
     (let has_gen = (\<lambda>prefix. list_ex (\<lambda>x. starts_with (fst x) (lit prefix)) NVIDIA_PRESETS) in
      has_gen ''RTX_2'' \<and> has_gen ''RTX_3'' \<and> has_gen ''RTX_4'' \<and> has_gen ''RTX_5'')"

definition test_preset_keys_unique :: bool where
  "test_preset_keys_unique \<longleftrightarrow>
     (let keys = sort (map fst NVIDIA_PRESETS) in length (remdups_adj keys) = length keys)"

definition test_known_decoupled_app :: bool where
  "test_known_decoupled_app \<longleftrightarrow>
     (let cfg = test_config False [] in
      is_known_decoupled (Some (lit ''Marvel-Win64-Shipping.exe'')) cfg
      \<and> \<not> is_known_decoupled (Some (lit ''unknown.exe'')) cfg \<and> \<not> is_known_decoupled None cfg)"

definition test_force_decoupled_overrides :: bool where
  "test_force_decoupled_overrides \<longleftrightarrow>
     (let cfg = test_config True [] in is_known_decoupled None cfg \<and> is_known_decoupled (Some (lit ''anything.exe'')) cfg)"

definition test_fps_cap_to_min_delay_ns :: bool where
  "test_fps_cap_to_min_delay_ns \<longleftrightarrow>
     (let cfg = test_config False [] in
      fps_cap_min_delay_ns cfg = 0 \<and> fps_cap_min_delay_ns (cfg\<lparr>fps_cap := 60\<rparr>) = 16666666
      \<and> fps_cap_min_delay_ns (cfg\<lparr>fps_cap := 240\<rparr>) = 4166666)"

definition test_per_app_override_applied :: "environ \<Rightarrow> bool" where
  "test_per_app_override_applied env \<longleftrightarrow>
     (let o1 = (new_override (lit ''test.exe''))\<lparr>ao_expose_reflex := Some True, ao_spoof_nvidia := Some True,
                 ao_fps_cap := Some 144, ao_spoof_model := Some (lit ''RTX_4090'')\<rparr>
      in case finalize_for_app env (Some (lit ''test.exe'')) (test_config False [o1]) of
           Inr cfg \<Rightarrow> expose_reflex cfg \<and> spoof_nvidia cfg \<and> fps_cap cfg = 144 \<and> device_id (spoof_profile cfg) = 0x2684
         | Inl _ \<Rightarrow> False)"

definition test_strip_quotes_preserves_embedded :: bool where
  "test_strip_quotes_preserves_embedded \<longleftrightarrow>
     strip_quotes ([QUOTE] @ lit ''foo'' @ [QUOTE]) = lit ''foo'' \<and> strip_quotes (lit ''foo'') = lit ''foo''
     \<and> strip_quotes ([QUOTE] @ lit ''a'' @ [QUOTE] @ lit ''b'' @ [QUOTE]) = lit ''a'' @ [QUOTE] @ lit ''b''
     \<and> strip_quotes [QUOTE] = [QUOTE] \<and> strip_quotes [] = []"

definition test_parse_bool_accepts_canonical_forms :: bool where
  "test_parse_bool_accepts_canonical_forms \<longleftrightarrow>
     parse_bool (lit ''true'') = Some True \<and> parse_bool (lit ''1'') = Some True \<and> parse_bool (lit ''false'') = Some False
     \<and> parse_bool (lit ''0'') = Some False \<and> parse_bool (lit ''yes'') = None \<and> parse_bool [] = None"

definition test_unknown_spoof_preset_falls_back_to_default :: "ustr option \<Rightarrow> bool" where
  "test_unknown_spoof_preset_falls_back_to_default env_val \<longleftrightarrow>
     (case (resolve_spoof_profile env_val (Some (lit ''RTX_99999'')), find_preset DEFAULT_PRESET) of
        (Inr p, Some d) \<Rightarrow> device_id p = device_id d
      | _ \<Rightarrow> False)"

definition test_per_app_override_skipped_when_no_match :: "environ \<Rightarrow> bool" where
  "test_per_app_override_skipped_when_no_match env \<longleftrightarrow>
     (let o1 = (new_override (lit ''test.exe''))\<lparr>ao_expose_reflex := Some True\<rparr>
      in case finalize_for_app env (Some (lit ''other.exe'')) (test_config False [o1]) of
           Inr cfg \<Rightarrow> \<not> expose_reflex cfg
         | Inl _ \<Rightarrow> False)"

lemma test_default_preset_resolves_to_5090_passes: test_default_preset_resolves_to_5090
  by code_simp

lemma test_presets_cover_all_four_generations_passes: test_presets_cover_all_four_generations
  by (simp add: test_presets_cover_all_four_generations_def starts_with_def strip_prefix_def NVIDIA_PRESETS_def preset_def Let_def)

lemma test_preset_keys_unique_passes: test_preset_keys_unique
proof -
  have "distinct (map fst NVIDIA_PRESETS)" by (simp add: NVIDIA_PRESETS_def preset_def)
  then show ?thesis by (simp add: test_preset_keys_unique_def Let_def remdups_adj_distinct)
qed

lemma test_known_decoupled_app_passes: test_known_decoupled_app
  by (simp add: test_known_decoupled_app_def is_known_decoupled_def test_config_def DECOUPLED_SIMULATION_APPS_def)

lemma test_force_decoupled_overrides_passes: test_force_decoupled_overrides
  by (simp add: test_force_decoupled_overrides_def is_known_decoupled_def test_config_def)

lemma test_fps_cap_to_min_delay_ns_passes: test_fps_cap_to_min_delay_ns
  by (simp add: test_fps_cap_to_min_delay_ns_def fps_cap_min_delay_ns_def test_config_def)

lemma test_strip_quotes_preserves_embedded_passes: test_strip_quotes_preserves_embedded
  by (simp add: test_strip_quotes_preserves_embedded_def strip_quotes_def byte_len_def utf8_width_def QUOTE_def)

lemma test_parse_bool_accepts_canonical_forms_passes: test_parse_bool_accepts_canonical_forms
  by (simp add: test_parse_bool_accepts_canonical_forms_def parse_bool_def)

lemma resolved_presets:
  "resolve_spoof_profile v (Some (lit ''RTX_4090'')) = Inr \<lparr>device_id = 0x2684, device_name = lit ''NVIDIA GeForce RTX 4090''\<rparr>"
  "resolve_spoof_profile v (Some (lit ''RTX_99999'')) = Inr \<lparr>device_id = 0x2B85, device_name = lit ''NVIDIA GeForce RTX 5090''\<rparr>"
proof -
  have m: "map_of NVIDIA_PRESETS (to_ascii_uppercase (lit ''RTX_4090'')) = Some \<lparr>device_id = 0x2684, device_name = lit ''NVIDIA GeForce RTX 4090''\<rparr>"
    "map_of NVIDIA_PRESETS (to_ascii_uppercase (lit ''RTX_99999'')) = None"
    "map_of NVIDIA_PRESETS DEFAULT_PRESET = Some \<lparr>device_id = 0x2B85, device_name = lit ''NVIDIA GeForce RTX 5090''\<rparr>"
    by (simp_all add: NVIDIA_PRESETS_def preset_def DEFAULT_PRESET_def to_ascii_uppercase_def)
  show "resolve_spoof_profile v (Some (lit ''RTX_4090'')) = Inr \<lparr>device_id = 0x2684, device_name = lit ''NVIDIA GeForce RTX 4090''\<rparr>"
    "resolve_spoof_profile v (Some (lit ''RTX_99999'')) = Inr \<lparr>device_id = 0x2B85, device_name = lit ''NVIDIA GeForce RTX 5090''\<rparr>"
    by (simp_all only: resolve_spoof_profile_def Let_def option.case m)
qed

lemma test_unknown_spoof_preset_falls_back_to_default_passes: "test_unknown_spoof_preset_falls_back_to_default v"
proof -
  have "map_option device_id (find_preset DEFAULT_PRESET) = Some 0x2B85"
    by (simp add: find_preset_def NVIDIA_PRESETS_def preset_def DEFAULT_PRESET_def)
  then show ?thesis by (auto simp: test_unknown_spoof_preset_falls_back_to_default_def resolved_presets [simplified])
qed

lemma test_per_app_override_applied_passes: "test_per_app_override_applied env"
  by (simp add: test_per_app_override_applied_def finalize_for_app_def apply_override_def test_config_def new_override_def
      or_default_def resolved_presets [simplified] Let_def)

lemma test_per_app_override_skipped_when_no_match_passes: "test_per_app_override_skipped_when_no_match env"
  by (simp add: test_per_app_override_skipped_when_no_match_def finalize_for_app_def test_config_def new_override_def Let_def)

section \<open>Anti-lag\<close>

definition test_compute_min_delay_handles_zero_and_common_caps :: bool where
  "test_compute_min_delay_handles_zero_and_common_caps \<longleftrightarrow>
     compute_min_delay_ns 0 = 0 \<and> compute_min_delay_ns 60 = 16666666
     \<and> compute_min_delay_ns 144 = 6944444 \<and> compute_min_delay_ns 240 = 4166666"

lemma test_compute_min_delay_handles_zero_and_common_caps_passes: test_compute_min_delay_handles_zero_and_common_caps
  by (simp add: test_compute_min_delay_handles_zero_and_common_caps_def compute_min_delay_ns_def)

section \<open>Percentiles\<close>

definition test_percentiles_on_known_distribution :: bool where
  "test_percentiles_on_known_distribution \<longleftrightarrow>
     (let s = map of_nat [1..<101]; (p50, p99) = percentile_p50_p99 s in p50 = 51 \<and> p99 = 99)"

definition test_percentiles_empty :: bool where
  "test_percentiles_empty \<longleftrightarrow> percentile_p50_p99 [] = (0, 0)"

definition test_percentiles_single_sample :: bool where
  "test_percentiles_single_sample \<longleftrightarrow> percentile_p50_p99 [42] = (42, 42)"

lemma test_percentiles_on_known_distribution_passes: test_percentiles_on_known_distribution
proof -
  have u: "unat (of_nat k :: u64) = k" if "k < 101" for k using that by (simp add: unat_of_nat)
  have "sorted (map of_nat [1..<101] :: u64 list)"
    unfolding sorted_map by (rule sorted_wrt_mono_rel [OF _ sorted_wrt_upt]) (auto simp: word_le_nat_alt u)
  then have "sort (map of_nat [1..<101]) = (map of_nat [1..<101] :: u64 list)" by (rule sorted_sort_id)
  then show ?thesis
    using rank_half [of 100] rank_99_of_100
    by (simp add: test_percentiles_on_known_distribution_def percentile_p50_p99_def quantile_def half_lit del: upt_conv_Cons)
qed

lemma test_percentiles_empty_passes: test_percentiles_empty
  by (simp add: test_percentiles_empty_def percentile_p50_p99_def)

lemma test_percentiles_single_sample_passes: test_percentiles_single_sample
  by (simp add: test_percentiles_single_sample_def percentile_p50_p99_def quantile_def)

section \<open>Bitset\<close>

text \<open>The loops acquire until the bitset answers \<open>None\<close>; as many rounds as there are bits are enough.\<close>

fun release_all :: "nat list \<Rightarrow> bitset \<Rightarrow> bitset option" where
  "release_all [] b = Some b"
| "release_all (q # qs) b = Option.bind (release_pair q b) (release_all qs)"

definition test_bitset_alloc_release_cycle :: bool where
  "test_bitset_alloc_release_cycle \<longleftrightarrow>
     any_free full \<and>
     (let (taken, b1) = drain acquire_pair CHUNK_SIZE full in
      acquire_pair b1 = None \<and> list_all (\<lambda>q. q mod 2 = 0) taken \<and> length taken = CHUNK_SIZE div 2 \<and> \<not> any_free b1 \<and>
      (case release_all (take 4 taken) b1 of
         None \<Rightarrow> False
       | Some b2 \<Rightarrow>
           (let (second, b3) = drain acquire_pair CHUNK_SIZE b2 in
            acquire_pair b3 = None \<and> sort (take 4 taken) = sort second)))"

definition test_bitset_returns_even_indices_only :: bool where
  "test_bitset_returns_even_indices_only \<longleftrightarrow>
     (let (taken, b) = drain acquire_pair 10 full in length taken = 10 \<and> list_all (\<lambda>q. q mod 2 = 0) taken)"

lemma release_all_frees:
  "bitset_inv b \<Longrightarrow> set qs \<subseteq> pair_indices \<Longrightarrow>
     \<exists>b'. release_all qs b = Some b' \<and> bitset_inv b' \<and> free_queries b' = set qs \<union> free_queries b"
proof (induction qs arbitrary: b)
  case (Cons q qs)
  obtain b1 where "release_pair q b = Some b1" "free_queries b1 = insert q (free_queries b)" "bitset_inv b1"
    using bits.release_gives [OF Cons.prems(1), of q] Cons.prems(2) by auto
  then show ?case using Cons.IH [of b1] Cons.prems(2) by auto
qed simp

lemma pair_indices_card: "card pair_indices = 256"
proof -
  have "pair_indices = (\<lambda>p. 2 * p) ` {..<256}"
    using even_image [of 256] by (simp add: pair_indices_def CHUNK_SIZE_def)
  moreover have "card ((\<lambda>p :: nat. 2 * p) ` {..<256}) = card {..<256 :: nat}" by (rule card_image) (simp add: inj_on_def)
  ultimately show ?thesis by simp
qed

lemma drain_full_rounds:
  "bitset_inv b \<Longrightarrow> n \<le> card (free_queries b) \<Longrightarrow> drain acquire_pair n b = (qs, b') \<Longrightarrow> length qs = n \<and> set qs \<subseteq> pair_indices"
proof (induction n arbitrary: b qs)
  case (Suc n)
  have fin: "finite (free_queries b)" using bits.finite_slots bits.free_slots [OF Suc.prems(1)] by (rule finite_subset [rotated])
  have "free_queries b \<noteq> {}" using Suc.prems(2) by auto
  then obtain q b1 where a: "acquire_pair b = Some (q, b1)"
    using bits.acquire_None [OF Suc.prems(1)] by (cases "acquire_pair b") auto
  obtain qs1 where d: "drain acquire_pair n b1 = (qs1, b')" "qs = q # qs1"
    using Suc.prems(3) a by (auto split: prod.splits)
  have "n \<le> card (free_queries b1)"
    using bits.acquire_takes [OF Suc.prems(1) a] bits.acquire_free [OF Suc.prems(1) a] Suc.prems(2) fin by simp
  then show ?case
    using Suc.IH [OF bits.acquire_inv [OF Suc.prems(1) a] _ d(1)] d(2) bits.acquire_free [OF Suc.prems(1) a] bits.free_slots [OF Suc.prems(1)] by auto
qed simp

lemma test_bitset_alloc_release_cycle_passes: test_bitset_alloc_release_cycle
proof -
  obtain taken b1 where d: "drain acquire_pair CHUNK_SIZE full = (taken, b1)" by fastforce
  have size: "card (free_queries full) \<le> CHUNK_SIZE" by (simp add: full_free pair_indices_card CHUNK_SIZE_def)
  have t: "distinct taken" "set taken = pair_indices" "free_queries b1 = {}" "acquire_pair b1 = None" "bitset_inv b1"
    using bits.drain_all [OF full_inv size d] bits.drain_inv [OF full_inv d] by (simp_all add: full_free)
  have n: "length taken = 256" using distinct_card [OF t(1)] t(2) pair_indices_card by simp
  have sub: "set (take 4 taken) \<subseteq> pair_indices" using t(2) set_take_subset by fastforce
  obtain b2 where b2: "release_all (take 4 taken) b1 = Some b2" "bitset_inv b2" "free_queries b2 = set (take 4 taken)"
    using release_all_frees [OF t(5) sub] t(3) by auto
  obtain second b3 where d2: "drain acquire_pair CHUNK_SIZE b2 = (second, b3)" by fastforce
  have "card (free_queries b2) \<le> CHUNK_SIZE"
    using card_length [of "take 4 taken"] by (simp add: b2(3) CHUNK_SIZE_def)
  from bits.drain_all [OF b2(2) this d2] have s: "distinct second" "set second = set (take 4 taken)" "acquire_pair b3 = None"
    by (simp_all add: b2(3))
  have "mset second = mset (take 4 taken)" using s t(1) by (simp add: set_eq_iff_mset_eq_distinct)
  then have "sort (take 4 taken) = sort second" by (metis sorted_list_of_multiset_mset)
  moreover have "pair_indices \<noteq> {}" using pair_indices_card by fastforce
  then have "any_free full" by (simp add: any_free_iff full_free)
  moreover have "\<not> any_free b1" by (simp add: any_free_iff t(3))
  moreover have "list_all (\<lambda>q. q mod 2 = 0) taken"
    using t(2) by (auto simp: list_all_iff pair_indices_def even_iff_mod_2_eq_zero)
  moreover have "length taken = CHUNK_SIZE div 2" using n by (simp add: CHUNK_SIZE_def)
  ultimately show ?thesis
    unfolding test_bitset_alloc_release_cycle_def Let_def d prod.case b2(1) option.case d2 by (intro conjI t(4) s(3))
qed

lemma test_bitset_returns_even_indices_only_passes: test_bitset_returns_even_indices_only
proof -
  obtain taken b where d: "drain acquire_pair 10 full = (taken, b)" by fastforce
  have "10 \<le> card (free_queries full)" by (simp add: full_free pair_indices_card)
  then have "length taken = 10" "set taken \<subseteq> pair_indices" using drain_full_rounds [OF full_inv _ d] by blast+
  then show ?thesis
    unfolding test_bitset_returns_even_indices_only_def d by (auto simp: list_all_iff pair_indices_def)
qed

end
