(* ===== verification/HudTests.thy ===== *)
theory HudTests
  imports HudStats
begin

text \<open>
  The unit tests of the HUD (\<open>mod tests\<close> of \<open>tools/vkpace-hud/src/parse.rs\<close> and \<open>stats.rs\<close>), as
  functions on the model; the lemma with the suffix \<open>_passes\<close> proves each. An aggregation
  with assertions inside is one that returns the bin, with the assertions on the bins.
\<close>

section \<open>Parser\<close>

definition test_round_trip_layer_format :: bool where
  "test_round_trip_layer_format \<longleftrightarrow>
     (case parse_line (lit ''{\"ts\":1234567890,\"frame\":7,\"queue\":\"0xdeadbeef\",\"pid\":42,\"latency_us\":1500}'') of
        Some r \<Rightarrow> ts_ns r = 1234567890 \<and> frame r = 7 \<and> queue r = 0xdeadbeef \<and> pid r = 42 \<and> lat_us r = 1500
      | None \<Rightarrow> False)"

definition test_trailing_newline_accepted :: bool where
  "test_trailing_newline_accepted \<longleftrightarrow>
     parse_line (lit ''{\"ts\":1,\"frame\":2,\"queue\":\"0x0\",\"pid\":3,\"latency_us\":4}'' @ [10]) \<noteq> None"

definition test_missing_field_defaults_zero :: bool where
  "test_missing_field_defaults_zero \<longleftrightarrow>
     (case parse_line (lit ''{\"ts\":1,\"frame\":2,\"queue\":\"0x0\",\"pid\":3}'') of Some r \<Rightarrow> lat_us r = 0 | None \<Rightarrow> False)"

definition test_unknown_field_ignored :: bool where
  "test_unknown_field_ignored \<longleftrightarrow>
     parse_line (lit ''{\"ts\":1,\"frame\":2,\"queue\":\"0x0\",\"pid\":3,\"latency_us\":4,\"future\":99}'') \<noteq> None"

definition test_garbage_hex_rejects :: bool where
  "test_garbage_hex_rejects \<longleftrightarrow>
     parse_line (lit ''{\"ts\":1,\"frame\":2,\"queue\":\"0xZZ\",\"pid\":3,\"latency_us\":4}'') = None"

definition test_oversized_line_rejected :: bool where
  "test_oversized_line_rejected \<longleftrightarrow>
     (let pad = replicate 2000 120 in
      parse_line (lit ''{\"ts\":1,\"frame\":2,\"queue\":\"0x0\",\"pid\":3,\"latency_us\":4,\"x\":\"'' @ pad @ lit ''\"}'') = None)"

definition test_missing_braces_rejected :: bool where
  "test_missing_braces_rejected \<longleftrightarrow> parse_line (lit ''\"ts\":1,\"frame\":2'') = None"

definition test_empty_object_rejected :: bool where
  "test_empty_object_rejected \<longleftrightarrow> parse_line (lit ''{}'') = None"

definition test_key_reorder_accepted :: bool where
  "test_key_reorder_accepted \<longleftrightarrow>
     (case parse_line (lit ''{\"pid\":3,\"queue\":\"0xff\",\"latency_us\":4,\"frame\":2,\"ts\":1}'') of
        Some r \<Rightarrow> ts_ns r = 1 \<and> queue r = 0xff
      | None \<Rightarrow> False)"

definition test_whitespace_tolerated :: bool where
  "test_whitespace_tolerated \<longleftrightarrow>
     parse_line (lit ''{ \"ts\" : 1 , \"frame\" : 2 , \"queue\" : \"0x0\" , \"pid\" : 3 , \"latency_us\" : 4 }'') \<noteq> None"

lemmas run_parser = parse_line_def MAX_LINE_BYTES_def byte_len_def utf8_width_def trim_def trim_matches_def trim_end_matches_def
  is_ws_def strip_prefix_def strip_suffix_def lit_def parse_part_def split_once_def parse_u64_def parse_queue_def
  parse_u64_str_def parse_uint_def digit_of_def Let_def

lemma test_round_trip_layer_format_passes: test_round_trip_layer_format
  by (simp add: test_round_trip_layer_format_def run_parser)

lemma test_trailing_newline_accepted_passes: test_trailing_newline_accepted
  by (simp add: test_trailing_newline_accepted_def run_parser)

lemma test_missing_field_defaults_zero_passes: test_missing_field_defaults_zero
  by (simp add: test_missing_field_defaults_zero_def run_parser record_default_def)

lemma test_unknown_field_ignored_passes: test_unknown_field_ignored
  by (simp add: test_unknown_field_ignored_def run_parser)

lemma test_garbage_hex_rejects_passes: test_garbage_hex_rejects
  by (simp add: test_garbage_hex_rejects_def run_parser)

lemma test_oversized_line_rejected_passes: test_oversized_line_rejected
  by (simp add: test_oversized_line_rejected_def parse_line_def MAX_LINE_BYTES_def byte_len_def utf8_width_def Let_def sum_list_replicate)

lemma test_missing_braces_rejected_passes: test_missing_braces_rejected
  by (simp add: test_missing_braces_rejected_def run_parser)

lemma test_empty_object_rejected_passes: test_empty_object_rejected
  by (simp add: test_empty_object_rejected_def run_parser)

lemma test_key_reorder_accepted_passes: test_key_reorder_accepted
  by (simp add: test_key_reorder_accepted_def run_parser)

lemma test_whitespace_tolerated_passes: test_whitespace_tolerated
  by (simp add: test_whitespace_tolerated_def run_parser)

section \<open>Statistics\<close>

definition rec_of :: "u64 \<Rightarrow> u64 \<Rightarrow> u64 \<Rightarrow> hud_record" where
  "rec_of ts fr latency = \<lparr>ts_ns = ts, frame = fr, queue = 0, pid = fr, lat_us = latency\<rparr>"

definition test_fps_over_known_window :: bool where
  "test_fps_over_known_window \<longleftrightarrow>
     (let records = map (\<lambda>i. rec_of (of_nat i * 16666666) (of_nat i) 0) [0..<60];
          stats = live_stats records (60 * 16666666) 1000000000
      in 58 < ls_fps stats \<and> ls_fps stats \<le> 61)"

definition test_latency_percentiles_on_known_distribution :: bool where
  "test_latency_percentiles_on_known_distribution \<longleftrightarrow>
     (let records = map (\<lambda>i. rec_of (of_nat i * 1000000) (of_nat i) (of_nat i)) [1..<101];
          stats = live_stats records 100000000 1000000000
      in p50_us stats = 51 \<and> p99_us stats = 99 \<and> max_us stats = 100)"

definition test_latencies_of_zero_are_skipped :: bool where
  "test_latencies_of_zero_are_skipped \<longleftrightarrow>
     (let records = map (\<lambda>i. rec_of (of_nat i * 1000000) (of_nat i) 100) [1..<11]
            @ map (\<lambda>i. rec_of (of_nat i * 1000000) (of_nat i) 0) [11..<21];
          stats = live_stats records 20000000 1000000000
      in samples stats = 10 \<and> p50_us stats = 100)"

definition test_empty_input_returns_zero :: bool where
  "test_empty_input_returns_zero \<longleftrightarrow>
     (let stats = live_stats [] 0 1000000000 in ls_fps stats = 0 \<and> samples stats = 0)"

definition test_frame_gaps_detects_dropped_presents :: bool where
  "test_frame_gaps_detects_dropped_presents \<longleftrightarrow>
     (let records = [rec_of 1 1 0, rec_of 2 2 0, rec_of 3 6 0, rec_of 4 7 0, rec_of 5 10 0] in
      frame_gaps records = [(6, 3), (10, 2)])"

definition F64_EPSILON :: rat where "F64_EPSILON = 1 / 2 ^ 52"

definition count_agg :: "bin \<Rightarrow> rat" where "count_agg b = f64_of_int (int (length (bin_recs b)))"

definition all_ones :: "(rat \<times> rat) list \<Rightarrow> bool" where
  "all_ones bins = list_all (\<lambda>p. \<bar>f64_sub (snd p) 1\<bar> < F64_EPSILON) bins"

definition test_bin_records_skips_empty_bins :: bool where
  "test_bin_records_skips_empty_bins \<longleftrightarrow>
     (let records = [rec_of 100000000 1 0, rec_of 500000000 2 0, rec_of 900000000 3 0];
          bins = bin_records records 1000000000 1000000000 100000000 count_agg
      in length bins = 3 \<and> all_ones bins)"

definition test_bin_records_groups_by_time :: bool where
  "test_bin_records_groups_by_time \<longleftrightarrow>
     (let records = map (\<lambda>i. rec_of (of_nat i * 100000000) (of_nat i) 0) [0..<10];
          bins = bin_records records 1000000000 1000000000 100000000 count_agg
      in length bins = 10 \<and> all_ones bins)"

definition test_bin_records_keys_are_absolute_so_sealed_bins_dont_change :: bool where
  "test_bin_records_keys_are_absolute_so_sealed_bins_dont_change \<longleftrightarrow>
     (let records = [rec_of 450000000 1 0, rec_of 550000000 2 0];
          bins_a = bin_records records 600000000 1000000000 500000000 count_agg;
          bins_b = bin_records records 1200000000 1000000000 500000000 count_agg
      in map snd bins_a = map snd bins_b)"

definition test_bin_records_marks_current_bin_with_partial_width :: bool where
  "test_bin_records_marks_current_bin_with_partial_width \<longleftrightarrow>
     (let records = [rec_of 1100000000 1 0, rec_of 1200000000 2 0];
          bins = map snd (bin_records records 1300000000 1000000000 500000000 (\<lambda>b. b))
      in list_all (\<lambda>b. if is_current b then width_ns b = 300000000 else width_ns b = 500000000) bins
         \<and> list_ex is_current bins)"

lemmas run_stats = live_stats_def rec_of_def Let_def saturating_sub_def

lemmas run_bins = bin_records_def bins_of_def make_bin_def rec_of_def Let_def saturating_sub_def all_ones_def count_agg_def
  F64_EPSILON_def

lemma f64_ones: "f64_sub 1 1 = 0" "f64_of_int 1 = 1" "f64_of_int 2 = 2" "f64_of_int 3 = 3" "f64_of_int 6 = 6" "f64_of_int 10 = 10"
  using f64_rnd_int [of 0] by (simp_all add: f64_sub_def f64_of_int_exact)

lemma test_empty_input_returns_zero_passes: test_empty_input_returns_zero
  by (simp add: test_empty_input_returns_zero_def live_stats_def live_stats_default_def)

lemma test_frame_gaps_detects_dropped_presents_passes: test_frame_gaps_detects_dropped_presents
  by (simp add: test_frame_gaps_detects_dropped_presents_def rec_of_def f64_ones)

lemma test_bin_records_skips_empty_bins_passes: test_bin_records_skips_empty_bins
  by (simp add: test_bin_records_skips_empty_bins_def run_bins f64_ones)

lemma test_bin_records_groups_by_time_passes: test_bin_records_groups_by_time
  by (simp add: test_bin_records_groups_by_time_def run_bins f64_ones upt_conv_Cons)

lemma test_bin_records_keys_are_absolute_so_sealed_bins_dont_change_passes:
  test_bin_records_keys_are_absolute_so_sealed_bins_dont_change
  by (simp add: test_bin_records_keys_are_absolute_so_sealed_bins_dont_change_def run_bins)

lemma test_bin_records_marks_current_bin_with_partial_width_passes:
  test_bin_records_marks_current_bin_with_partial_width
  by (simp add: test_bin_records_marks_current_bin_with_partial_width_def run_bins)

lemma test_fps_over_known_window_passes: test_fps_over_known_window
proof -
  let ?rs = "map (\<lambda>i. rec_of (of_nat i * 16666666) (of_nat i) 0) [0..<60]"
  have "filter (\<lambda>r. 0 \<le> ts_ns r) ?rs = ?rs" "filter (\<lambda>v. 0 < v) (map lat_us ?rs) = []" "?rs \<noteq> []"
    by (simp_all add: filter_map o_def rec_of_def del: upt_conv_Cons)
  moreover have "f64_div (f64_mul 60 1000000000) 1000000000 = 60"
    using f64_rnd_int [of 60000000000] f64_rnd_int [of 60] by (simp add: f64_mul_def f64_div_def)
  ultimately show ?thesis
    by (simp add: test_fps_over_known_window_def live_stats_def live_stats_default_def saturating_sub_def f64_of_int_exact Let_def
        del: upt_conv_Cons)
qed

lemma test_latency_percentiles_on_known_distribution_passes: test_latency_percentiles_on_known_distribution
proof -
  let ?rs = "map (\<lambda>i. rec_of (of_nat i * 1000000) (of_nat i) (of_nat i)) [1..<101]"
  have u: "unat (of_nat k :: u64) = k" if "k < 101" for k using that by (simp add: unat_of_nat)
  have pos: "0 < (of_nat k :: u64)" if "0 < k" "k < 101" for k using u [of k] that by (simp add: word_less_nat_alt)
  have all: "filter (\<lambda>r. 0 \<le> ts_ns r) ?rs = ?rs" by simp
  have lats: "filter (\<lambda>v. 0 < v) (map lat_us ?rs) = map of_nat [1..<101]"
    by (simp add: rec_of_def o_def pos del: upt_conv_Cons)
  have "sorted (map of_nat [1..<101] :: u64 list)"
    unfolding sorted_map by (rule sorted_wrt_mono_rel [OF _ sorted_wrt_upt]) (auto simp: word_le_nat_alt u)
  then have sorted: "sort (map of_nat [1..<101]) = (map of_nat [1..<101] :: u64 list)" by (rule sorted_sort_id)
  have ne: "[1..<101 :: nat] \<noteq> []" by simp
  show ?thesis
    using all lats sorted rank_half [of 100] rank_99_of_100 ne
    by (simp add: test_latency_percentiles_on_known_distribution_def live_stats_def saturating_sub_def Let_def quantile_def half_lit
        last_map del: upt_conv_Cons)
qed

lemma test_latencies_of_zero_are_skipped_passes: test_latencies_of_zero_are_skipped
proof -
  let ?a = "map (\<lambda>i. rec_of (of_nat i * 1000000) (of_nat i) 100) [1..<11]"
  let ?b = "map (\<lambda>i. rec_of (of_nat i * 1000000) (of_nat i) 0) [11..<21]"
  have "filter (\<lambda>v. 0 < v) (map lat_us (?a @ ?b)) = replicate 10 100"
    by (simp add: rec_of_def o_def map_replicate_const del: upt_conv_Cons)
  moreover have "filter (\<lambda>r. 0 \<le> ts_ns r) (?a @ ?b) = ?a @ ?b" by simp
  moreover have "sort (replicate 10 100) = replicate 10 (100 :: u64)" by (rule sorted_sort_id) simp
  ultimately show ?thesis
    using rank_half [of 10]
    by (simp add: test_latencies_of_zero_are_skipped_def live_stats_def saturating_sub_def Let_def quantile_def half_lit
        del: upt_conv_Cons)
qed

end
