(* ===== verification/LoaderTests.thy ===== *)
theory LoaderTests
  imports Dispatch BuildScript
begin

text \<open>
  The integration tests of the loader handshake (\<open>src/tests/loader_handshake.rs\<close>): each test is a
  definition over \<open>negotiate\<close> and \<open>get_instance_proc_addr\<close>, and a lemma says that it passes. The
  search for the built library (\<open>open_layer\<close>) is a function of what exists and what \<open>dlopen\<close>
  answers.
\<close>

section \<open>Finding the library\<close>

definition candidates :: "ustr \<Rightarrow> ustr list" where
  "candidates manifest =
     concat (map (\<lambda>profile.
         [path_join (path_join (path_join manifest (lit ''target'')) (lit profile)) LIB_FILE,
          path_join (path_join (path_join (path_join manifest (lit ''target'')) (lit profile)) (lit ''deps'')) LIB_FILE])
       [''release'', ''debug''])
     @ [LIB_FILE]"

text \<open>
  The first candidate that exists and opens; a null handle is \<open>None\<close>. When none does, the
  library is built and opened where a debug build puts it: \<open>built\<close> is \<open>None\<close> when the build
  fails, and else what \<open>dlopen\<close> answers after it. The left value is the panic with the list
  of what was tried.
\<close>

fun try_open :: "(ustr \<Rightarrow> bool) \<Rightarrow> (ustr \<Rightarrow> nat option) \<Rightarrow> ustr list \<Rightarrow> ustr list \<Rightarrow> ustr list + nat" where
  "try_open exists dlopen tried [] = Inl tried"
| "try_open exists dlopen tried (s # ss) =
     (if \<not> exists s then try_open exists dlopen (tried @ [s]) ss
      else (case dlopen s of
              Some h \<Rightarrow> Inr h
            | None \<Rightarrow> try_open exists dlopen (tried @ [s @ lit '' (dlopen failed)'']) ss))"

definition open_layer :: "(ustr \<Rightarrow> bool) \<Rightarrow> (ustr \<Rightarrow> nat option) \<Rightarrow> (ustr \<Rightarrow> nat option) option \<Rightarrow> ustr \<Rightarrow> ustr list + nat" where
  "open_layer exists dlopen built manifest =
     (case try_open exists dlopen [] (candidates manifest) of
        Inr h \<Rightarrow> Inr h
      | Inl tried \<Rightarrow>
          (case built of
             None \<Rightarrow> Inl tried
           | Some dlopen_then \<Rightarrow>
               (case dlopen_then (path_join (path_join (path_join manifest (lit ''target'')) (lit ''debug'')) LIB_FILE) of
                  Some h \<Rightarrow> Inr h
                | None \<Rightarrow> Inl tried)))"

lemma try_open_result:
  "try_open exists dlopen tried ss = Inr h \<longleftrightarrow>
     (\<exists>s. List.find (\<lambda>s. exists s \<and> dlopen s \<noteq> None) ss = Some s \<and> dlopen s = Some h)"
  by (induction ss arbitrary: tried) (auto split: option.splits)

lemma try_open_tried: "try_open exists dlopen tried ss = Inl l \<Longrightarrow> length l = length tried + length ss"
  by (induction ss arbitrary: tried) (auto split: option.splits if_splits)

lemma length_candidates: "length (candidates manifest) = 5"
  by (simp add: candidates_def)

text \<open>A release build is preferred, and a failure names five paths.\<close>

lemma open_layer_prefers_release:
  "let lib = path_join (path_join (path_join manifest (lit ''target'')) (lit ''release'')) LIB_FILE in
   exists lib \<and> dlopen lib = Some h \<longrightarrow> open_layer exists dlopen built manifest = Inr h"
  by (simp add: open_layer_def candidates_def Let_def)

lemma open_layer_panic: "open_layer exists dlopen built manifest = Inl l \<Longrightarrow> length l = 5"
  using try_open_tried [of exists dlopen "[]" "candidates manifest"]
  by (auto simp: open_layer_def length_candidates split: sum.splits option.splits)

text \<open>The library that the manifest of a debug or release build names is one the tests try.\<close>

lemma manifest_library_is_tried:
  assumes "profile = ''release'' \<or> profile = ''debug''"
  shows "path_join (path_join (path_join manifest (lit ''target'')) (lit profile)) LIB_FILE \<in> set (candidates manifest)"
  using assms by (auto simp: candidates_def)

section \<open>The tests\<close>

text \<open>No instance exists: the registry is empty.\<close>

definition gipa :: "nat \<Rightarrow> string option \<Rightarrow> pfn option" where
  "gipa = get_instance_proc_addr (\<lambda>_. None)"

definition test_negotiate_returns_version_2 :: bool where
  "test_negotiate_returns_version_2 =
     (case negotiate (Some \<lparr>loader_layer_interface_version = 5, pfn_get_instance_proc_addr = None,
         pfn_get_device_proc_addr = None, pfn_get_physical_device_proc_addr = None\<rparr>) of
        (r, Some s) \<Rightarrow> r = SUCCESS \<and> loader_layer_interface_version s = 2
          \<and> pfn_get_instance_proc_addr s \<noteq> None \<and> pfn_get_device_proc_addr s \<noteq> None
      | (r, None) \<Rightarrow> False)"

definition test_gipa_resolves_known_global_entrypoints :: bool where
  "test_gipa_resolves_known_global_entrypoints =
     list_all (\<lambda>name. gipa 0 (Some name) \<noteq> None) [''vkCreateInstance'', ''vkGetInstanceProcAddr'', ''vkGetDeviceProcAddr'']"

definition test_gipa_returns_none_for_unknown_global :: bool where
  "test_gipa_returns_none_for_unknown_global = (gipa 0 (Some ''vkObviouslyNotARealFunction'') = None)"

definition test_gipa_resolves_core_and_khr_variants_to_distinct_shims :: bool where
  "test_gipa_resolves_core_and_khr_variants_to_distinct_shims =
     list_all (\<lambda>(core, khr). gipa 0 (Some core) \<noteq> None \<and> gipa 0 (Some khr) \<noteq> None \<and> gipa 0 (Some core) \<noteq> gipa 0 (Some khr))
       [(''vkGetPhysicalDeviceProperties2'', ''vkGetPhysicalDeviceProperties2KHR''),
        (''vkGetPhysicalDeviceFeatures2'', ''vkGetPhysicalDeviceFeatures2KHR'')]"

definition test_gipa_returns_none_for_null_name :: bool where
  "test_gipa_returns_none_for_null_name = (gipa 0 None = None)"

lemma test_negotiate_returns_version_2_passes: "test_negotiate_returns_version_2"
  by (simp add: test_negotiate_returns_version_2_def negotiate_def CURRENT_LOADER_LAYER_INTERFACE_VERSION_def)

lemma test_gipa_resolves_known_global_entrypoints_passes: "test_gipa_resolves_known_global_entrypoints"
  by code_simp

lemma test_gipa_returns_none_for_unknown_global_passes: "test_gipa_returns_none_for_unknown_global"
  by code_simp

lemma test_gipa_resolves_core_and_khr_variants_to_distinct_shims_passes:
  "test_gipa_resolves_core_and_khr_variants_to_distinct_shims"
  by code_simp

lemma test_gipa_returns_none_for_null_name_passes: "test_gipa_returns_none_for_null_name"
  by code_simp

text \<open>The tests sample this: without an instance exactly the names of the table resolve.\<close>

lemma gipa_global: "gipa 0 (Some name) = map_option Hook (map_of INSTANCE_FUNCTIONS name)"
  by (simp add: gipa_def get_instance_proc_addr_def split: option.splits)

end
